(* ===== verification/Go_Prelude.thy ===== *)
theory Go_Prelude
  imports Main "HOL-Library.Word" "HOL-Library.Finite_Map"
begin

text \<open>
  What every theory of the development shares: the machine integers of Go, the outcomes of a Go
  call (a value, an error, a panic), slices as address and length, the generic facts on masked
  indices and on list windows that the ring buffers need, and the notion of a transition system
  with its invariant rule, used for the goroutines of the library.
\<close>

unbundle bit_operations_syntax

named_theorems ring_defs \<open>definitions unfolded to run an operation of the ring on a state\<close>
named_theorems ring_simps \<open>what the operations leave unchanged, and what they return\<close>
named_theorems mask_simps \<open>masked 32-bit indices read as naturals modulo the ring size\<close>

section \<open>Machine integers\<close>

text \<open>
  The library is built for 64-bit Linux: \<open>int\<close>, \<open>uint\<close> and \<open>uintptr\<close> have 64 bits.
  Signed values are words read with \<open>sint\<close>; a conversion between widths is \<open>ucast\<close>
  from an unsigned source or a truncation, \<open>scast\<close> when a signed value is widened.
\<close>

type_synonym u8 = "8 word"
type_synonym u16 = "16 word"
type_synonym u32 = "32 word"
type_synonym u64 = "64 word"
type_synonym i32 = "32 word"
type_synonym i64 = "64 word"
type_synonym goint = "64 word"

section \<open>Errors, panics and outcomes\<close>

text \<open>
  The error values of the package (\<open>types.go\<close>, \<open>ops.go\<close>), the ones it builds with
  \<open>fmt.Errorf\<close> and \<open>errors.New\<close>, wrapped errors, \<open>io.EOF\<close> and the kernel's
  \<open>syscall.Errno\<close>.
\<close>

datatype goerror =
    Errno u64
  | ErrEntryNotFound
  | errCQEMissing
  | errRingUnavailable
  | EOF
  | ErrorString string
  | Errorf string "goint list"
  | Wrapped goerror string

datatype gopanic = IndexOutOfRange | SliceBoundsOutOfRange | NilDereference | PanicMessage string

datatype 'a go = Ok 'a | Err goerror | Panic gopanic

text \<open>A slice or string header as far as the ring sees it: the address of its data, its length.\<close>

record slice =
  sliceData :: u64
  sliceLen :: nat

text \<open>The address of the first element, \<open>&b[0]\<close>, which panics on an empty slice.\<close>

definition firstAddr :: "slice \<Rightarrow> u64 go" where
  "firstAddr b = (if sliceLen b = 0 then Panic IndexOutOfRange else Ok (sliceData b))"

section \<open>Masked indices\<close>

lemma unat_and_mask [mask_simps]:
  "unat ((x :: 'a::len word) AND mask k) = unat x mod 2 ^ k"
proof -
  have "unat (x AND mask k) = unat (take_bit k x)"
    by (simp add: take_bit_eq_mask)
  also have "\<dots> = take_bit k (unat x)"
    by (rule unsigned_take_bit_eq)
  finally show ?thesis
    by (simp add: take_bit_eq_mod)
qed

lemma unat_mask_u32 [mask_simps]:
  assumes "k < 32"
  shows "unat (mask k :: u32) = 2 ^ k - 1"
proof -
  have "unat (mask k :: u32) = unat (- 1 :: u32) mod 2 ^ k"
    using unat_and_mask [of "- 1 :: u32" k] by simp
  also have "\<dots> = (2 ^ 32 - 1) mod 2 ^ k"
    by (simp add: unsigned_minus_1_eq_mask mask_eq_exp_minus_1)
  also have "\<dots> = 2 ^ k - 1"
    using assms mask_mod_exp [where 'a = nat, of 32 k] by (simp add: min_def)
  finally show ?thesis .
qed

lemma pow2_less_u32: "k < 32 \<Longrightarrow> (2 :: nat) ^ k < 2 ^ 32"
  by (rule power_strict_increasing) auto

lemma unat_Suc_u32:
  "unat x + 1 < 2 ^ 32 \<Longrightarrow> unat ((x :: u32) + 1) = unat x + 1"
  by (simp add: unat_word_ariths)

lemma unat_of_nat_u32 [simp]:
  "n < 4294967296 \<Longrightarrow> unat (of_nat n :: u32) = n"
  by (simp add: unat_of_nat)

lemma unat_u32_bound: "unat (x :: u32) < 2 ^ 32"
  using unsigned_less [where ?'a = nat, of x] by simp

lemma unat_ucast_u32_u64 [simp]: "unat (ucast (x :: u32) :: u64) = unat x"
  using unat_u32_bound [of x] by (simp add: unsigned_ucast_eq take_bit_eq_mod)

lemma unat_ucast_u64_u32: "unat (x :: u64) < 2 ^ 32 \<Longrightarrow> unat (ucast x :: u32) = unat x"
  by (simp add: unsigned_ucast_eq take_bit_eq_mod)

lemma and_mask_idem [simp]: "((x :: 'a::len word) AND m) AND m = x AND m"
  by (simp add: ac_simps)

section \<open>Windows of a list\<close>

definition window :: "'a list \<Rightarrow> nat \<Rightarrow> nat \<Rightarrow> 'a list" where
  "window xs i j = take (j - i) (drop i xs)"

lemma window_empty [simp]: "j \<le> i \<Longrightarrow> window xs i j = []"
  by (simp add: window_def)

lemma window_step:
  "i < j \<Longrightarrow> i < length xs \<Longrightarrow> window xs i j = xs ! i # window xs (Suc i) j"
  by (simp add: window_def Cons_nth_drop_Suc [symmetric] take_Cons' Suc_diff_Suc)

lemma length_window [simp]: "length (window xs i j) = min (j - i) (length xs - i)"
  by (simp add: window_def)

lemma set_window_subset: "set (window xs i j) \<subseteq> set xs"
  unfolding window_def by (meson in_set_dropD in_set_takeD subsetI)

lemma window_nth: "i + n < j \<Longrightarrow> i + n < length xs \<Longrightarrow> window xs i j ! n = xs ! (i + n)"
  by (simp add: window_def)

lemma find_upt_Some: "find P [i ..< n] = Some j \<Longrightarrow> i \<le> j \<and> j < n \<and> P j"
  by (auto simp: find_Some_iff)

lemma find_append: "find P (xs @ ys) = (case find P xs of None \<Rightarrow> find P ys | Some x \<Rightarrow> Some x)"
  by (induction xs) auto

lemma slots_distinct:
  assumes "i < j" "j < (n :: nat)"
  shows "(h + i) mod n \<noteq> (h + j) mod n"
proof
  assume "(h + i) mod n = (h + j) mod n"
  then have "n dvd h + j - (h + i)"
    using assms(1) by (metis add_le_cancel_left less_imp_le_nat mod_eq_dvd_iff_nat)
  then show False
    using assms nat_dvd_not_less [of "j - i" n] by simp
qed

section \<open>Bytes of memory\<close>

type_synonym bytes = "u64 \<Rightarrow> u8"

definition buffer :: "bytes \<Rightarrow> u64 \<Rightarrow> nat \<Rightarrow> u8 list" where
  "buffer mem a n = map (\<lambda>i. mem (a + of_nat i)) [0 ..< n]"

definition fill_bytes :: "u64 \<Rightarrow> u8 list \<Rightarrow> bytes \<Rightarrow> bytes" where
  "fill_bytes a bs mem = (\<lambda>x. if unat (x - a) < length bs then bs ! unat (x - a) else mem x)"

lemma buffer_fill_bytes:
  assumes "n \<le> length bs" "length bs \<le> 2 ^ 64"
  shows "buffer (fill_bytes a bs mem) a n = take n bs"
proof (rule nth_equalityI)
  fix i assume "i < length (buffer (fill_bytes a bs mem) a n)"
  then have "i < n" by (simp add: buffer_def)
  moreover from this assms have "unat (of_nat i :: u64) = i" by (simp add: unat_of_nat)
  ultimately show "buffer (fill_bytes a bs mem) a n ! i = take n bs ! i"
    using assms by (simp add: buffer_def fill_bytes_def)
qed (use assms in \<open>simp add: buffer_def\<close>)

lemma scast_of_nat_i32: "n < 2 ^ 31 \<Longrightarrow> scast (of_nat n :: i32) = (of_nat n :: u64)"
proof -
  assume "n < 2 ^ 31"
  then have "sint (of_nat n :: i32) = int n"
    by (simp add: signed_of_nat signed_take_bit_int_eq_self)
  then show ?thesis by (simp add: scast_eq)
qed

section \<open>Transition systems\<close>

inductive reach :: "('s \<Rightarrow> bool) \<Rightarrow> ('s \<Rightarrow> 's \<Rightarrow> bool) \<Rightarrow> 's \<Rightarrow> bool"
  for init :: "'s \<Rightarrow> bool" and step :: "'s \<Rightarrow> 's \<Rightarrow> bool" where
  reach_init: "init s \<Longrightarrow> reach init step s"
| reach_step: "reach init step s \<Longrightarrow> step s t \<Longrightarrow> reach init step t"

lemma reach_rtranclp: "step\<^sup>*\<^sup>* s t \<Longrightarrow> reach init step s \<Longrightarrow> reach init step t"
  by (induction rule: rtranclp_induct) (auto intro: reach_step)

text \<open>
  The interface between a goroutine's step relation and the properties of its runs: an invariant
  that the initial states have and every step keeps holds in every reachable state.
\<close>

locale invariant_system =
  fixes init :: "'s \<Rightarrow> bool"
    and step :: "'s \<Rightarrow> 's \<Rightarrow> bool"
    and inv :: "'s \<Rightarrow> bool"
  assumes inv_init: "init s \<Longrightarrow> inv s"
    and inv_step: "inv s \<Longrightarrow> step s t \<Longrightarrow> inv t"
begin

lemma reach_inv: "reach init step s \<Longrightarrow> inv s"
  by (induction rule: reach.induct) (auto intro: inv_init inv_step)

lemma rtranclp_inv: "step\<^sup>*\<^sup>* s t \<Longrightarrow> inv s \<Longrightarrow> inv t"
  by (induction rule: rtranclp_induct) (auto intro: inv_step)

end

text \<open>
  The interface between a goroutine and the specification of the service it gives: every step of the
  goroutine is a sequence of steps of the specification, possibly none, on what the goroutine's state
  stands for. Then its runs are runs of the specification and keep what the specification keeps.
\<close>

locale refinement =
  concrete: invariant_system cinit cstep cinv + abstract: invariant_system ainit astep ainv
  for cinit :: "'s \<Rightarrow> bool" and cstep :: "'s \<Rightarrow> 's \<Rightarrow> bool" and cinv :: "'s \<Rightarrow> bool"
    and ainit :: "'a \<Rightarrow> bool" and astep :: "'a \<Rightarrow> 'a \<Rightarrow> bool" and ainv :: "'a \<Rightarrow> bool" +
  fixes abs :: "'s \<Rightarrow> 'a"
  assumes abs_init: "cinit s \<Longrightarrow> ainit (abs s)"
    and abs_step: "cinv s \<Longrightarrow> ainv (abs s) \<Longrightarrow> cstep s t \<Longrightarrow> astep\<^sup>*\<^sup>* (abs s) (abs t)"
begin

lemma reach_abs: "reach cinit cstep s \<Longrightarrow> reach ainit astep (abs s)"
proof (induction rule: reach.induct)
  case (reach_step s t)
  then have "astep\<^sup>*\<^sup>* (abs s) (abs t)"
    by (intro abs_step concrete.reach_inv abstract.reach_inv)
  then show ?case using reach_step.IH by (rule reach_rtranclp)
qed (simp add: abs_init reach_init)

lemma reach_abs_inv: "reach cinit cstep s \<Longrightarrow> ainv (abs s)"
  by (intro abstract.reach_inv reach_abs)

end

end
