(* ===== verification/Consts.thy ===== *)
theory Consts
  imports Go_Prelude
begin

text \<open>
  The constants of \<open>consts.go\<close>: syscall numbers, feature and setup flags, SQE flags,
  opcodes, mmap offsets, queue flags, \<open>io_uring_enter\<close> flags and \<open>io_uring_register\<close>
  opcodes. The opcodes are an \<open>iota\<close> block of type \<open>Opcode\<close> (\<open>uint8\<close>).
\<close>

section \<open>System calls and feature flags\<close>

definition SetupSyscall :: u64 where "SetupSyscall = 425"
definition EnterSyscall :: u64 where "EnterSyscall = 426"
definition RegisterSyscall :: u64 where "RegisterSyscall = 427"

definition FeatSingleMmap :: u32 where "FeatSingleMmap = 1"
definition FeatNoDrop :: u32 where "FeatNoDrop = 2"
definition FeatSubmitStable :: u32 where "FeatSubmitStable = 4"
definition FeatRwCurPos :: u32 where "FeatRwCurPos = 8"
definition FeatCurPersonality :: u32 where "FeatCurPersonality = 16"

section \<open>SQE flags and setup flags\<close>

datatype sqe_bit =
  SqeFixedFileBit | SqeIoDrainBit | SqeIoLinkBit | SqeIoHardlinkBit | SqeAsyncBit
| SqeBufferSelectBit

primrec sqe_bit_iota :: "sqe_bit \<Rightarrow> nat" where
  "sqe_bit_iota SqeFixedFileBit = 0"
| "sqe_bit_iota SqeIoDrainBit = 1"
| "sqe_bit_iota SqeIoLinkBit = 2"
| "sqe_bit_iota SqeIoHardlinkBit = 3"
| "sqe_bit_iota SqeAsyncBit = 4"
| "sqe_bit_iota SqeBufferSelectBit = 5"

definition sqe_flag :: "sqe_bit \<Rightarrow> u8" where
  "sqe_flag b = push_bit (sqe_bit_iota b) 1"

definition SetupIOPoll :: u32 where "SetupIOPoll = 1"
definition SetupSQPoll :: u32 where "SetupSQPoll = 2"
definition SetupSQAFF :: u32 where "SetupSQAFF = 4"
definition SetupCqSize :: u32 where "SetupCqSize = 8"
definition SetupClamp :: u32 where "SetupClamp = 16"
definition SetupAttachWq :: u32 where "SetupAttachWq = 32"

section \<open>Opcodes\<close>

datatype Opcode =
  Nop | Readv | Writev | Fsync | ReadFixed | WriteFixed | PollAdd | PollRemove | SyncFileRange
| SendMsg | RecvMsg | Timeout | TimeoutRemove | Accept | AsyncCancel | LinkTimeout | Connect
| Fallocate | OpenAt | Close | FilesUpdate | Statx | Read | Write | Fadvise | Madvise | Send
| Recv | Openat2 | EpollCtl | Splice | ProvideBuffers | RemoveBuffers

definition opcode_block :: "Opcode list" where
  "opcode_block =
     [Nop, Readv, Writev, Fsync, ReadFixed, WriteFixed, PollAdd, PollRemove, SyncFileRange,
      SendMsg, RecvMsg, Timeout, TimeoutRemove, Accept, AsyncCancel, LinkTimeout, Connect,
      Fallocate, OpenAt, Close, FilesUpdate, Statx, Read, Write, Fadvise, Madvise, Send,
      Recv, Openat2, EpollCtl, Splice, ProvideBuffers, RemoveBuffers]"

text \<open>\<open>iota\<close>: the value of a constant is its position in its block.\<close>

fun iota_index :: "'a \<Rightarrow> 'a list \<Rightarrow> nat" where
  "iota_index x [] = 0"
| "iota_index x (y # ys) = (if x = y then 0 else Suc (iota_index x ys))"

definition opcode_iota :: "Opcode \<Rightarrow> u8" where
  "opcode_iota c = of_nat (iota_index c opcode_block)"

section \<open>Offsets, queue flags and register opcodes\<close>

definition FsyncDatasync :: u64 where "FsyncDatasync = 1"
definition SqRingOffset :: u64 where "SqRingOffset = 0"
definition CqRingOffset :: u64 where "CqRingOffset = 0x8000000"
definition SqeRingOffset :: u64 where "SqeRingOffset = 0x10000000"

definition SqNeedWakeup :: u32 where "SqNeedWakeup = 1"
definition SqCqOverflow :: u32 where "SqCqOverflow = 2"

definition EnterGetEvents :: u64 where "EnterGetEvents = 1"
definition EnterSqWakeup :: u64 where "EnterSqWakeup = 2"

definition RegRegisterBuffers :: u64 where "RegRegisterBuffers = 0"
definition RegUnregisterBuffers :: u64 where "RegUnregisterBuffers = 1"
definition RegRegisterFiles :: u64 where "RegRegisterFiles = 2"
definition RegUnregisterFiles :: u64 where "RegUnregisterFiles = 3"
definition RegRegisterEventFd :: u64 where "RegRegisterEventFd = 4"
definition RegUnregisterEventfd :: u64 where "RegUnregisterEventfd = 5"
definition RegRegisterFilesUpdate :: u64 where "RegRegisterFilesUpdate = 6"
definition RegRegisterEventFdAsync :: u64 where "RegRegisterEventFdAsync = 7"
definition RegRegisterProbe :: u64 where "RegRegisterProbe = 8"
definition RegRegisterPersonality :: u64 where "RegRegisterPersonality = 9"
definition RegUnregisterPersonality :: u64 where "RegUnregisterPersonality = 10"

section \<open>Facts on the constants\<close>

lemma iota_index_less: "x \<in> set ys \<Longrightarrow> iota_index x ys < length ys"
  by (induction ys) auto

lemma nth_iota_index: "x \<in> set ys \<Longrightarrow> ys ! iota_index x ys = x"
  by (induction ys) auto

lemma opcode_in_block: "c \<in> set opcode_block"
  by (cases c) (simp_all add: opcode_block_def)

lemma length_opcode_block: "length opcode_block = 33"
  by (simp add: opcode_block_def)

lemma unat_opcode_iota: "unat (opcode_iota c) = iota_index c opcode_block"
  using iota_index_less [OF opcode_in_block [of c]] length_opcode_block
  by (simp add: opcode_iota_def unat_of_nat)

lemma opcode_iota_inj: "opcode_iota c = opcode_iota d \<longleftrightarrow> c = d"
  by (metis nth_iota_index opcode_in_block unat_opcode_iota)

end
