(* ===== verification/Ring_Types.thy ===== *)
theory Ring_Types
  imports Consts
begin

text \<open>
  The data of \<open>types.go\<close> and its methods. A queue's pointers into the mapped memory
  (\<open>Head\<close>, \<open>Tail\<close>, \<open>Mask\<close>, ...) are represented by the words they point to; the
  mapped slices by lists. The methods here are the code run by one goroutine with nothing
  interleaved; the theory \<open>Sq_Protocol\<close> has the same methods action by action.
\<close>

section \<open>Parameters and offsets\<close>

record SQRingOffset =
  soHead :: u32
  soTail :: u32
  soRingMask :: u32
  soEntries :: u32
  soFlags :: u32
  soDropped :: u32
  soArray :: u32
  soResv1 :: u32
  soResv2 :: u64

record CQRingOffset =
  coHead :: u32
  coTail :: u32
  coRingMask :: u32
  coEntries :: u32
  coOverflow :: u32
  coCqes :: u32
  coFlags :: u32
  coResv :: "u64 list"

record Params =
  pSqEntries :: u32
  pCqEntries :: u32
  pFlags :: u32
  pSqThreadCPU :: u32
  pSqThreadIdle :: u32
  pFeatures :: u32
  pWqFD :: u32
  pResv :: "u32 list"
  pSqOffset :: SQRingOffset
  pCqOffset :: CQRingOffset

text \<open>The zero values, \<open>&Params{}\<close>.\<close>

definition zero_SQRingOffset :: SQRingOffset where
  "zero_SQRingOffset = \<lparr>soHead = 0, soTail = 0, soRingMask = 0, soEntries = 0, soFlags = 0,
     soDropped = 0, soArray = 0, soResv1 = 0, soResv2 = 0\<rparr>"

definition zero_CQRingOffset :: CQRingOffset where
  "zero_CQRingOffset = \<lparr>coHead = 0, coTail = 0, coRingMask = 0, coEntries = 0, coOverflow = 0,
     coCqes = 0, coFlags = 0, coResv = [0, 0]\<rparr>"

definition zero_Params :: Params where
  "zero_Params = \<lparr>pSqEntries = 0, pCqEntries = 0, pFlags = 0, pSqThreadCPU = 0,
     pSqThreadIdle = 0, pFeatures = 0, pWqFD = 0, pResv = [0, 0, 0],
     pSqOffset = zero_SQRingOffset, pCqOffset = zero_CQRingOffset\<rparr>"

section \<open>Submission queue entries\<close>

record SubmitEntry =
  sqeOpcode :: Opcode
  sqeFlags :: u8
  sqeIoprio :: u16
  sqeFd :: i32
  sqeOffset :: u64
  sqeAddr :: u64
  sqeLen :: u32
  sqeUFlags :: i32
  sqeUserData :: u64
  sqeAnon0 :: "u8 list"

definition SubmitEntry_Reset :: "SubmitEntry \<Rightarrow> SubmitEntry" where
  "SubmitEntry_Reset e = e\<lparr>sqeOpcode := Nop, sqeFlags := 0, sqeIoprio := 0, sqeFd := - 1,
     sqeOffset := 0, sqeAddr := 0, sqeLen := 0, sqeUFlags := 0, sqeUserData := 0\<rparr>"

section \<open>The submission queue\<close>

record SubmitQueue =
  sqSize :: u32
  sqHead :: u32
  sqTail :: u32
  sqMask :: u32
  sqFlags :: u32
  sqDropped :: u32
  sqArray :: "u32 list"
  sqEntries :: "SubmitEntry list"
  sqPtr :: u64
  sqEntered :: u32
  sqWrites :: u32

text \<open>
  \<open>for _, entry := range s.Entries\<close> binds a copy of each entry; \<open>entry.Reset()\<close>
  changes the copy.
\<close>

fun range_reset :: "SubmitEntry list \<Rightarrow> SubmitQueue \<Rightarrow> SubmitQueue" where
  "range_reset [] s = s"
| "range_reset (entry # rest) s =
     (let copy = SubmitEntry_Reset entry in range_reset rest s)"

definition SubmitQueue_Reset :: "SubmitQueue \<Rightarrow> SubmitQueue" where
  "SubmitQueue_Reset s = range_reset (sqEntries s) s"

definition NeedWakeup :: "SubmitQueue \<Rightarrow> bool" where
  "NeedWakeup s \<longleftrightarrow> sqFlags s AND SqNeedWakeup \<noteq> 0"

text \<open>The spin loop of \<open>enterLock\<close>; \<open>None\<close> is a loop that does not end.\<close>

partial_function (option) enterLock :: "SubmitQueue \<Rightarrow> SubmitQueue option" where
  "enterLock s =
     (if sqWrites s \<noteq> 0 \<and> sqEntered s = 1 then enterLock s
      else if sqEntered s = 0 then Some (s\<lparr>sqEntered := 1\<rparr>)
      else enterLock s)"

definition enterUnlock :: "SubmitQueue \<Rightarrow> SubmitQueue" where
  "enterUnlock s = s\<lparr>sqEntered := 0\<rparr>"

text \<open>\<open>completeWrite\<close>: with nothing interleaved its compare-and-swap succeeds at once.\<close>

definition completeWrite :: "SubmitQueue \<Rightarrow> unit go \<times> SubmitQueue" where
  "completeWrite s =
     (let writes = sqWrites s
      in if writes = 0 then (Panic (PanicMessage ''invalid number of sq write completions''), s)
         else (Ok (), s\<lparr>sqWrites := writes - 1\<rparr>))"

section \<open>The completion queue\<close>

definition CqSeenFlag :: u32 where "CqSeenFlag = 1"

record CompletionEntry =
  cqeUserData :: u64
  cqeRes :: i32
  cqeFlags :: u32

definition IsZero :: "CompletionEntry \<Rightarrow> bool" where
  "IsZero c \<longleftrightarrow> cqeUserData c = 0 \<and> cqeRes c = 0 \<and> cqeFlags c = 0"

record CompletionQueue =
  cqSize :: u32
  cqHead :: u32
  cqTail :: u32
  cqMask :: u32
  cqOverflow :: u32
  cqFlags :: u32
  cqEntries :: "CompletionEntry list"
  cqPtr :: u64

definition Advance :: "goint \<Rightarrow> CompletionQueue \<Rightarrow> CompletionQueue" where
  "Advance count c = c\<lparr>cqHead := cqHead c + ucast count\<rparr>"

record completionRequest =
  crId :: u64
  crRes :: i32
  crFlags :: u32

section \<open>Geometry of the rings\<close>

text \<open>
  The kernel creates both rings with a power of two entries and a mask of one less.
\<close>

definition sq_wf :: "nat \<Rightarrow> SubmitQueue \<Rightarrow> bool" where
  "sq_wf k s \<longleftrightarrow> k < 32 \<and> sqMask s = mask k \<and> length (sqEntries s) = 2 ^ k
     \<and> length (sqArray s) = 2 ^ k"

definition cq_wf :: "nat \<Rightarrow> CompletionQueue \<Rightarrow> bool" where
  "cq_wf k c \<longleftrightarrow> k < 32 \<and> cqMask c = mask k \<and> length (cqEntries c) = 2 ^ k"

text \<open>The interface the queue algorithms rely on: masking is reduction modulo the ring size.\<close>

locale ring_geometry =
  fixes wf :: "nat \<Rightarrow> 's \<Rightarrow> bool"
    and msk :: "'s \<Rightarrow> u32"
    and slots :: "'s \<Rightarrow> nat"
  assumes wf_width: "wf k s \<Longrightarrow> k < 32"
    and wf_mask: "wf k s \<Longrightarrow> msk s = mask k"
    and wf_slots: "wf k s \<Longrightarrow> slots s = 2 ^ k"
begin

lemma slots_pos: "wf k s \<Longrightarrow> 0 < slots s"
  by (simp add: wf_slots)

lemma slots_u32: "wf k s \<Longrightarrow> slots s < 2 ^ 32"
  using pow2_less_u32 wf_slots wf_width by metis

lemma unat_slot: "wf k s \<Longrightarrow> unat (x AND msk s) = unat x mod slots s"
  by (simp add: wf_mask wf_slots unat_and_mask)

lemma slot_less: "wf k s \<Longrightarrow> unat (x AND msk s) < slots s"
  by (simp add: unat_slot slots_pos)

lemma unat_slot_Suc: "wf k s \<Longrightarrow> unat ((x AND msk s) + 1) = unat x mod slots s + 1"
  using slot_less [of k s x] slots_u32 [of k s]
  by (simp add: unat_slot unat_Suc_u32)

lemma unat_slot_add:
  assumes "wf k s"
  shows "unat ((x + of_nat n) AND msk s) = (unat x + n) mod slots s"
proof -
  have dvd: "(2 :: nat) ^ k dvd 2 ^ 32"
    using wf_width [OF assms] by (intro le_imp_power_dvd) simp
  have "unat (x + of_nat n) = (unat x + n) mod 2 ^ 32"
    by (simp add: unat_word_ariths unat_of_nat mod_add_right_eq)
  then show ?thesis
    using dvd by (simp only: unat_slot [OF assms] wf_slots [OF assms] mod_mod_cancel)
qed

lemma slot_lap: "wf k s \<Longrightarrow> (x + of_nat (slots s)) AND msk s = x AND msk s"
  using unat_slot_add [of k s x "slots s"] by (simp only: word_unat_eq_iff unat_slot mod_add_self2)

lemma slot_Suc_le: "wf k s \<Longrightarrow> (x AND msk s) + 1 \<le> of_nat (slots s)"
  using slot_less [of k s x] slots_u32 [of k s]
  by (simp add: word_le_nat_alt unat_slot_Suc unat_slot)

end

interpretation sq_ring: ring_geometry sq_wf sqMask "\<lambda>s. length (sqEntries s)"
  by unfold_locales (auto simp: sq_wf_def)

interpretation cq_ring: ring_geometry cq_wf cqMask "\<lambda>c. length (cqEntries c)"
  by unfold_locales (auto simp: cq_wf_def)

section \<open>Facts on the methods\<close>

lemma enterLock_free: "sqEntered s = 0 \<Longrightarrow> enterLock s = Some (s\<lparr>sqEntered := 1\<rparr>)"
  by (simp add: enterLock.simps)

lemma enterLock_returns_free:
  assumes "enterLock s = Some t"
  shows "sqEntered s = 0"
proof (rule enterLock.raw_induct [where P = "\<lambda>s t. sqEntered s = 0", OF _ assms])
  fix f s t
  assume IH: "\<And>s t. f s = Some t \<Longrightarrow> sqEntered s = 0"
    and "(if sqWrites s \<noteq> 0 \<and> sqEntered s = 1 then f s
          else if sqEntered s = 0 then Some (s\<lparr>sqEntered := 1\<rparr>) else f s) = Some t"
  then show "sqEntered s = 0"
    by (auto split: if_splits)
qed

lemma enterLock_held: "sqEntered s \<noteq> 0 \<Longrightarrow> enterLock s = None"
  using enterLock_returns_free by (metis not_None_eq)

lemma range_reset_id: "range_reset es s = s"
  by (induction es) (simp_all add: Let_def)

end
