(* ===== verification/Uring_Setup.thy ===== *)
theory Uring_Setup
  imports Ring_Types
begin

text \<open>
  The system call wrappers of \<open>uring_setup.go\<close> and \<open>uring_enter.go\<close>. The kernel is a
  parameter: a function from the trap number and the arguments of \<open>syscall.Syscall6\<close> to the
  result register and the error number, which is a \<open>syscall.Errno\<close>, an unsigned word.
  \<open>MmapRing\<close> computes addresses and slice headers; they are kept in layout records.
\<close>

section \<open>Sizes\<close>

text \<open>\<open>unsafe.Sizeof\<close> of a struct: every field, given by size and alignment, is placed at
  the next multiple of its alignment, and the struct is padded to its largest alignment.\<close>

definition align_up :: "nat \<Rightarrow> nat \<Rightarrow> nat" where
  "align_up n a = (n + a - 1) div a * a"

definition struct_size :: "(nat \<times> nat) list \<Rightarrow> nat" where
  "struct_size fs =
     align_up (foldl (\<lambda>off (size, a). align_up off a + size) 0 fs) (foldl max 1 (map snd fs))"

definition uint32Size :: nat where "uint32Size = 4"

definition cqeSize :: nat where
  "cqeSize = struct_size [(8, 8), (4, 4), (4, 4)]"

definition sqeSize :: nat where
  "sqeSize = struct_size
     [(1, 1), (1, 1), (2, 2), (4, 4), (8, 8), (8, 8), (4, 4), (4, 4), (8, 8), (24, 1)]"

lemma cqeSize_16: "cqeSize = 16"
  by (simp add: cqeSize_def struct_size_def align_up_def)

lemma sqeSize_64: "sqeSize = 64"
  by (simp add: sqeSize_def struct_size_def align_up_def)

section \<open>System calls\<close>

type_synonym syscall6 =
  "u64 \<Rightarrow> u64 \<Rightarrow> u64 \<Rightarrow> u64 \<Rightarrow> u64 \<Rightarrow> u64 \<Rightarrow> u64 \<Rightarrow> u64 \<times> u64"

definition SYS_MMAP :: u64 where "SYS_MMAP = 9"
definition SYS_MUNMAP :: u64 where "SYS_MUNMAP = 11"
definition PROT_READ :: u64 where "PROT_READ = 1"
definition PROT_WRITE :: u64 where "PROT_WRITE = 2"
definition MAP_SHARED :: u64 where "MAP_SHARED = 1"
definition MAP_POPULATE :: u64 where "MAP_POPULATE = 0x8000"

text \<open>\<open>io_uring_setup\<close> fills in the parameters it is given.\<close>

type_synonym setup_call = "u64 \<Rightarrow> u64 \<Rightarrow> Params \<Rightarrow> Params \<times> u64 \<times> u64"

definition Setup :: "setup_call \<Rightarrow> u64 \<Rightarrow> Params \<Rightarrow> goint go \<times> Params" where
  "Setup sys entries params =
     (let (params, fd, errno) = sys SetupSyscall entries params
      in if errno \<noteq> 0 then (Err (Errno errno), params) else (Ok fd, params))"

text \<open>What \<open>Enter\<close> makes of the result register and the error number.\<close>

definition Enter_result :: "u64 \<Rightarrow> u64 \<Rightarrow> goint go" where
  "Enter_result res errno =
     (if errno \<noteq> 0 then Err (Errno errno)
      else if res < 0 then Err (Errno (- res))
      else Ok res)"

text \<open>\<open>io_uring_enter\<close> works on the shared memory, the state \<open>'w\<close>.\<close>

type_synonym 'w kernel6 =
  "u64 \<Rightarrow> u64 \<Rightarrow> u64 \<Rightarrow> u64 \<Rightarrow> u64 \<Rightarrow> u64 \<Rightarrow> u64 \<Rightarrow> 'w \<Rightarrow> 'w \<times> u64 \<times> u64"

definition Enter ::
  "'w kernel6 \<Rightarrow> goint \<Rightarrow> u64 \<Rightarrow> u64 \<Rightarrow> u64 \<Rightarrow> u64 \<Rightarrow> 'w \<Rightarrow> goint go \<times> 'w" where
  "Enter sys fd toSubmit minComplete flags sigset w =
     (let (w, res, errno) = sys EnterSyscall fd toSubmit minComplete flags sigset 0 w
      in (Enter_result res errno, w))"

section \<open>Mapping the rings\<close>

record SliceHeader =
  shData :: u64
  shLen :: goint
  shCap :: goint

record SqLayout =
  lsSize :: u32
  lsPtr :: u64
  lsHead :: u64
  lsTail :: u64
  lsMask :: u64
  lsFlags :: u64
  lsDropped :: u64
  lsEntries :: SliceHeader
  lsArray :: SliceHeader

record CqLayout =
  lcSize :: u32
  lcPtr :: u64
  lcHead :: u64
  lcTail :: u64
  lcMask :: u64
  lcOverflow :: u64
  lcFlags :: u64
  lcEntries :: SliceHeader

definition mmap_shared :: "syscall6 \<Rightarrow> u64 \<Rightarrow> goint \<Rightarrow> u64 \<Rightarrow> u64 \<times> u64" where
  "mmap_shared sys len fd offset =
     sys SYS_MMAP 0 len (PROT_READ OR PROT_WRITE) (MAP_SHARED OR MAP_POPULATE) fd offset"

definition singleMmap :: "Params \<Rightarrow> bool" where
  "singleMmap p \<longleftrightarrow> pFlags p AND FeatSingleMmap \<noteq> 0"

definition sq_ring_size :: "Params \<Rightarrow> u32" where
  "sq_ring_size p =
     ucast (ucast (soArray (pSqOffset p)) + ucast (pSqEntries p) * of_nat uint32Size :: u64)"

definition cq_ring_size :: "Params \<Rightarrow> u32" where
  "cq_ring_size p =
     ucast (ucast (coCqes (pCqOffset p)) + ucast (pCqEntries p) * of_nat cqeSize :: u64)"

definition ring_sizes :: "Params \<Rightarrow> u32 \<times> u32" where
  "ring_sizes p =
     (let sq = sq_ring_size p; cq = cq_ring_size p
      in if singleMmap p then (if sq < cq then (cq, cq) else (sq, sq)) else (sq, cq))"

text \<open>
  \<open>MmapRing\<close> step by step. The comparison \<open>errno < 0\<close> after the second and the third
  mapping is on the unsigned \<open>syscall.Errno\<close>.
\<close>

definition MmapRing ::
  "syscall6 \<Rightarrow> goint \<Rightarrow> Params \<Rightarrow> SqLayout \<Rightarrow> CqLayout \<Rightarrow> unit go \<times> SqLayout \<times> CqLayout" where
  "MmapRing sys fd p sq cq =
     (let (sqs, cqs) = ring_sizes p;
          so = pSqOffset p; co = pCqOffset p;
          sq = sq\<lparr>lsSize := sqs\<rparr>; cq = cq\<lparr>lcSize := cqs\<rparr>;
          (sqPtr, errno) = mmap_shared sys (ucast sqs) fd SqRingOffset
      in if errno \<noteq> 0 then (Err (Wrapped (Errno errno) ''failed to mmap sq ring''), sq, cq)
         else
           let sq = sq\<lparr>lsPtr := sqPtr,
                 lsHead := sqPtr + ucast (soHead so), lsTail := sqPtr + ucast (soTail so),
                 lsMask := sqPtr + ucast (soRingMask so), lsFlags := sqPtr + ucast (soFlags so),
                 lsDropped := sqPtr + ucast (soDropped so)\<rparr>;
               (sqePtr, errno) =
                 mmap_shared sys (ucast (pSqEntries p) * of_nat sqeSize) fd SqeRingOffset
           in if errno < 0 then (Err (Errno (- errno)), sq, cq)
              else
                let sq = sq\<lparr>
                      lsEntries := \<lparr>shData = sqePtr, shLen = ucast (pSqEntries p),
                                    shCap = ucast (pSqEntries p)\<rparr>,
                      lsArray := \<lparr>shData = sqPtr + ucast (soArray so),
                                  shLen = ucast (pSqEntries p), shCap = ucast (pSqEntries p)\<rparr>\<rparr>;
                    (cqPtr, errno) =
                      (if singleMmap p then (sqPtr, errno)
                       else mmap_shared sys (ucast cqs) fd CqRingOffset)
                in if \<not> singleMmap p \<and> errno < 0 then (Err (Errno (- errno)), sq, cq)
                   else (Ok (), sq, cq\<lparr>
                      lcHead := cqPtr + ucast (coHead co), lcTail := cqPtr + ucast (coTail co),
                      lcMask := cqPtr + ucast (coRingMask co),
                      lcOverflow := cqPtr + ucast (coOverflow co),
                      lcFlags := cqPtr + ucast (coFlags co),
                      lcEntries := \<lparr>shData = cqPtr + ucast (coCqes co),
                                    shLen = ucast (pCqEntries p),
                                    shCap = ucast (pCqEntries p)\<rparr>\<rparr>))"


section \<open>Facts on the sizes\<close>

lemma unat_ring_size:
  assumes "unat (off :: u32) + unat (n :: u32) * w < 2 ^ 32" and "w < 2 ^ 32"
  shows "unat (ucast (ucast off + ucast n * of_nat w :: u64) :: u32) = unat off + unat n * w"
proof -
  have "unat (ucast off + ucast n * of_nat w :: u64) = unat off + unat n * w"
    using assms by (simp add: unat_word_ariths unat_of_nat)
  then show ?thesis
    using assms by (simp add: unat_ucast_u64_u32)
qed

definition sizes_fit :: "Params \<Rightarrow> bool" where
  "sizes_fit p \<longleftrightarrow> unat (soArray (pSqOffset p)) + unat (pSqEntries p) * 4 < 2 ^ 32
     \<and> unat (coCqes (pCqOffset p)) + unat (pCqEntries p) * 16 < 2 ^ 32"

lemma ring_sizes_cover:
  assumes "sizes_fit p"
  shows "unat (soArray (pSqOffset p)) + unat (pSqEntries p) * 4 \<le> unat (fst (ring_sizes p))"
    and "unat (coCqes (pCqOffset p)) + unat (pCqEntries p) * 16 \<le> unat (snd (ring_sizes p))"
proof -
  have "unat (sq_ring_size p) = unat (soArray (pSqOffset p)) + unat (pSqEntries p) * 4"
    and "unat (cq_ring_size p) = unat (coCqes (pCqOffset p)) + unat (pCqEntries p) * 16"
    using assms unat_ring_size [of "soArray (pSqOffset p)" "pSqEntries p" 4]
      unat_ring_size [of "coCqes (pCqOffset p)" "pCqEntries p" 16]
    by (simp_all add: sizes_fit_def sq_ring_size_def cq_ring_size_def uint32Size_def cqeSize_16)
  then show "unat (soArray (pSqOffset p)) + unat (pSqEntries p) * 4 \<le> unat (fst (ring_sizes p))"
    and "unat (coCqes (pCqOffset p)) + unat (pCqEntries p) * 16 \<le> unat (snd (ring_sizes p))"
    by (auto simp: ring_sizes_def Let_def word_less_nat_alt)
qed

lemma unat_base_plus:
  assumes "unat (base :: u64) + n \<le> 2 ^ 64" and "unat (off :: u32) < n"
  shows "unat (base + ucast off) = unat base + unat off"
  using assms by (simp add: unat_word_ariths)

text \<open>Where the completion ring is mapped.\<close>

definition cq_base :: "syscall6 \<Rightarrow> goint \<Rightarrow> Params \<Rightarrow> u64" where
  "cq_base sys fd p =
     (if singleMmap p then fst (mmap_shared sys (ucast (fst (ring_sizes p))) fd SqRingOffset)
      else fst (mmap_shared sys (ucast (snd (ring_sizes p))) fd CqRingOffset))"

text \<open>A slice of elements of \<open>w\<close> bytes lies in the mapping of \<open>n\<close> bytes at \<open>base\<close>.\<close>

definition slice_within :: "SliceHeader \<Rightarrow> nat \<Rightarrow> u64 \<Rightarrow> nat \<Rightarrow> bool" where
  "slice_within sh w base n \<longleftrightarrow> shLen sh = shCap sh \<and> unat base \<le> unat (shData sh)
     \<and> unat (shData sh) + w * unat (shLen sh) \<le> unat base + n"

lemma slice_withinI:
  assumes "unat base + n \<le> 2 ^ 64" and "unat (off :: u32) + unat (cnt :: u32) * w \<le> n"
    and "0 < unat cnt * w"
  shows "slice_within \<lparr>shData = base + ucast off, shLen = ucast cnt, shCap = ucast cnt\<rparr> w base n"
proof -
  have "unat off < n"
    using assms(2,3) by linarith
  from unat_base_plus [OF assms(1) this] assms(2) show ?thesis
    by (simp add: slice_within_def mult.commute)
qed

lemma MmapRing_Ok:
  assumes "MmapRing sys fd p sq cq = (Ok (), sq', cq')"
  shows "lsSize sq' = fst (ring_sizes p)" and "lcSize cq' = snd (ring_sizes p)"
    and "lsPtr sq' = fst (mmap_shared sys (ucast (fst (ring_sizes p))) fd SqRingOffset)"
    and "lsArray sq' = \<lparr>shData = lsPtr sq' + ucast (soArray (pSqOffset p)),
           shLen = ucast (pSqEntries p), shCap = ucast (pSqEntries p)\<rparr>"
    and "lsEntries sq' = \<lparr>shData = fst (mmap_shared sys (ucast (pSqEntries p) * of_nat sqeSize) fd SqeRingOffset),
           shLen = ucast (pSqEntries p), shCap = ucast (pSqEntries p)\<rparr>"
    and "lcEntries cq' = \<lparr>shData = cq_base sys fd p + ucast (coCqes (pCqOffset p)),
           shLen = ucast (pCqEntries p), shCap = ucast (pCqEntries p)\<rparr>"
    and "lcPtr cq' = lcPtr cq"
  using assms
  by (auto simp: MmapRing_def cq_base_def Let_def split: prod.splits if_splits)

lemma MmapRing_Ok_iff:
  "(\<exists>sq' cq'. MmapRing sys fd p sq cq = (Ok (), sq', cq')) \<longleftrightarrow>
     snd (mmap_shared sys (ucast (fst (ring_sizes p))) fd SqRingOffset) = 0"
  by (simp add: MmapRing_def Let_def split: prod.splits)

section \<open>Properties\<close>


text \<open>A kernel that maps every region at a fixed distance from its offset, and the parameters of a
  ring of eight entries.\<close>

definition sample_mmap :: syscall6 where
  "sample_mmap trap a1 len prot flags fd offset = (0x7f0000000000 + offset, 0)"

definition sample_params :: Params where
  "sample_params = zero_Params\<lparr>pSqEntries := 8, pCqEntries := 16,
     pSqOffset := zero_SQRingOffset\<lparr>soTail := 64, soRingMask := 256, soEntries := 264,
       soFlags := 276, soDropped := 272, soArray := 576\<rparr>,
     pCqOffset := zero_CQRingOffset\<lparr>coHead := 128, coTail := 192, coRingMask := 260,
       coEntries := 268, coOverflow := 284, coCqes := 320, coFlags := 280\<rparr>\<rparr>"

definition zero_slice_header :: SliceHeader where
  "zero_slice_header = \<lparr>shData = 0, shLen = 0, shCap = 0\<rparr>"

definition zero_SqLayout :: SqLayout where
  "zero_SqLayout = \<lparr>lsSize = 0, lsPtr = 0, lsHead = 0, lsTail = 0, lsMask = 0, lsFlags = 0,
     lsDropped = 0, lsEntries = zero_slice_header, lsArray = zero_slice_header\<rparr>"

definition zero_CqLayout :: CqLayout where
  "zero_CqLayout = \<lparr>lcSize = 0, lcPtr = 0, lcHead = 0, lcTail = 0, lcMask = 0, lcOverflow = 0,
     lcFlags = 0, lcEntries = zero_slice_header\<rparr>"

lemmas sample_params_simps =
  sample_params_def zero_Params_def zero_SQRingOffset_def zero_CQRingOffset_def


text \<open>
  \<open>MmapRing\<close> reports a failed mapping of the submission ring and nothing else: since
  \<open>syscall.Errno\<close> is unsigned, the tests \<open>errno < 0\<close> after the mappings of the entries
  and of the completion ring never hold, and it succeeds whatever these two calls return.
\<close>

theorem MmapRing_only_first_error:
  "fst (MmapRing sys fd p sq cq) =
     (let errno = snd (mmap_shared sys (ucast (fst (ring_sizes p))) fd SqRingOffset)
      in if errno \<noteq> 0 then Err (Wrapped (Errno errno) ''failed to mmap sq ring'') else Ok ())"
  by (simp add: MmapRing_def Let_def split: prod.splits)

text \<open>
  Whether one mapping serves both rings is decided by bit 0 of the setup flags, which is
  the flag for polled I/O; the features the kernel reported, where the single mapping bit is,
  play no part in what \<open>MmapRing\<close> does.
\<close>

theorem MmapRing_ignores_features:
  "(singleMmap p \<longleftrightarrow> pFlags p AND SetupIOPoll \<noteq> 0)
   \<and> MmapRing sys fd (p\<lparr>pFeatures := f\<rparr>) sq cq = MmapRing sys fd p sq cq"
proof -
  have "singleMmap (p\<lparr>pFeatures := f\<rparr>) = singleMmap p" "ring_sizes (p\<lparr>pFeatures := f\<rparr>) = ring_sizes p"
    by (simp_all add: singleMmap_def ring_sizes_def sq_ring_size_def cq_ring_size_def Let_def)
  then have "MmapRing sys fd (p\<lparr>pFeatures := f\<rparr>) sq cq = MmapRing sys fd p sq cq"
    by (simp add: MmapRing_def Let_def split: prod.split)
  then show ?thesis
    by (simp add: singleMmap_def FeatSingleMmap_def SetupIOPoll_def)
qed

end
