(* ===== verification/Register.thy ===== *)
theory Register
  imports Uring_Setup
begin

text \<open>
  \<open>register.go\<close>: the \<open>io_uring_register\<close> calls and the file registry. The kernel is a
  parameter with a state \<open>'w\<close>. A registry's methods run under its mutex, so each is one
  step; a panic keeps what was changed before it.
\<close>

section \<open>Register calls\<close>

text \<open>All calls share their treatment of the error number: an unsigned \<open>errno < 0\<close>.\<close>

definition register_result :: "u64 \<Rightarrow> unit go" where
  "register_result errno = (if errno < 0 then Err (Errno errno) else Ok ())"

definition register_call ::
  "'w kernel6 \<Rightarrow> goint \<Rightarrow> u64 \<Rightarrow> u64 \<Rightarrow> u64 \<Rightarrow> 'w \<Rightarrow> unit go \<times> 'w" where
  "register_call sys ringFd opcode arg nr w =
     (let (w, res, errno) = sys RegisterSyscall ringFd opcode arg nr 0 0 w
      in (register_result errno, w))"

definition RegisterEventFd :: "'w kernel6 \<Rightarrow> goint \<Rightarrow> goint \<Rightarrow> 'w \<Rightarrow> unit go \<times> 'w" where
  "RegisterEventFd sys ringFd fd = register_call sys ringFd RegRegisterEventFd fd 1"

definition RegisterEventFdAsync :: "'w kernel6 \<Rightarrow> goint \<Rightarrow> goint \<Rightarrow> 'w \<Rightarrow> unit go \<times> 'w" where
  "RegisterEventFdAsync sys ringFd fd = register_call sys ringFd RegRegisterEventFdAsync fd 1"

definition UnregisterEventFd :: "'w kernel6 \<Rightarrow> goint \<Rightarrow> goint \<Rightarrow> 'w \<Rightarrow> unit go \<times> 'w" where
  "UnregisterEventFd sys ringFd fd = register_call sys ringFd RegRegisterEventFd 0 0"

text \<open>A call that passes a slice takes the address of its first element.\<close>

definition register_slice ::
  "'w kernel6 \<Rightarrow> goint \<Rightarrow> u64 \<Rightarrow> slice \<Rightarrow> 'w \<Rightarrow> unit go \<times> 'w" where
  "register_slice sys fd opcode vecs w =
     (case firstAddr vecs of
        Ok a \<Rightarrow> register_call sys fd opcode a (of_nat (sliceLen vecs)) w
      | Err e \<Rightarrow> (Err e, w)
      | Panic p \<Rightarrow> (Panic p, w))"

definition RegisterBuffers :: "'w kernel6 \<Rightarrow> goint \<Rightarrow> slice \<Rightarrow> 'w \<Rightarrow> unit go \<times> 'w" where
  "RegisterBuffers sys fd vecs = register_slice sys fd RegRegisterBuffers vecs"

definition UnregisterBuffers :: "'w kernel6 \<Rightarrow> goint \<Rightarrow> slice \<Rightarrow> 'w \<Rightarrow> unit go \<times> 'w" where
  "UnregisterBuffers sys fd vecs = register_slice sys fd RegUnregisterBuffers vecs"

definition RegisterFiles :: "'w kernel6 \<Rightarrow> goint \<Rightarrow> slice \<Rightarrow> 'w \<Rightarrow> unit go \<times> 'w" where
  "RegisterFiles sys fd files = register_slice sys fd RegRegisterFiles files"

definition UnregisterFiles :: "'w kernel6 \<Rightarrow> goint \<Rightarrow> slice \<Rightarrow> 'w \<Rightarrow> unit go \<times> 'w" where
  "UnregisterFiles sys fd files = register_slice sys fd RegUnregisterFiles files"

definition ReregisterFiles :: "'w kernel6 \<Rightarrow> goint \<Rightarrow> slice \<Rightarrow> 'w \<Rightarrow> unit go \<times> 'w" where
  "ReregisterFiles sys fd files = register_slice sys fd RegRegisterFilesUpdate files"

section \<open>The file registry\<close>

record fileRegistry =
  frRingFd :: goint
  frF :: "goint list"
  frFID :: "(goint, int) fmap"

definition NewFileRegistry :: "goint \<Rightarrow> fileRegistry" where
  "NewFileRegistry ringFd = \<lparr>frRingFd = ringFd, frF = [], frFID = fmempty\<rparr>"

text \<open>The header of the slice \<open>r.f\<close>; where its array lives is the parameter \<open>addr\<close>.\<close>

definition files_slice :: "(goint list \<Rightarrow> u64) \<Rightarrow> goint list \<Rightarrow> slice" where
  "files_slice addr f = \<lparr>sliceData = addr f, sliceLen = length f\<rparr>"

definition registry_Register ::
  "'w kernel6 \<Rightarrow> (goint list \<Rightarrow> u64) \<Rightarrow> goint \<Rightarrow> fileRegistry \<Rightarrow> 'w \<Rightarrow> unit go \<times> fileRegistry \<times> 'w" where
  "registry_Register sys addr fd r w =
     (let r = r\<lparr>frF := frF r @ [fd]\<rparr>;
          i = int (length (frF r)) - 1;
          r = r\<lparr>frFID := fmupd fd i (frFID r)\<rparr>;
          r = (if i < 0 then r\<lparr>frFID := fmupd fd 0 (frFID r)\<rparr> else r);
          (res, w) = ReregisterFiles sys (frRingFd r) (files_slice addr (frF r)) w
      in (res, r, w))"

text \<open>\<open>append(f[:id], f[id+1:]...)\<close>; a bound outside the slice panics.\<close>

definition cut_at :: "goint list \<Rightarrow> int \<Rightarrow> goint list go" where
  "cut_at f i =
     (if 0 \<le> i \<and> nat i + 1 \<le> length f then Ok (take (nat i) f @ drop (nat i + 1) f)
      else Panic SliceBoundsOutOfRange)"

definition registry_Unregister ::
  "'w kernel6 \<Rightarrow> (goint list \<Rightarrow> u64) \<Rightarrow> goint \<Rightarrow> fileRegistry \<Rightarrow> 'w \<Rightarrow> unit go \<times> fileRegistry \<times> 'w" where
  "registry_Unregister sys addr fd r w =
     (case fmlookup (frFID r) fd of
        None \<Rightarrow> (Err (Errorf ''fd %d not registered'' [fd]), r, w)
      | Some i \<Rightarrow>
          (case cut_at (frF r) i of
             Ok f \<Rightarrow>
               (let r = r\<lparr>frF := f\<rparr>;
                    (res, w) = UnregisterFiles sys (frRingFd r) (files_slice addr (frF r)) w
                in (res, r, w))
           | Err e \<Rightarrow> (Err e, r, w)
           | Panic p \<Rightarrow> (Panic p, r, w)))"

definition registry_ID :: "goint \<Rightarrow> fileRegistry \<Rightarrow> int \<times> bool" where
  "registry_ID fd r =
     (case fmlookup (frFID r) fd of None \<Rightarrow> (0, False) | Some i \<Rightarrow> (i, True))"

section \<open>The contract of a file registry\<close>

text \<open>
  The interface \<open>FileRegistry\<close> as its clients use it to register: an identifier is the
  position of the descriptor in the table that was handed to the kernel.
\<close>

locale file_registry =
  fixes new :: 'r
    and register :: "goint \<Rightarrow> 'r \<Rightarrow> 'r"
    and ident :: "goint \<Rightarrow> 'r \<Rightarrow> int \<times> bool"
    and table :: "'r \<Rightarrow> goint list"
    and inv :: "'r \<Rightarrow> bool"
  assumes inv_new: "inv new"
    and table_new: "table new = []"
    and inv_register: "inv r \<Longrightarrow> inv (register fd r)"
    and table_register: "inv r \<Longrightarrow> table (register fd r) = table r @ [fd]"
    and ident_valid: "inv r \<Longrightarrow> ident fd r = (i, True) \<Longrightarrow>
      0 \<le> i \<and> nat i < length (table r) \<and> table r ! nat i = fd"
    and ident_total: "inv r \<Longrightarrow> snd (ident fd r) \<longleftrightarrow> fd \<in> set (table r)"
begin

lemma inv_register_all: "inv r \<Longrightarrow> inv (fold register fds r)"
  by (induction fds arbitrary: r) (auto intro: inv_register)

lemma table_register_all: "inv r \<Longrightarrow> table (fold register fds r) = table r @ fds"
  by (induction fds arbitrary: r) (auto simp: inv_register table_register)

lemma ident_register_all:
  assumes "fd \<in> set fds"
  shows "\<exists>i. ident fd (fold register fds new) = (i, True) \<and> 0 \<le> i \<and> nat i < length fds \<and> fds ! nat i = fd"
proof -
  let ?r = "fold register fds new"
  have inv: "inv ?r" and tab: "table ?r = fds"
    using inv_register_all [OF inv_new] table_register_all [OF inv_new] by (simp_all add: table_new)
  then obtain i where i: "ident fd ?r = (i, True)"
    using ident_total [OF inv, of fd] assms by (cases "ident fd ?r") auto
  then show ?thesis
    using ident_valid [OF inv i] tab by auto
qed

end

definition registry_inv :: "fileRegistry \<Rightarrow> bool" where
  "registry_inv r \<longleftrightarrow> (\<forall>fd i. fmlookup (frFID r) fd = Some i \<longrightarrow>
       0 \<le> i \<and> nat i < length (frF r) \<and> frF r ! nat i = fd)
     \<and> (\<forall>fd \<in> set (frF r). fmlookup (frFID r) fd \<noteq> None)"

definition register_state ::
  "'w kernel6 \<Rightarrow> (goint list \<Rightarrow> u64) \<Rightarrow> 'w \<Rightarrow> goint \<Rightarrow> fileRegistry \<Rightarrow> fileRegistry" where
  "register_state sys addr w fd r = fst (snd (registry_Register sys addr fd r w))"

lemma register_state_eq:
  "register_state sys addr w fd r =
     r\<lparr>frF := frF r @ [fd], frFID := fmupd fd (int (length (frF r))) (frFID r)\<rparr>"
  by (simp add: register_state_def registry_Register_def Let_def split: prod.splits)

interpretation registry: file_registry "NewFileRegistry ringFd" "register_state sys addr w"
  registry_ID frF registry_inv for ringFd sys addr w
proof
  fix r :: fileRegistry and fd :: goint
  assume "registry_inv r"
  then show "registry_inv (register_state sys addr w fd r)"
    by (fastforce simp: registry_inv_def register_state_eq nth_append split: if_splits)
next
  fix r :: fileRegistry and fd :: goint
  assume "registry_inv r"
  then show "snd (registry_ID fd r) \<longleftrightarrow> fd \<in> set (frF r)"
    using nth_mem by (fastforce simp: registry_inv_def registry_ID_def split: option.splits)
qed (auto simp: registry_inv_def NewFileRegistry_def register_state_eq registry_ID_def
    split: option.splits)


section \<open>Properties\<close>

text \<open>
  C32: After any sequence of \<open>Register\<close> calls on a new registry, \<open>ID\<close> finds every
  registered descriptor, at a position of the table passed to the kernel that holds it.
\<close>

theorem registered_ID:
  assumes "fd \<in> set fds"
  shows "\<exists>i. registry_ID fd (fold (register_state sys addr w) fds (NewFileRegistry ringFd)) = (i, True)
    \<and> 0 \<le> i \<and> nat i < length fds \<and> fds ! nat i = fd"
  using assms by (rule registry.ident_register_all)

theorem registered_ID_witness:
  "\<exists>i. registry_ID 4 (fold (register_state (\<lambda>_ _ _ _ _ _ _ w. (w, 0, 0)) (\<lambda>_. 64) ()) [3, 4, 9]
         (NewFileRegistry 7)) = (i, True) \<and> 0 \<le> i \<and> nat i < length [3, 4, 9 :: goint]
     \<and> [3, 4, 9 :: goint] ! nat i = 4"
  by (rule registered_ID) simp

text \<open>
  \<open>Unregister\<close> takes the descriptor's position out of the table but leaves the map of
  identifiers as it was: the descriptor still has an identifier afterwards, and so do all the
  descriptors behind it, whose positions have shifted.
\<close>

theorem Unregister_keeps_identifiers:
  "registry_ID g (fst (snd (registry_Unregister sys addr fd r w))) = registry_ID g r"
  by (simp add: registry_Unregister_def registry_ID_def Let_def split: option.splits go.splits prod.splits)

text \<open>
  Unregistering the only registered descriptor panics: the table is empty when its first
  element's address is taken for the system call.
\<close>

theorem Unregister_only_file_panics:
  "fst (registry_Unregister sys addr fd (register_state sys' addr' w' fd (NewFileRegistry ringFd)) w)
     = Panic IndexOutOfRange"
  by (simp add: registry_Unregister_def register_state_eq NewFileRegistry_def cut_at_def
      UnregisterFiles_def register_slice_def files_slice_def firstAddr_def Let_def)

text \<open>
  No error of \<open>io_uring_register\<close> is ever reported: \<open>syscall.Errno\<close> is unsigned, so
  the test \<open>errno < 0\<close> fails for every error number and the calls on descriptors and on
  non-empty slices succeed whatever the kernel answers.
\<close>

theorem register_calls_never_fail:
  "fst (RegisterEventFd sys ringFd fd w) = Ok ()
   \<and> fst (RegisterEventFdAsync sys ringFd fd w) = Ok ()
   \<and> fst (UnregisterEventFd sys ringFd fd w) = Ok ()
   \<and> fst (RegisterBuffers sys ringFd (b\<lparr>sliceLen := Suc n\<rparr>) w) = Ok ()
   \<and> fst (UnregisterBuffers sys ringFd (b\<lparr>sliceLen := Suc n\<rparr>) w) = Ok ()
   \<and> fst (RegisterFiles sys ringFd (b\<lparr>sliceLen := Suc n\<rparr>) w) = Ok ()
   \<and> fst (UnregisterFiles sys ringFd (b\<lparr>sliceLen := Suc n\<rparr>) w) = Ok ()
   \<and> fst (ReregisterFiles sys ringFd (b\<lparr>sliceLen := Suc n\<rparr>) w) = Ok ()"
  by (auto simp: RegisterEventFd_def RegisterEventFdAsync_def UnregisterEventFd_def
      RegisterBuffers_def UnregisterBuffers_def RegisterFiles_def UnregisterFiles_def
      ReregisterFiles_def register_slice_def firstAddr_def register_call_def register_result_def
      Let_def split: prod.splits)

text \<open>
  \<open>UnregisterEventFd\<close> asks the kernel to register: it is the call with the opcode of
  \<open>RegisterEventFd\<close>, not the one for removing an event descriptor.
\<close>

theorem UnregisterEventFd_registers:
  "snd (UnregisterEventFd sys ringFd fd w) =
     fst (sys RegisterSyscall ringFd RegRegisterEventFd 0 0 0 0 w)
   \<and> RegRegisterEventFd \<noteq> RegUnregisterEventfd"
  by (simp add: UnregisterEventFd_def register_call_def RegRegisterEventFd_def
      RegUnregisterEventfd_def split: prod.splits)

end
