(* ===== verification/Completer.thy ===== *)
theory Completer
  imports Ring_Types "HOL-Library.FSet"
begin

text \<open>
  \<open>completer.go\<close>: the goroutine that moves the head of the completion queue. Readers send
  it the slot numbers they have consumed, in any order; it keeps the slots that are not yet
  contiguous with the head and moves the head over those that are. Slot numbers and counts are
  at most \<open>2 ^ 32\<close>, so Go's 64-bit \<open>int\<close> is \<open>int\<close> here.
\<close>

section \<open>State and operations\<close>

record completer =
  cpStopCh :: nat
  cpSeen :: "int list"
  cpBufSize :: nat

definition newCompleter :: "nat \<Rightarrow> completer" where
  "newCompleter bufSize = \<lparr>cpStopCh = 0, cpSeen = [], cpBufSize = bufSize\<rparr>"

text \<open>A send on a buffered channel; \<open>None\<close> when the buffer is full and the sender blocks.\<close>

definition completer_complete :: "int \<Rightarrow> completer \<Rightarrow> completer option" where
  "completer_complete i c =
     (if length (cpSeen c) < cpBufSize c then Some (c\<lparr>cpSeen := cpSeen c @ [i]\<rparr>) else None)"

definition completer_stop :: "completer \<Rightarrow> completer option" where
  "completer_stop c = (if cpStopCh c < 8 then Some (c\<lparr>cpStopCh := Suc (cpStopCh c)\<rparr>) else None)"

text \<open>The inner loop of \<open>run\<close>: while the next slot is acknowledged, forget it and count.\<close>

function drain :: "int fset \<Rightarrow> int \<Rightarrow> int \<Rightarrow> int fset \<times> int" where
  "drain unacked curHead seen =
     (if curHead + seen |\<in>| unacked
      then drain (unacked |-| {|curHead + seen|}) curHead (seen + 1)
      else (unacked, seen))"
  by pat_completeness auto
termination
  by (relation "measure (\<lambda>(unacked, curHead, seen). fcard unacked)")
    (simp, simp only: in_measure prod.case fcard_fminus1_less)

declare drain.simps [simp del]

text \<open>The case \<open>id := <-c.seen\<close> of the select in \<open>run\<close>.\<close>

definition completer_on_seen ::
  "int \<Rightarrow> int fset \<times> CompletionQueue \<Rightarrow> int fset \<times> CompletionQueue" where
  "completer_on_seen i = (\<lambda>(unacked, c).
     let unacked = (if i |\<in>| unacked then unacked else finsert i unacked);
         head = cqHead c; msk = cqMask c;
         curHead = int (unat (head AND msk));
         (unacked, seen) = drain unacked curHead 0
     in (unacked, c\<lparr>cqHead := cqHead c + of_int seen\<rparr>))"

text \<open>
  The goroutine: the pending messages of its two channels, its map and the queue. The select
  takes any channel that is ready; after a stop message the goroutine is gone.
\<close>

record completer_state =
  csChans :: completer
  csUnacked :: "int fset"
  csCq :: CompletionQueue
  csRunning :: bool

inductive completer_step :: "completer_state \<Rightarrow> completer_state \<Rightarrow> bool" where
  run_stop: "csRunning s \<Longrightarrow> cpStopCh (csChans s) = Suc n \<Longrightarrow>
     completer_step s (s\<lparr>csChans := (csChans s)\<lparr>cpStopCh := n\<rparr>, csRunning := False\<rparr>)"
| run_seen: "csRunning s \<Longrightarrow> cpSeen (csChans s) = i # is \<Longrightarrow>
     completer_on_seen i (csUnacked s, csCq s) = (unacked, c) \<Longrightarrow>
     completer_step s (s\<lparr>csChans := (csChans s)\<lparr>cpSeen := is\<rparr>, csUnacked := unacked, csCq := c\<rparr>)"

inductive_cases completer_stepE: "completer_step s t"

section \<open>The inner loop\<close>

lemma drain_run_step:
  assumes a: "a |\<in>| U" and run: "\<forall>i < n. a + 1 + int i |\<in>| U |-| {|a|}" "a + 1 + int n |\<notin>| U |-| {|a|}"
    and rest: "\<forall>x. x |\<in>| U' \<longleftrightarrow> x |\<in>| U |-| {|a|} \<and> \<not> (a + 1 \<le> x \<and> x < a + 1 + int n)"
  shows "(\<forall>i < Suc n. a + int i |\<in>| U) \<and> a + int (Suc n) |\<notin>| U
    \<and> (\<forall>x. x |\<in>| U' \<longleftrightarrow> x |\<in>| U \<and> \<not> (a \<le> x \<and> x < a + int (Suc n)))"
proof (intro conjI allI impI)
  have shift: "a + int (Suc i) = a + 1 + int i" for i by simp
  show "a + int i |\<in>| U" if "i < Suc n" for i
  proof (cases i)
    case (Suc j)
    with that run(1) have "a + 1 + int j |\<in>| U |-| {|a|}" by simp
    then show ?thesis unfolding Suc shift by blast
  qed (use a in simp)
  show "a + int (Suc n) |\<notin>| U" using run(2) unfolding shift by simp
  show "x |\<in>| U' \<longleftrightarrow> x |\<in>| U \<and> \<not> (a \<le> x \<and> x < a + int (Suc n))" for x
  proof (cases "x = a")
    case False
    then have "a \<le> x \<longleftrightarrow> a + 1 \<le> x" by linarith
    then show ?thesis using spec [OF rest, of x] False unfolding shift by simp
  qed (use rest in simp)
qed

lemma drain_spec:
  assumes "drain U h s = (U', s')"
  shows "\<exists>n. s' = s + int n \<and> (\<forall>i < n. h + s + int i |\<in>| U) \<and> h + s + int n |\<notin>| U
     \<and> (\<forall>x. x |\<in>| U' \<longleftrightarrow> x |\<in>| U \<and> \<not> (h + s \<le> x \<and> x < h + s + int n))"
  using assms
proof (induction U h s rule: drain.induct)
  case (1 U h s)
  show ?case
  proof (cases "h + s |\<in>| U")
    case False
    then show ?thesis
      using "1.prems" by (intro exI [of _ 0]) (simp add: drain.simps)
  next
    case True
    have "drain (U |-| {|h + s|}) h (s + 1) = (U', s')"
      using "1.prems" True by (simp add: drain.simps [of U])
    from "1.IH" [OF True this] obtain n where s': "s' = s + 1 + int n"
      and run: "\<forall>i < n. h + s + 1 + int i |\<in>| U |-| {|h + s|}" "h + s + 1 + int n |\<notin>| U |-| {|h + s|}"
        "\<forall>x. x |\<in>| U' \<longleftrightarrow> x |\<in>| U |-| {|h + s|} \<and> \<not> (h + s + 1 \<le> x \<and> x < h + s + 1 + int n)"
      by (auto simp only: add.assoc [symmetric])
    from drain_run_step [OF True run] s' show ?thesis by (intro exI [of _ "Suc n"]) simp
  qed
qed

section \<open>What the readers acknowledge\<close>

text \<open>
  Completions are numbered by the order in which the kernel posts them; completion \<open>p\<close> is
  in slot \<open>p mod N\<close> of a ring of \<open>N\<close> entries. A system of readers and the completer: the
  acknowledged completions \<open>ackA\<close>, the number \<open>ackH\<close> the head stands for, the map of the
  goroutine and the queue. A reader acknowledges a completion once, while it is in the ring.
  The kernel changes the queue in between, but neither its head nor its geometry.
\<close>

record ack_state =
  ackA :: "nat set"
  ackH :: nat
  ackU :: "int fset"
  ackCq :: CompletionQueue

definition ack_init :: "nat \<Rightarrow> ack_state \<Rightarrow> bool" where
  "ack_init k s \<longleftrightarrow> cq_wf k (ackCq s) \<and> ackA s = {..<ackH s} \<and> ackU s = {||}
     \<and> cqHead (ackCq s) = of_nat (ackH s)"

inductive ack_step :: "nat \<Rightarrow> ack_state \<Rightarrow> ack_state \<Rightarrow> bool" for k where
  ack_seen: "p \<notin> ackA s \<Longrightarrow> ackH s \<le> p \<Longrightarrow> p < ackH s + 2 ^ k \<Longrightarrow>
     completer_on_seen (int (p mod 2 ^ k)) (ackU s, ackCq s) = (U, c) \<Longrightarrow>
     ack_step k s (s\<lparr>ackA := insert p (ackA s), ackU := U, ackCq := c,
       ackH := ackH s + unat (cqHead c - cqHead (ackCq s))\<rparr>)"
| ack_kernel: "cq_wf k c \<Longrightarrow> cqHead c = cqHead (ackCq s) \<Longrightarrow>
     ack_step k s (s\<lparr>ackCq := c\<rparr>)"

lemma window_mod_inj:
  fixes p q H N :: nat
  assumes "H \<le> p" "p < H + N" "H \<le> q" "q < H + N" "p mod N = q mod N"
  shows "p = q"
proof -
  have step: False if "a < b" "b < a + N" "a mod N = b mod N" for a b :: nat
  proof -
    have "N dvd b - a"
      using that by (metis less_imp_le mod_eq_dvd_iff_nat)
    then show False
      using that by (auto dest: dvd_imp_le)
  qed
  show ?thesis
  proof (cases p q rule: linorder_cases)
    case less
    then show ?thesis using step [of p q] assms by simp
  next
    case greater
    then show ?thesis using step [of q p] assms by simp
  qed
qed

text \<open>
  Positions and slots: the completions of \<open>A\<close> from \<open>H\<close> on lie in one window of \<open>N\<close>,
  so a slot number determines its completion.
\<close>

definition slots_from :: "nat \<Rightarrow> nat \<Rightarrow> nat set \<Rightarrow> int set" where
  "slots_from N H A = (\<lambda>p. int (p mod N)) ` {p \<in> A. H \<le> p}"

definition ack_inv :: "nat \<Rightarrow> ack_state \<Rightarrow> bool" where
  "ack_inv k s \<longleftrightarrow> cq_wf k (ackCq s) \<and> cqHead (ackCq s) = of_nat (ackH s)
     \<and> {..<ackH s} \<subseteq> ackA s \<and> ackA s \<subseteq> {..<ackH s + 2 ^ k}
     \<and> fset (ackU s) = slots_from (2 ^ k) (ackH s) (ackA s)"

lemma slot_shift:
  "H mod N + i < N \<Longrightarrow> int ((H + i) mod N) = int (H mod N) + int i"
  by (metis mod_add_left_eq mod_less of_nat_add)

lemma slots_from_position:
  assumes "A \<subseteq> {..<H + N}" and "H mod N + i < N"
  shows "int (H mod N) + int i \<in> slots_from N H A \<longleftrightarrow> H + i \<in> A"
proof
  assume "int (H mod N) + int i \<in> slots_from N H A"
  then obtain q where q: "q \<in> A" "H \<le> q" "int (H mod N) + int i = int (q mod N)"
    by (auto simp: slots_from_def)
  then have "q mod N = (H + i) mod N"
    using slot_shift [OF assms(2)] by simp
  moreover have "H + i < H + N"
    using assms(2) by linarith
  ultimately have "q = H + i"
    using q assms(1) by (intro window_mod_inj [of H q N "H + i"]) auto
  with q show "H + i \<in> A" by simp
next
  assume "H + i \<in> A"
  then show "int (H mod N) + int i \<in> slots_from N H A"
    using slot_shift [OF assms(2)] by (force simp: slots_from_def)
qed

lemma drained_bound:
  assumes "0 < N" and "\<forall>i < n. int (H mod N) + int i \<in> slots_from N H A"
  shows "H mod N + n \<le> N"
proof (cases n)
  case 0
  then show ?thesis using assms(1) by (simp add: less_imp_le)
next
  case (Suc m)
  then obtain q where "int (H mod N) + int m = int (q mod N)"
    using assms(2) by (auto simp: slots_from_def)
  moreover have "q mod N < N" using assms(1) by simp
  ultimately show ?thesis using Suc by linarith
qed

lemma slots_from_drop:
  assumes A: "A \<subseteq> {..<H + N}" and bound: "H mod N + n \<le> N"
  shows "{x \<in> slots_from N H A. \<not> (int (H mod N) \<le> x \<and> x < int (H mod N) + int n)} =
    slots_from N (H + n) A"
proof (intro set_eqI iffI)
  fix x assume "x \<in> {x \<in> slots_from N H A. \<not> (int (H mod N) \<le> x \<and> x < int (H mod N) + int n)}"
  then obtain q where q: "q \<in> A" "H \<le> q" "x = int (q mod N)"
    and out: "\<not> (int (H mod N) \<le> x \<and> x < int (H mod N) + int n)"
    by (auto simp: slots_from_def)
  have "H + n \<le> q"
  proof (rule ccontr)
    assume "\<not> H + n \<le> q"
    with q(2) obtain i where "q = H + i" "i < n" by (auto simp: le_iff_add not_le)
    with slot_shift [of H N i] bound q(3) out show False by auto
  qed
  with q show "x \<in> slots_from N (H + n) A" by (auto simp: slots_from_def)
next
  fix x assume "x \<in> slots_from N (H + n) A"
  then obtain q where q: "q \<in> A" "H + n \<le> q" "x = int (q mod N)" by (auto simp: slots_from_def)
  have "\<not> (int (H mod N) \<le> x \<and> x < int (H mod N) + int n)"
  proof
    assume range: "int (H mod N) \<le> x \<and> x < int (H mod N) + int n"
    define i where "i = q mod N - H mod N"
    have i: "q mod N = H mod N + i" "i < n"
      using range q(3) by (auto simp: i_def)
    then have "q mod N = (H + i) mod N"
      using slot_shift [of H N i] bound by simp
    then have "q = H + i"
      using q A i bound by (intro window_mod_inj [of H q N "H + i"]) auto
    then show False using i q(2) by simp
  qed
  with q show "x \<in> {x \<in> slots_from N H A. \<not> (int (H mod N) \<le> x \<and> x < int (H mod N) + int n)}"
    by (auto simp: slots_from_def)
qed

lemma lap_boundary: "H mod N + n = N \<Longrightarrow> N dvd H + (n :: nat)"
  by (metis dvd_eq_mod_eq_0 mod_add_left_eq mod_self)

text \<open>One message: the acknowledged completions the head moves over are contiguous.\<close>

lemma on_seen_spec:
  assumes wf: "cq_wf k c" and head: "cqHead c = of_nat H" and N: "N = 2 ^ k"
    and U: "fset U = slots_from N H A"
    and A: "insert p A \<subseteq> {..<H + N}" and p: "H \<le> p"
    and run: "completer_on_seen (int (p mod N)) (U, c) = (U', c')"
  shows "\<exists>n. c' = c\<lparr>cqHead := of_nat (H + n)\<rparr> \<and> n \<le> N
     \<and> {H ..< H + n} \<subseteq> insert p A
     \<and> fset U' = slots_from N (H + n) (insert p A)
     \<and> (H + n \<notin> insert p A \<or> N dvd H + n)"
proof -
  have "unat (cqHead c AND cqMask c) = H mod N"
    using cq_ring.unat_slot_add [OF wf, of 0 H] head cq_ring.wf_slots [OF wf] N by simp
  then have slot: "uint (cqHead c AND cqMask c) = int (H mod N)"
    by (metis uint_nat)
  define V where "V = finsert (int (p mod N)) U"
  have V: "fset V = slots_from N H (insert p A)"
    using U p by (auto simp: V_def slots_from_def)
  obtain s where dr: "drain V (int (H mod N)) 0 = (U', s)"
    and c': "c' = c\<lparr>cqHead := cqHead c + of_int s\<rparr>"
    using run by (auto simp: V_def completer_on_seen_def slot finsert_absorb split: prod.splits if_splits)
  from drain_spec [OF dr] obtain n where
    n: "s = int n" and mem: "\<forall>i < n. int (H mod N) + int i \<in> fset V"
    and stop: "int (H mod N) + int n \<notin> fset V"
    and U': "\<forall>x. x \<in> fset U' \<longleftrightarrow> x \<in> fset V \<and> \<not> (int (H mod N) \<le> x \<and> x < int (H mod N) + int n)"
    by auto
  have bound: "H mod N + n \<le> N"
    using drained_bound [of N n H "insert p A"] mem N by (simp add: V)
  have "{H ..< H + n} \<subseteq> insert p A"
  proof
    fix q assume "q \<in> {H ..< H + n}"
    then obtain i where i: "q = H + i" "i < n" by (auto simp: le_iff_add)
    then show "q \<in> insert p A"
      using slots_from_position [OF A, of i] mem bound V by auto
  qed
  moreover have "fset U' = slots_from N (H + n) (insert p A)"
    using U' slots_from_drop [OF A bound] V by blast
  moreover have "H + n \<notin> insert p A \<or> N dvd H + n"
    using slots_from_position [OF A, of n] stop bound V lap_boundary [of H N n]
    by (metis le_neq_implies_less)
  ultimately show ?thesis
    using c' head n bound by (intro exI [of _ n]) simp
qed

lemma head_distance:
  assumes "n \<le> 2 ^ k" "k < 32"
  shows "unat (of_nat (H + n) - of_nat H :: u32) = n"
proof -
  have "n < 4294967296"
    using assms pow2_less_u32 [of k] by simp
  then show ?thesis by simp
qed

lemma ack_seen_step:
  assumes inv: "ack_inv k s" and p: "ackH s \<le> p" "p < ackH s + 2 ^ k"
    and run: "completer_on_seen (int (p mod 2 ^ k)) (ackU s, ackCq s) = (U, c)"
    and t: "t = s\<lparr>ackA := insert p (ackA s), ackU := U, ackCq := c,
       ackH := ackH s + unat (cqHead c - cqHead (ackCq s))\<rparr>"
  shows "ack_inv k t \<and> (ackH t \<notin> ackA t \<or> 2 ^ k dvd ackH t)"
proof -
  let ?H = "ackH s" and ?A = "ackA s"
  have wf: "cq_wf k (ackCq s)" and head: "cqHead (ackCq s) = of_nat ?H"
    and below: "{..<?H} \<subseteq> ?A" and win: "?A \<subseteq> {..<?H + 2 ^ k}"
    and U0: "fset (ackU s) = slots_from (2 ^ k) ?H ?A"
    using inv by (simp_all add: ack_inv_def)
  have "insert p ?A \<subseteq> {..<?H + 2 ^ k}"
    using win p by auto
  from on_seen_spec [OF wf head refl U0 this p(1) run] obtain n where
    c: "c = (ackCq s)\<lparr>cqHead := of_nat (?H + n)\<rparr>" and n: "n \<le> 2 ^ k"
    and acked: "{?H ..< ?H + n} \<subseteq> insert p ?A"
    and U: "fset U = slots_from (2 ^ k) (?H + n) (insert p ?A)"
    and maxi: "?H + n \<notin> insert p ?A \<or> 2 ^ k dvd ?H + n"
    by blast
  have H: "?H + unat (cqHead c - cqHead (ackCq s)) = ?H + n"
    using c head head_distance [OF n cq_ring.wf_width [OF wf], of ?H] by simp
  have "{..<?H + n} \<subseteq> insert p ?A"
  proof
    fix q assume "q \<in> {..<?H + n}"
    then show "q \<in> insert p ?A"
      using acked below by (cases "q < ?H") (auto simp: subset_iff)
  qed
  moreover have "insert p ?A \<subseteq> {..<?H + n + 2 ^ k}"
    using win p by fastforce
  moreover have "cq_wf k c" and "cqHead c = of_nat (?H + n)"
    using wf by (simp_all add: c cq_wf_def)
  moreover have "ackH t = ?H + n" "ackA t = insert p ?A" "ackU t = U" "ackCq t = c"
    using H by (simp_all add: t)
  ultimately show ?thesis
    using U maxi by (simp add: ack_inv_def)
qed

interpretation ack_system: invariant_system "ack_init k" "ack_step k" "ack_inv k" for k
proof
  fix s assume "ack_init k s"
  then show "ack_inv k s"
    by (auto simp: ack_init_def ack_inv_def slots_from_def)
next
  fix s t assume inv: "ack_inv k s" and "ack_step k s t"
  from this(2) show "ack_inv k t"
  proof cases
    case (ack_seen p U c)
    then show ?thesis using ack_seen_step [OF inv] by blast
  next
    case (ack_kernel c)
    then show ?thesis using inv by (simp add: ack_inv_def)
  qed
qed

section \<open>Properties\<close>

text \<open>
  C13: Whatever the order in which readers acknowledge completions, and whatever the kernel
  posts meanwhile, the completer moves the head of the completion queue only over completions
  that have been acknowledged, and the head register is the number of these completions modulo
  \<open>2 ^ 32\<close>.
\<close>

theorem completer_head_only_over_acked:
  assumes "reach (ack_init k) (ack_step k) s"
  shows "{..<ackH s} \<subseteq> ackA s \<and> cqHead (ackCq s) = of_nat (ackH s)"
  using ack_system.reach_inv [OF assms] by (simp add: ack_inv_def)

definition ack_start :: ack_state where
  "ack_start = \<lparr>ackA = {0}, ackH = 1, ackU = {||}, ackCq = \<lparr>cqSize = 64, cqHead = 1, cqTail = 3,
     cqMask = 1, cqOverflow = 0, cqFlags = 0,
     cqEntries = replicate 2 \<lparr>cqeUserData = 0, cqeRes = 0, cqeFlags = 0\<rparr>, cqPtr = 0\<rparr>\<rparr>"

lemma ack_start_reach: "reach (ack_init 1) (ack_step 1) ack_start"
  by (rule reach_init) (auto simp: ack_init_def ack_start_def cq_wf_def mask_eq_exp_minus_1)

text \<open>Completion 2 (slot 0) is acknowledged before completion 1 (slot 1).\<close>

definition ack_second :: ack_state where
  "ack_second = ack_start\<lparr>ackA := {0, 2}, ackU := {|0|}\<rparr>"

definition ack_third :: ack_state where
  "ack_third = ack_start\<lparr>ackA := {0, 1, 2}, ackU := {|0|}, ackH := 2,
     ackCq := (ackCq ack_start)\<lparr>cqHead := 2\<rparr>\<rparr>"

lemma ack_second_reach: "reach (ack_init 1) (ack_step 1) ack_second"
proof (rule reach_step [OF ack_start_reach])
  have "ack_step 1 ack_start (ack_start\<lparr>ackA := insert 2 (ackA ack_start), ackU := {|0|},
      ackCq := ackCq ack_start, ackH := ackH ack_start + unat (cqHead (ackCq ack_start) - cqHead (ackCq ack_start))\<rparr>)"
    by (rule ack_seen) (simp_all add: ack_start_def completer_on_seen_def drain.simps)
  then show "ack_step 1 ack_start ack_second"
    by (simp add: ack_second_def ack_start_def insert_commute)
qed

lemma ack_third_reach: "reach (ack_init 1) (ack_step 1) ack_third"
proof (rule reach_step [OF ack_second_reach])
  have "ack_step 1 ack_second (ack_second\<lparr>ackA := insert 1 (ackA ack_second), ackU := {|0|},
      ackCq := ackCq ack_third,
      ackH := ackH ack_second + unat (cqHead (ackCq ack_third) - cqHead (ackCq ack_second))\<rparr>)"
    by (rule ack_seen)
      (simp_all add: ack_second_def ack_third_def ack_start_def completer_on_seen_def drain.simps finsert_fminus)
  then show "ack_step 1 ack_second ack_third"
    by (simp add: ack_second_def ack_third_def ack_start_def insert_commute numeral_2_eq_2)
qed

theorem completer_head_only_over_acked_witness:
  "{..<ackH ack_third} \<subseteq> ackA ack_third \<and> cqHead (ackCq ack_third) = of_nat (ackH ack_third)"
  by (rule completer_head_only_over_acked [OF ack_third_reach])



text \<open>
  At the end of a lap the completer stops although the next completion has arrived: there is
  a run after which the completion at the head is acknowledged, every message has been handled,
  and the head has not moved over it.
\<close>

theorem completer_stalls_at_lap:
  "\<exists>s. reach (ack_init 1) (ack_step 1) s \<and> ackH s \<in> ackA s"
  using ack_third_reach by (auto simp: ack_third_def)

end
