(* ===== verification/Entry_By.thy ===== *)
theory Entry_By
  imports Ring_Types
begin

text \<open>
  \<open>CompletionQueue.EntryBy\<close> of \<open>types.go\<close>: a search of the completion ring by user
  data, which marks the entry it returns as seen and moves the head over the leading run of
  entries already seen. A slice of the ring has fewer than \<open>2 ^ 32\<close> entries (its length
  comes from a \<open>uint32\<close>), so the loop counters do not wrap and are naturals here. The
  returned pointer is the index of the entry.
\<close>

section \<open>The two loops\<close>

datatype scan_result = Found nat u32 | Exhausted | OutOfRange

definition cqe_seen :: "CompletionEntry \<Rightarrow> bool" where
  "cqe_seen cqe \<longleftrightarrow> cqeFlags cqe AND CqSeenFlag = CqSeenFlag \<or> IsZero cqe"

text \<open>One loop over \<open>i \<le> lim\<close>, with the loop variables \<open>seenIdx\<close>, \<open>seen\<close> and
  \<open>seenEnd\<close>; reading past the slice panics.\<close>

function entryBy_loop ::
  "CompletionEntry list \<Rightarrow> u64 \<Rightarrow> nat \<Rightarrow> nat \<Rightarrow> u32 \<Rightarrow> bool \<Rightarrow> bool \<Rightarrow> scan_result" where
  "entryBy_loop es userData lim i seenIdx seen seenEnd =
     (if lim < i then Exhausted
      else if length es \<le> i then OutOfRange
      else
        let cqe = es ! i;
            (seen, seenEnd) =
              (if cqe_seen cqe then (True, seenEnd)
               else if \<not> seenEnd then (False, True)
               else (seen, seenEnd));
            seenIdx = (if seen \<and> \<not> seenEnd then of_nat (Suc i) else seenIdx)
        in if cqeUserData cqe = userData then Found i seenIdx
           else entryBy_loop es userData lim (Suc i) seenIdx seen seenEnd)"
  by pat_completeness auto
termination
  by (relation "measure (\<lambda>(es, userData, lim, i, seenIdx, seen, seenEnd). Suc lim - i)") auto

declare entryBy_loop.simps [simp del]

definition entryBy_hit ::
  "nat \<Rightarrow> u32 \<Rightarrow> CompletionQueue \<Rightarrow> nat go \<times> CompletionQueue" where
  "entryBy_hit i seenIdx c =
     (let e = cqEntries c ! i;
          c = c\<lparr>cqEntries := (cqEntries c)[i := e\<lparr>cqeFlags := cqeFlags e OR CqSeenFlag\<rparr>]\<rparr>;
          seenIdx = (if seenIdx = cqSize c then 0 else seenIdx)
      in (Ok i, c\<lparr>cqHead := seenIdx\<rparr>))"

definition EntryBy :: "u64 \<Rightarrow> CompletionQueue \<Rightarrow> nat go \<times> CompletionQueue" where
  "EntryBy userData c =
     (let head = cqHead c; tail = cqTail c; msk = cqMask c
      in if head AND msk = tail AND msk then (Err ErrEntryNotFound, c)
         else
           let seenIdx = head AND msk
           in case entryBy_loop (cqEntries c) userData
                     (unat (of_nat (length (cqEntries c)) - 1 :: u32)) (unat seenIdx)
                     seenIdx False False of
                Found i seenIdx \<Rightarrow> entryBy_hit i seenIdx c
              | OutOfRange \<Rightarrow> (Panic IndexOutOfRange, c)
              | Exhausted \<Rightarrow>
                  (case entryBy_loop (cqEntries c) userData (unat (tail AND msk)) 0 0 False False of
                     Found i seenIdx \<Rightarrow> entryBy_hit i seenIdx c
                   | OutOfRange \<Rightarrow> (Panic IndexOutOfRange, c)
                   | Exhausted \<Rightarrow> (Err ErrEntryNotFound, c)))"

section \<open>Specification\<close>

text \<open>
  The order in which the slots are visited, the first slot with the user data, and the head that
  is stored: the first unseen slot of the pass, at most one past the slot found.
\<close>

definition visit_order :: "CompletionQueue \<Rightarrow> nat list" where
  "visit_order c =
     [unat (cqHead c AND cqMask c) ..< length (cqEntries c)]
     @ [0 ..< Suc (unat (cqTail c AND cqMask c))]"

definition seen_head :: "CompletionEntry list \<Rightarrow> nat \<Rightarrow> nat \<Rightarrow> nat" where
  "seen_head es start i = start + length (takeWhile cqe_seen (window es start (Suc i)))"

section \<open>Correctness of one loop\<close>

lemma entryBy_loop_after_end:
  assumes "lim < length es"
  shows "entryBy_loop es u lim i sx seen True =
    (case find (\<lambda>j. cqeUserData (es ! j) = u) [i ..< Suc lim] of
       None \<Rightarrow> Exhausted | Some j \<Rightarrow> Found j sx)"
  using assms
proof (induction "Suc lim - i" arbitrary: i seen)
  case 0
  then show ?case by (simp add: entryBy_loop.simps)
next
  case (Suc n)
  then have i: "i \<le> lim" by simp
  then have "[i ..< Suc lim] = i # [Suc i ..< Suc lim]"
    by (simp add: upt_rec)
  with Suc.hyps(1) [of "Suc i"] Suc.hyps(2) Suc.prems i show ?case
    by (subst entryBy_loop.simps) (auto simp: Let_def)
qed

lemma entryBy_loop_correct:
  assumes "lim < length es" "length es < 2 ^ 32"
  shows "entryBy_loop es u lim i (of_nat i) seen False =
    (case find (\<lambda>j. cqeUserData (es ! j) = u) [i ..< Suc lim] of
       None \<Rightarrow> Exhausted | Some j \<Rightarrow> Found j (of_nat (seen_head es i j)))"
  using assms
proof (induction "Suc lim - i" arbitrary: i seen)
  case 0
  then show ?case by (simp add: entryBy_loop.simps)
next
  case (Suc n)
  then have i: "i \<le> lim" "i < length es" by simp_all
  then have upt: "[i ..< Suc lim] = i # [Suc i ..< Suc lim]"
    by (simp add: upt_rec)
  let ?hit = "\<lambda>j. cqeUserData (es ! j) = u"
  show ?case
  proof (cases "cqe_seen (es ! i)")
    case True
    have win: "seen_head es i j = (if j = i then Suc i else seen_head es (Suc i) j)" if "i \<le> j" for j
      using that True i by (simp add: seen_head_def window_step)
    have mem: "i \<le> j" "j \<noteq> i" if "find ?hit [Suc i ..< Suc lim] = Some j" for j
      using find_upt_Some [OF that] by simp_all
    have IH: "entryBy_loop es u lim (Suc i) (of_nat (Suc i)) True False =
        (case find ?hit [Suc i ..< Suc lim] of
           None \<Rightarrow> Exhausted | Some j \<Rightarrow> Found j (of_nat (seen_head es (Suc i) j)))"
      using Suc.hyps(1) [of "Suc i" True] Suc.hyps(2) Suc.prems i by simp
    show ?thesis
      using True i IH mem
      by (subst entryBy_loop.simps) (auto simp: Let_def upt win simp del: of_nat_Suc upt_Suc split: option.splits)
  next
    case False
    have win: "seen_head es i j = i" if "i \<le> j" for j
      using that False i by (simp add: seen_head_def window_step)
    have mem: "i \<le> j" if "find ?hit [Suc i ..< Suc lim] = Some j" for j
      using find_upt_Some [OF that] by simp_all
    show ?thesis
      using False i mem Suc.prems
      by (subst entryBy_loop.simps)
        (auto simp: Let_def upt win entryBy_loop_after_end simp del: upt_Suc split: option.splits)
  qed
qed

section \<open>Correctness of the search\<close>

lemma entryBy_first_loop:
  assumes "cq_wf k c"
  shows "entryBy_loop (cqEntries c) u (unat (of_nat (length (cqEntries c)) - 1 :: u32))
      (unat (cqHead c AND cqMask c)) (cqHead c AND cqMask c) False False =
    (case find (\<lambda>j. cqeUserData (cqEntries c ! j) = u)
             [unat (cqHead c AND cqMask c) ..< length (cqEntries c)] of
       None \<Rightarrow> Exhausted
     | Some j \<Rightarrow> Found j (of_nat (seen_head (cqEntries c) (unat (cqHead c AND cqMask c)) j)))"
proof -
  have len: "0 < length (cqEntries c)" "length (cqEntries c) < 2 ^ 32"
    using assms cq_ring.slots_pos cq_ring.slots_u32 by blast+
  then have lim: "unat (of_nat (length (cqEntries c)) - 1 :: u32) = length (cqEntries c) - 1"
    by (simp add: unat_sub_if' Suc_le_eq)
  show ?thesis
    using entryBy_loop_correct [of "length (cqEntries c) - 1" "cqEntries c" u
        "unat (cqHead c AND cqMask c)" False] len
    by (simp add: lim del: upt_Suc)
qed

lemma entryBy_second_loop:
  assumes "cq_wf k c"
  shows "entryBy_loop (cqEntries c) u (unat (cqTail c AND cqMask c)) 0 0 False False =
    (case find (\<lambda>j. cqeUserData (cqEntries c ! j) = u) [0 ..< Suc (unat (cqTail c AND cqMask c))] of
       None \<Rightarrow> Exhausted | Some j \<Rightarrow> Found j (of_nat (seen_head (cqEntries c) 0 j)))"
  using entryBy_loop_correct [of "unat (cqTail c AND cqMask c)" "cqEntries c" u 0 False]
    cq_ring.slot_less [OF assms] cq_ring.slots_u32 [OF assms]
  by (simp del: upt_Suc)

text \<open>The start of the pass that reaches slot \<open>i\<close>.\<close>

definition pass_start :: "u64 \<Rightarrow> CompletionQueue \<Rightarrow> nat" where
  "pass_start u c =
     (if find (\<lambda>j. cqeUserData (cqEntries c ! j) = u)
           [unat (cqHead c AND cqMask c) ..< length (cqEntries c)] = None
      then 0 else unat (cqHead c AND cqMask c))"

lemma EntryBy_eq:
  assumes "cq_wf k c" and "cqHead c AND cqMask c \<noteq> cqTail c AND cqMask c"
  shows "EntryBy u c =
    (case find (\<lambda>j. cqeUserData (cqEntries c ! j) = u) (visit_order c) of
       None \<Rightarrow> (Err ErrEntryNotFound, c)
     | Some i \<Rightarrow> entryBy_hit i (of_nat (seen_head (cqEntries c) (pass_start u c) i)) c)"
  using assms(2)
  by (simp add: EntryBy_def Let_def entryBy_first_loop [OF assms(1)]
      entryBy_second_loop [OF assms(1)] visit_order_def find_append pass_start_def
      del: upt_Suc split: option.splits)

lemma seen_head_le: "start \<le> i \<Longrightarrow> seen_head es start i \<le> Suc i"
  using length_takeWhile_le [of cqe_seen "window es start (Suc i)"]
  by (simp add: seen_head_def) arith

lemma seen_head_seen:
  assumes "start \<le> j" "j < seen_head es start i"
  shows "cqe_seen (es ! j)"
proof -
  let ?w = "window es start (Suc i)"
  let ?n = "j - start"
  have n: "?n < length (takeWhile cqe_seen ?w)"
    using assms by (simp add: seen_head_def)
  then have "cqe_seen (takeWhile cqe_seen ?w ! ?n)"
    using nth_mem set_takeWhileD by metis
  moreover have "?n < length ?w"
    using n length_takeWhile_le less_le_trans by blast
  ultimately show ?thesis
    using n assms(1) window_nth [of start ?n "Suc i" es]
    by (simp add: takeWhile_nth less_diff_conv)
qed

lemma pass_start_le:
  assumes "find (\<lambda>j. cqeUserData (cqEntries c ! j) = u) (visit_order c) = Some i"
  shows "pass_start u c \<le> i"
  using assms
  by (auto simp: visit_order_def find_append pass_start_def dest!: find_upt_Some
      simp del: upt_Suc split: option.splits)

lemma visit_order_less:
  assumes "cq_wf k c" and "i \<in> set (visit_order c)"
  shows "i < length (cqEntries c)"
  using assms cq_ring.slot_less [OF assms(1), of "cqTail c"]
  by (auto simp: visit_order_def)

lemma EntryBy_Ok:
  assumes "cq_wf k c" and "EntryBy u c = (Ok i, c')"
  shows "find (\<lambda>j. cqeUserData (cqEntries c ! j) = u) (visit_order c) = Some i"
    and "entryBy_hit i (of_nat (seen_head (cqEntries c) (pass_start u c) i)) c = (Ok i, c')"
proof -
  have ne: "cqHead c AND cqMask c \<noteq> cqTail c AND cqMask c"
    using assms(2) by (auto simp: EntryBy_def Let_def)
  have eq: "(case find (\<lambda>j. cqeUserData (cqEntries c ! j) = u) (visit_order c) of
       None \<Rightarrow> (Err ErrEntryNotFound, c)
     | Some i \<Rightarrow> entryBy_hit i (of_nat (seen_head (cqEntries c) (pass_start u c) i)) c) = (Ok i, c')"
    using EntryBy_eq [OF assms(1) ne, of u] assms(2) by simp
  then show "find (\<lambda>j. cqeUserData (cqEntries c ! j) = u) (visit_order c) = Some i"
    by (auto simp: entryBy_hit_def Let_def split: option.splits)
  with eq show "entryBy_hit i (of_nat (seen_head (cqEntries c) (pass_start u c) i)) c = (Ok i, c')"
    by simp
qed

lemma EntryBy_Ok_head:
  assumes "cq_wf k c" and "EntryBy u c = (Ok i, c')"
  shows "unat (cqHead c') \<le> seen_head (cqEntries c) (pass_start u c) i"
    and "i < length (cqEntries c)"
    and "pass_start u c \<le> i"
proof -
  note find = EntryBy_Ok(1) [OF assms] and hit = EntryBy_Ok(2) [OF assms]
  show i: "i < length (cqEntries c)"
    using find visit_order_less [OF assms(1)] by (metis find_Some_iff nth_mem)
  show start: "pass_start u c \<le> i"
    using find by (rule pass_start_le)
  have "seen_head (cqEntries c) (pass_start u c) i < 2 ^ 32"
    using seen_head_le [OF start] i cq_ring.slots_u32 [OF assms(1)] by (meson Suc_leI le_less_trans)
  then show "unat (cqHead c') \<le> seen_head (cqEntries c) (pass_start u c) i"
    using hit by (auto simp: entryBy_hit_def Let_def split: if_splits)
qed

section \<open>Properties\<close>

definition sample_cqe :: "u64 \<Rightarrow> i32 \<Rightarrow> CompletionEntry" where
  "sample_cqe u r = \<lparr>cqeUserData = u, cqeRes = r, cqeFlags = 0\<rparr>"

definition sample_cq :: "u32 \<Rightarrow> u32 \<Rightarrow> CompletionEntry list \<Rightarrow> CompletionQueue" where
  "sample_cq head tail es = \<lparr>cqSize = 128, cqHead = head, cqTail = tail,
     cqMask = of_nat (length es) - 1, cqOverflow = 0, cqFlags = 0, cqEntries = es, cqPtr = 4096\<rparr>"

text \<open>
  C12: On a ring with the kernel's geometry whose head and tail slots differ, \<open>EntryBy\<close>
  never panics: it returns the first entry with the user data in the order head slot to the end
  of the ring, then slot zero to the tail slot, and the not-found error when no visited entry
  has it.
\<close>

theorem EntryBy_finds_first:
  assumes "cq_wf k c" and "cqHead c AND cqMask c \<noteq> cqTail c AND cqMask c"
  shows "fst (EntryBy u c) =
    (case find (\<lambda>j. cqeUserData (cqEntries c ! j) = u) (visit_order c) of
       None \<Rightarrow> Err ErrEntryNotFound | Some i \<Rightarrow> Ok i)"
  by (simp add: EntryBy_eq [OF assms] entryBy_hit_def Let_def split: option.splits)

theorem EntryBy_finds_first_witness:
  "fst (EntryBy 7 (sample_cq 3 6 [sample_cqe 5 0, sample_cqe 7 1, sample_cqe 2 0, sample_cqe 4 0]))
     = Ok 1"
proof -
  let ?c = "sample_cq 3 6 [sample_cqe 5 0, sample_cqe 7 1, sample_cqe 2 0, sample_cqe 4 0]"
  have wf: "cq_wf 2 ?c"
    by (simp add: cq_wf_def sample_cq_def mask_eq_exp_minus_1)
  have ne: "cqHead ?c AND cqMask ?c \<noteq> cqTail ?c AND cqMask ?c"
    by (simp add: sample_cq_def)
  show ?thesis
    using EntryBy_finds_first [OF wf ne, of 7]
    by (simp add: visit_order_def sample_cq_def sample_cqe_def upt_rec)
qed



text \<open>
  A completion ring that is full looks empty to \<open>EntryBy\<close>: when the tail is one ring
  size ahead of the head, every search fails with the not-found error, whatever the ring holds.
\<close>

theorem EntryBy_full_ring_not_found:
  assumes "cq_wf k c" and "cqTail c = cqHead c + of_nat (length (cqEntries c))"
  shows "EntryBy u c = (Err ErrEntryNotFound, c)"
  using assms(2) cq_ring.slot_lap [OF assms(1), of "cqHead c"] by (simp add: EntryBy_def)

theorem EntryBy_full_ring_not_found_witness:
  "EntryBy 7 (sample_cq 3 5 [sample_cqe 7 0, sample_cqe 8 0])
     = (Err ErrEntryNotFound, sample_cq 3 5 [sample_cqe 7 0, sample_cqe 8 0])"
proof (rule EntryBy_full_ring_not_found)
  show "cq_wf 1 (sample_cq 3 5 [sample_cqe 7 0, sample_cqe 8 0])"
    by (simp add: cq_wf_def sample_cq_def mask_eq_exp_minus_1)
  show "cqTail (sample_cq 3 5 [sample_cqe 7 0, sample_cqe 8 0]) =
      cqHead (sample_cq 3 5 [sample_cqe 7 0, sample_cqe 8 0])
      + of_nat (length (cqEntries (sample_cq 3 5 [sample_cqe 7 0, sample_cqe 8 0])))"
    by (simp add: sample_cq_def)
qed

text \<open>
  \<open>EntryBy\<close> stores a slot number as the head, while the kernel's tail counts every
  completion ever posted: from the second lap on, a successful search makes the ring look more
  than full to the kernel (\<open>tail - head\<close> exceeds the number of entries), although the
  search only ever consumes.
\<close>

theorem EntryBy_head_loses_lap:
  assumes "cq_wf k c" and "EntryBy u c = (Ok i, c')"
    and "2 * length (cqEntries c) < unat (cqTail c)"
  shows "length (cqEntries c) < unat (cqTail c' - cqHead c')"
proof -
  note head = EntryBy_Ok_head [OF assms(1,2)]
  have "unat (cqHead c') \<le> length (cqEntries c)"
    using head seen_head_le [OF head(3)] by (meson Suc_leI le_trans)
  moreover have "cqTail c' = cqTail c"
    using EntryBy_Ok(2) [OF assms(1,2)] by (auto simp: entryBy_hit_def Let_def)
  ultimately show ?thesis
    using assms(3) by (simp add: unat_sub_if')
qed

theorem EntryBy_head_loses_lap_witness:
  "\<exists>c'. EntryBy 7 (sample_cq 8 9 [sample_cqe 7 0, sample_cqe 6 0]) = (Ok 0, c')
     \<and> 2 < unat (cqTail c' - cqHead c')"
proof -
  let ?c = "sample_cq 8 9 [sample_cqe 7 0, sample_cqe 6 0]"
  have wf: "cq_wf 1 ?c"
    by (simp add: cq_wf_def sample_cq_def mask_eq_exp_minus_1)
  obtain c' where run: "EntryBy 7 ?c = (Ok 0, c')"
    by (simp add: EntryBy_def sample_cq_def sample_cqe_def entryBy_loop.simps cqe_seen_def
        CqSeenFlag_def IsZero_def entryBy_hit_def Let_def)
  have "2 * length (cqEntries ?c) < unat (cqTail ?c)"
    by (simp add: sample_cq_def)
  from EntryBy_head_loses_lap [OF wf run this] run show ?thesis
    by (auto simp: sample_cq_def)
qed

end
