(* ===== verification/Ring_Core.thy ===== *)
theory Ring_Core
  imports Register Completer Entry_By
begin

text \<open>
  \<open>ring.go\<close> without its completion side: the ring, handing out submission entries,
  entering the kernel, request ids, the accessors and the release of the mappings. A function
  returns \<open>None\<close> where the code spins forever with nothing interleaved. Pointers that
  \<open>Stop\<close> clears (\<open>r.sq\<close>, \<open>r.cq\<close>) are options; using a cleared one panics.
\<close>

section \<open>The ring\<close>

record ringSubmitter =
  rsDone :: nat
  rsWork :: nat
  rsDeadline :: i64

record Ring =
  ringFd :: goint
  ringP :: Params
  ringCq :: "CompletionQueue option"
  ringC :: completer
  ringSq :: "SubmitQueue option"
  ringIdx :: u64
  ringDebug :: bool
  ringFileReg :: "fileRegistry option"
  ringDeadline :: i64
  ringErrHandler :: bool
  ringSubmitter :: "ringSubmitter option"
  ringStop :: nat
  ringCompletions :: "completionRequest list"
  ringEventFd :: goint

section \<open>Submission entries\<close>

text \<open>
  What the callback of \<open>SubmitEntry\<close> captures: \<open>next\<close>, and \<open>head & mask\<close> as they
  were read when the entry was handed out.
\<close>

record ready =
  rdNext :: u32
  rdHead :: u32

text \<open>
  \<open>SubmitEntry\<close> on the queue: each \<open>goto getNext\<close> is a recursive call, and with nothing
  interleaved the compare-and-swap succeeds. The result is the index of the entry, or
  \<open>None\<close> for a nil entry, with the callback.
\<close>

partial_function (option) SubmitEntry ::
  "SubmitQueue \<Rightarrow> ((nat \<times> ready) option go \<times> SubmitQueue) option" where
  "SubmitEntry s =
     (let tail = sqTail s; head = sqHead s; msk = sqMask s; next = (tail AND msk) + 1
      in if next \<le> of_nat (length (sqEntries s)) then
           let s = s\<lparr>sqTail := next\<rparr>
           in if sqEntered s \<noteq> 0 then SubmitEntry s
              else
                let s = s\<lparr>sqWrites := sqWrites s + 1\<rparr>; i = unat (tail AND msk)
                in if length (sqEntries s) \<le> i then Some (Panic IndexOutOfRange, s)
                   else Some (Ok (Some (i, \<lparr>rdNext = next, rdHead = head AND msk\<rparr>)),
                     s\<lparr>sqEntries := (sqEntries s)[i := SubmitEntry_Reset (sqEntries s ! i)]\<rparr>)
         else SubmitEntry (s\<lparr>sqTail := 0\<rparr>))"

text \<open>The callback: \<open>completeWrite\<close>, then the store into the index array.\<close>

definition ready_callback :: "ready \<Rightarrow> SubmitQueue \<Rightarrow> unit go \<times> SubmitQueue" where
  "ready_callback rd s =
     (case completeWrite s of
        (Ok _, s) \<Rightarrow>
          (let i = unat (rdNext rd - 1)
           in if length (sqArray s) \<le> i then (Panic IndexOutOfRange, s)
              else (Ok (), s\<lparr>sqArray := (sqArray s)[i := rdHead rd]\<rparr>))
      | (res, s) \<Rightarrow> (res, s))"

definition Ring_SubmitEntry :: "Ring \<Rightarrow> ((nat \<times> ready) option go \<times> Ring) option" where
  "Ring_SubmitEntry r =
     (case ringSq r of
        None \<Rightarrow> Some (Panic NilDereference, r)
      | Some s \<Rightarrow>
          (case SubmitEntry s of
             None \<Rightarrow> None
           | Some (res, s) \<Rightarrow> Some (res, r\<lparr>ringSq := Some s\<rparr>)))"

definition Ring_ID :: "Ring \<Rightarrow> u64 \<times> Ring" where
  "Ring_ID r = (let i = ringIdx r + 1 in (i, r\<lparr>ringIdx := i\<rparr>))"

section \<open>Entering the kernel\<close>

text \<open>The kernel sees the two queues and its own state.\<close>

type_synonym 'k ring_mem = "SubmitQueue \<times> CompletionQueue option \<times> 'k"

definition Ring_Enter ::
  "'k ring_mem kernel6 \<Rightarrow> u64 \<Rightarrow> u64 \<Rightarrow> u64 \<Rightarrow> u64 \<Rightarrow> Ring \<Rightarrow> 'k \<Rightarrow> (goint go \<times> Ring \<times> 'k) option" where
  "Ring_Enter sys toSubmit minComplete flags sigset r k =
     (case ringSq r of
        None \<Rightarrow> Some (Panic NilDereference, r, k)
      | Some s \<Rightarrow>
          (let flags = (if NeedWakeup s then flags OR EnterSqWakeup else flags)
           in case enterLock s of
                None \<Rightarrow> None
              | Some s \<Rightarrow>
                  (let (res, s, c, k) = Enter sys (ringFd r) toSubmit minComplete flags sigset
                                          (s, ringCq r, k)
                   in Some (res, r\<lparr>ringSq := Some (enterUnlock s), ringCq := c\<rparr>, k))))"

section \<open>Accessors\<close>

definition CQ :: "Ring \<Rightarrow> CompletionQueue option" where "CQ r = ringCq r"
definition SQ :: "Ring \<Rightarrow> SubmitQueue option" where "SQ r = ringSq r"
definition EventFd :: "Ring \<Rightarrow> goint" where "EventFd r = ringEventFd r"
definition Fd :: "Ring \<Rightarrow> goint" where "Fd r = ringFd r"
definition FileRegistry :: "Ring \<Rightarrow> fileRegistry option" where "FileRegistry r = ringFileReg r"
definition CanEnter :: "Ring \<Rightarrow> bool" where "CanEnter r = True"

definition on_sq :: "(SubmitQueue \<Rightarrow> 'a) \<Rightarrow> Ring \<Rightarrow> 'a go" where
  "on_sq f r = (case ringSq r of None \<Rightarrow> Panic NilDereference | Some s \<Rightarrow> Ok (f s))"

definition on_cq :: "(CompletionQueue \<Rightarrow> 'a) \<Rightarrow> Ring \<Rightarrow> 'a go" where
  "on_cq f r = (case ringCq r of None \<Rightarrow> Panic NilDereference | Some c \<Rightarrow> Ok (f c))"

definition ShouldFlush :: "Ring \<Rightarrow> bool go" where
  "ShouldFlush = on_sq (\<lambda>s. sqFlags s AND SqCqOverflow \<noteq> 0)"

definition NeedsEnter :: "Ring \<Rightarrow> bool go" where
  "NeedsEnter = on_sq (\<lambda>s. sqFlags s AND SqNeedWakeup \<noteq> 0)"

definition SubmitHead :: "Ring \<Rightarrow> goint go" where
  "SubmitHead = on_sq (\<lambda>s. ucast (sqHead s AND sqMask s))"

definition SubmitTail :: "Ring \<Rightarrow> goint go" where
  "SubmitTail = on_sq (\<lambda>s. ucast (sqTail s AND sqMask s))"

definition CompleteHead :: "Ring \<Rightarrow> goint go" where
  "CompleteHead = on_cq (\<lambda>c. ucast (cqHead c AND cqMask c))"

definition CompleteTail :: "Ring \<Rightarrow> goint go" where
  "CompleteTail = on_cq (\<lambda>c. ucast (cqTail c AND cqMask c))"

section \<open>Releasing the ring\<close>

definition SYS_CLOSE :: u64 where "SYS_CLOSE = 3"

definition closeSq :: "'k kernel6 \<Rightarrow> Ring \<Rightarrow> 'k \<Rightarrow> unit go \<times> Ring \<times> 'k" where
  "closeSq sys r k =
     (case ringSq r of
        None \<Rightarrow> (Ok (), r, k)
      | Some s \<Rightarrow>
          (let (k, res, errno) = sys SYS_MUNMAP (sqPtr s) (ucast (sqSize s)) 0 0 0 0 k
           in if errno \<noteq> 0 then (Err (Wrapped (Errno errno) ''failed to munmap sq ring''), r, k)
              else (Ok (), r\<lparr>ringSq := None\<rparr>, k)))"

definition closeCq :: "'k kernel6 \<Rightarrow> Ring \<Rightarrow> 'k \<Rightarrow> unit go \<times> Ring \<times> 'k" where
  "closeCq sys r k =
     (case ringCq r of
        None \<Rightarrow> (Ok (), r, k)
      | Some c \<Rightarrow>
          (let (k, res, errno) = sys SYS_MUNMAP (cqPtr c) (ucast (cqSize c)) 0 0 0 0 k
           in if errno \<noteq> 0 then (Err (Wrapped (Errno errno) ''failed to munmap cq ring''), r, k)
              else (Ok (), r\<lparr>ringCq := None\<rparr>, k)))"

text \<open>\<open>ringSubmitter.stop\<close> hands a message to the submitter's goroutine.\<close>

definition submitter_stop :: "ringSubmitter \<Rightarrow> ringSubmitter" where
  "submitter_stop s = s\<lparr>rsDone := Suc (rsDone s)\<rparr>"

definition stop_tail :: "'k kernel6 \<Rightarrow> Ring \<Rightarrow> 'k \<Rightarrow> unit go \<times> Ring \<times> 'k" where
  "stop_tail sys r k =
     (let r = r\<lparr>ringSubmitter := map_option submitter_stop (ringSubmitter r)\<rparr>;
          (k, res, errno) = sys SYS_CLOSE (ringFd r) 0 0 0 0 0 k
      in if errno \<noteq> 0 then (Err (Errno errno), r, k) else (Ok (), r, k))"

definition Ring_Stop :: "'k kernel6 \<Rightarrow> Ring \<Rightarrow> 'k \<Rightarrow> unit go \<times> Ring \<times> 'k" where
  "Ring_Stop sys r k =
     (case closeSq sys r k of
        (Ok _, r, k) \<Rightarrow>
          (if pFlags (ringP r) AND FeatSingleMmap = 0 then
             (case closeCq sys r k of
                (Ok _, r, k) \<Rightarrow> stop_tail sys r k
              | failed \<Rightarrow> failed)
           else stop_tail sys r k)
      | failed \<Rightarrow> failed)"


section \<open>Facts on handing out entries\<close>

definition next_slot :: "SubmitQueue \<Rightarrow> nat" where
  "next_slot s = unat (sqTail s AND sqMask s)"

definition hand_out :: "SubmitQueue \<Rightarrow> SubmitQueue" where
  "hand_out s = s\<lparr>sqTail := (sqTail s AND sqMask s) + 1, sqWrites := sqWrites s + 1,
     sqEntries := (sqEntries s)[next_slot s := SubmitEntry_Reset (sqEntries s ! next_slot s)]\<rparr>"

definition callback_of :: "SubmitQueue \<Rightarrow> ready" where
  "callback_of s = \<lparr>rdNext = (sqTail s AND sqMask s) + 1, rdHead = sqHead s AND sqMask s\<rparr>"

lemma next_slot_less: "sq_wf k s \<Longrightarrow> next_slot s < length (sqEntries s)"
  unfolding next_slot_def by (rule sq_ring.slot_less)

lemma next_slot_mod: "sq_wf k s \<Longrightarrow> next_slot s = unat (sqTail s) mod 2 ^ k"
  using sq_ring.unat_slot [of k s "sqTail s"] sq_ring.wf_slots [of k s] by (simp add: next_slot_def)

lemma SubmitEntry_eq:
  assumes "sq_wf k s" and "sqEntered s = 0"
  shows "SubmitEntry s = Some (Ok (Some (next_slot s, callback_of s)), hand_out s)"
proof -
  have "(sqTail s AND sqMask s) + 1 \<le> of_nat (length (sqEntries s))"
    using assms(1) by (rule sq_ring.slot_Suc_le)
  then show ?thesis
    using assms next_slot_less [OF assms(1)]
    by (subst SubmitEntry.simps) (simp add: Let_def hand_out_def callback_of_def next_slot_def)
qed

lemma hand_out_wf [simp]: "sq_wf k (hand_out s) \<longleftrightarrow> sq_wf k s"
  by (simp add: sq_wf_def hand_out_def)

lemma hand_out_simps [simp]:
  "sqEntered (hand_out s) = sqEntered s" "sqHead (hand_out s) = sqHead s"
  "sqMask (hand_out s) = sqMask s" "sqArray (hand_out s) = sqArray s"
  "sqWrites (hand_out s) = sqWrites s + 1" "sqFlags (hand_out s) = sqFlags s"
  "length (sqEntries (hand_out s)) = length (sqEntries s)"
  by (simp_all add: hand_out_def)

lemma next_slot_hand_out:
  assumes "sq_wf k s"
  shows "next_slot (hand_out s) = Suc (next_slot s) mod 2 ^ k"
proof -
  have "unat (sqTail (hand_out s)) = next_slot s + 1"
    using sq_ring.unat_slot_Suc [OF assms, of "sqTail s"] sq_ring.unat_slot [OF assms, of "sqTail s"]
    by (simp add: hand_out_def next_slot_def)
  then show ?thesis
    using assms next_slot_mod [of k "hand_out s"] by simp
qed

text \<open>What the recursion of \<open>SubmitEntry\<close> keeps, whatever the queue.\<close>

lemma SubmitEntry_result:
  assumes "SubmitEntry s = Some (res, t)"
  shows "sqEntered s = 0 \<and> res \<noteq> Ok None"
proof (rule SubmitEntry.raw_induct
    [where P = "\<lambda>s x. sqEntered s = 0 \<and> fst x \<noteq> Ok None", OF _ assms, unfolded fst_conv])
  fix f s x
  assume IH: "\<And>s x. f s = Some x \<Longrightarrow> sqEntered s = 0 \<and> fst x \<noteq> Ok None"
    and eq: "(let tail = sqTail s; head = sqHead s; msk = sqMask s; next = (tail AND msk) + 1
      in if next \<le> of_nat (length (sqEntries s)) then
           let s = s\<lparr>sqTail := next\<rparr>
           in if sqEntered s \<noteq> 0 then f s
              else
                let s = s\<lparr>sqWrites := sqWrites s + 1\<rparr>; i = unat (tail AND msk)
                in if length (sqEntries s) \<le> i then Some (Panic IndexOutOfRange, s)
                   else Some (Ok (Some (i, \<lparr>rdNext = next, rdHead = head AND msk\<rparr>)),
                     s\<lparr>sqEntries := (sqEntries s)[i := SubmitEntry_Reset (sqEntries s ! i)]\<rparr>)
         else f (s\<lparr>sqTail := 0\<rparr>)) = Some x"
  have again: "f (s\<lparr>sqTail := v\<rparr>) = Some x \<Longrightarrow> sqEntered s = 0 \<and> fst x \<noteq> Ok None" for v
    using IH [of "s\<lparr>sqTail := v\<rparr>" x] by simp
  show "sqEntered s = 0 \<and> fst x \<noteq> Ok None"
    using eq again by (auto simp: Let_def split: if_splits)
qed

text \<open>A run of calls with nothing submitted in between: the slots handed out.\<close>

fun submit_entries :: "nat \<Rightarrow> SubmitQueue \<Rightarrow> (nat list \<times> SubmitQueue) option" where
  "submit_entries 0 s = Some ([], s)"
| "submit_entries (Suc n) s =
     (case SubmitEntry s of
        Some (Ok (Some (i, rd)), s) \<Rightarrow>
          (case submit_entries n s of None \<Rightarrow> None | Some (is, s) \<Rightarrow> Some (i # is, s))
      | _ \<Rightarrow> None)"

lemma submit_entries_slots:
  assumes "sq_wf k s" and "sqEntered s = 0"
  shows "\<exists>t. submit_entries n s = Some (map (\<lambda>j. (next_slot s + j) mod 2 ^ k) [0 ..< n], t)"
  using assms
proof (induction n arbitrary: s)
  case 0
  then show ?case by simp
next
  case (Suc n)
  have upt: "[0 ..< Suc n] = 0 # map Suc [0 ..< n]"
    by (simp add: map_Suc_upt upt_conv_Cons del: upt_Suc)
  have slot: "next_slot s mod 2 ^ k = next_slot s"
    using next_slot_mod [OF Suc.prems(1)] by simp
  obtain t where "submit_entries n (hand_out s) =
      Some (map (\<lambda>j. (Suc (next_slot s) mod 2 ^ k + j) mod 2 ^ k) [0 ..< n], t)"
    using Suc.IH [of "hand_out s"] Suc.prems by (auto simp: next_slot_hand_out)
  then show ?case
    using Suc.prems by (simp add: SubmitEntry_eq upt slot mod_add_left_eq comp_def del: upt_Suc)
qed

fun ring_ids :: "nat \<Rightarrow> Ring \<Rightarrow> u64 list" where
  "ring_ids 0 r = []"
| "ring_ids (Suc n) r = (case Ring_ID r of (i, r) \<Rightarrow> i # ring_ids n r)"

lemma ring_ids_eq: "ring_ids n r = map (\<lambda>j. ringIdx r + of_nat (Suc j)) [0 ..< n]"
proof (induction n arbitrary: r)
  case (Suc n)
  have upt: "[0 ..< Suc n] = 0 # map Suc [0 ..< n]"
    by (simp add: map_Suc_upt upt_conv_Cons del: upt_Suc)
  show ?case
    by (simp add: Ring_ID_def Let_def comp_def Suc.IH upt algebra_simps del: upt_Suc)
qed simp


section \<open>Facts on entering and stopping\<close>

lemma Ring_Enter_locked:
  "ringSq r = Some s \<Longrightarrow> sqEntered s \<noteq> 0 \<Longrightarrow> Ring_Enter sys n m f sg r k = None"
  by (simp add: Ring_Enter_def enterLock_held)

lemma Ring_Enter_free:
  assumes "ringSq r = Some s" and "sqEntered s = 0"
    and "sys EnterSyscall (ringFd r) n m (if NeedWakeup s then f OR EnterSqWakeup else f) sg 0
           (s\<lparr>sqEntered := 1\<rparr>, ringCq r, k) = ((t, c, k'), res, errno)"
  shows "Ring_Enter sys n m f sg r k =
    Some (Enter_result res errno, r\<lparr>ringSq := Some (enterUnlock t), ringCq := c\<rparr>, k')"
  using assms by (simp add: Ring_Enter_def enterLock_free Enter_def)

section \<open>Properties\<close>

definition sample_sqe :: SubmitEntry where
  "sample_sqe = \<lparr>sqeOpcode = Nop, sqeFlags = 0, sqeIoprio = 0, sqeFd = 0, sqeOffset = 0,
     sqeAddr = 0, sqeLen = 0, sqeUFlags = 0, sqeUserData = 0, sqeAnon0 = replicate 24 0\<rparr>"

text \<open>A submission queue of \<open>2 ^ k\<close> blank entries.\<close>

definition sample_sq :: "nat \<Rightarrow> u32 \<Rightarrow> u32 \<Rightarrow> SubmitQueue" where
  "sample_sq k head tail = \<lparr>sqSize = 608, sqHead = head, sqTail = tail, sqMask = mask k,
     sqFlags = 0, sqDropped = 0, sqArray = replicate (2 ^ k) 0,
     sqEntries = replicate (2 ^ k) sample_sqe, sqPtr = 4096, sqEntered = 0, sqWrites = 0\<rparr>"

lemma sample_sq_wf [simp]: "k < 32 \<Longrightarrow> sq_wf k (sample_sq k head tail)"
  by (simp add: sq_wf_def sample_sq_def)

definition sample_ring :: "SubmitQueue \<Rightarrow> Ring" where
  "sample_ring s = \<lparr>ringFd = 5, ringP = sample_params, ringCq = Some (sample_cq 0 0 (replicate 4 (sample_cqe 0 0))),
     ringC = newCompleter 512, ringSq = Some s, ringIdx = 0, ringDebug = False, ringFileReg = None,
     ringDeadline = 0, ringErrHandler = False, ringSubmitter = None, ringStop = 0,
     ringCompletions = [], ringEventFd = - 1\<rparr>"

text \<open>A kernel that does nothing and reports success.\<close>

definition idle_kernel :: "'w kernel6" where
  "idle_kernel trap a1 a2 a3 a4 a5 a6 w = (w, 0, 0)"

text \<open>
  C8: With nobody entering the kernel, \<open>SubmitEntry\<close> returns at once: the entry at the tail's
  slot, blanked except for its padding bytes, with the tail set to the slot after it and one more
  writer counted; no other entry and nothing else of the queue changes.
\<close>

theorem SubmitEntry_hands_out_tail_slot:
  assumes "sq_wf k s" and "sqEntered s = 0"
  shows "\<exists>t. SubmitEntry s = Some (Ok (Some (unat (sqTail s) mod 2 ^ k,
        \<lparr>rdNext = (sqTail s AND sqMask s) + 1, rdHead = sqHead s AND sqMask s\<rparr>)), t)
    \<and> sqEntries t ! (unat (sqTail s) mod 2 ^ k)
        = sample_sqe\<lparr>sqeFd := - 1, sqeAnon0 := sqeAnon0 (sqEntries s ! (unat (sqTail s) mod 2 ^ k))\<rparr>
    \<and> (\<forall>j. j \<noteq> unat (sqTail s) mod 2 ^ k \<longrightarrow> sqEntries t ! j = sqEntries s ! j)
    \<and> unat (sqTail t) = unat (sqTail s) mod 2 ^ k + 1
    \<and> s\<lparr>sqTail := sqTail t, sqWrites := sqWrites s + 1, sqEntries := sqEntries t\<rparr> = t"
proof (intro exI [of _ "hand_out s"] conjI allI impI)
  note slot = next_slot_mod [OF assms(1), symmetric]
  show "SubmitEntry s = Some (Ok (Some (unat (sqTail s) mod 2 ^ k,
        \<lparr>rdNext = (sqTail s AND sqMask s) + 1, rdHead = sqHead s AND sqMask s\<rparr>)), hand_out s)"
    using SubmitEntry_eq [OF assms] by (simp add: slot callback_of_def)
  show "sqEntries (hand_out s) ! (unat (sqTail s) mod 2 ^ k)
        = sample_sqe\<lparr>sqeFd := - 1, sqeAnon0 := sqeAnon0 (sqEntries s ! (unat (sqTail s) mod 2 ^ k))\<rparr>"
    using next_slot_less [OF assms(1)]
    by (simp add: slot hand_out_def SubmitEntry_Reset_def sample_sqe_def)
  show "unat (sqTail (hand_out s)) = unat (sqTail s) mod 2 ^ k + 1"
    using sq_ring.unat_slot_Suc [OF assms(1), of "sqTail s"] sq_ring.wf_slots [OF assms(1)]
    by (simp add: hand_out_def)
  show "s\<lparr>sqTail := sqTail (hand_out s), sqWrites := sqWrites s + 1,
      sqEntries := sqEntries (hand_out s)\<rparr> = hand_out s"
    by (simp add: hand_out_def)
qed (simp add: next_slot_mod [OF assms(1), symmetric] hand_out_def)

theorem SubmitEntry_hands_out_tail_slot_witness:
  "\<exists>t. SubmitEntry (sample_sq 2 4 7) = Some (Ok (Some (3, \<lparr>rdNext = 4, rdHead = 0\<rparr>)), t)
     \<and> unat (sqTail t) = 4"
proof -
  have "sq_wf 2 (sample_sq 2 4 7)" "sqEntered (sample_sq 2 4 7) = 0"
    by (simp, simp add: sample_sq_def)
  from SubmitEntry_hands_out_tail_slot [OF this] show ?thesis
    by (auto simp: sample_sq_def mask_eq_exp_minus_1)
qed

text \<open>
  \<open>SubmitEntry\<close> never returns a nil entry, on any queue: the documented result for a busy
  ring does not exist, and the error for an unavailable ring that all callers test for is
  unreachable.
\<close>

theorem SubmitEntry_never_nil:
  "SubmitEntry s \<noteq> Some (Ok None, t)"
  using SubmitEntry_result by blast

text \<open>
  Entries are handed out in a circle, whether or not the kernel has taken the earlier ones:
  \<open>n\<close> calls with nothing submitted in between return the \<open>n\<close> slots from the tail on, so on
  a ring of \<open>2 ^ k\<close> entries the next call hands out, and blanks, the first of them again.
\<close>

theorem SubmitEntry_round_robin:
  assumes "sq_wf k s" and "sqEntered s = 0"
  shows "\<exists>t. submit_entries n s = Some (map (\<lambda>j. (unat (sqTail s) + j) mod 2 ^ k) [0 ..< n], t)"
  using submit_entries_slots [OF assms, of n] next_slot_mod [OF assms(1)]
  by (simp add: mod_add_left_eq)

theorem SubmitEntry_round_robin_witness:
  "\<exists>t. submit_entries 3 (sample_sq 1 0 0) = Some ([0, 1, 0], t)"
  using SubmitEntry_round_robin [of 1 "sample_sq 1 0 0" 3]
  by (simp add: upt_rec) (simp add: sample_sq_def)

text \<open>
  C30: With nothing interleaved, \<open>SubmitEntry\<close> and \<open>Enter\<close> return exactly when no goroutine is
  in the kernel; \<open>Enter\<close> leaves the lock free again.
\<close>

theorem Enter_returns_iff_free:
  assumes "ringSq r = Some s"
  shows "(Ring_Enter sys n m f sg r k = None \<longleftrightarrow> sqEntered s \<noteq> 0)
    \<and> (sq_wf j s \<longrightarrow> (SubmitEntry s = None \<longleftrightarrow> sqEntered s \<noteq> 0))
    \<and> (\<forall>res r' k' t. Ring_Enter sys n m f sg r k = Some (res, r', k') \<longrightarrow>
          ringSq r' = Some t \<longrightarrow> sqEntered t = 0)"
proof (intro conjI allI impI)
  obtain t c k' res errno where call: "sys EnterSyscall (ringFd r) n m
      (if NeedWakeup s then f OR EnterSqWakeup else f) sg 0 (s\<lparr>sqEntered := 1\<rparr>, ringCq r, k)
      = ((t, c, k'), res, errno)"
    by (metis prod_cases3)
  show "Ring_Enter sys n m f sg r k = None \<longleftrightarrow> sqEntered s \<noteq> 0"
    using Ring_Enter_locked [OF assms, of sys n m f sg k] Ring_Enter_free
      [where sys = sys and f = f and n = n and m = m and sg = sg and k = k, OF assms _ call]
    by (cases "sqEntered s = 0") simp_all
  show "SubmitEntry s = None \<longleftrightarrow> sqEntered s \<noteq> 0" if "sq_wf j s"
  proof (cases "sqEntered s = 0")
    case True
    then show ?thesis using SubmitEntry_eq [OF that] by simp
  next
    case False
    then show ?thesis using SubmitEntry_result [of s] by (cases "SubmitEntry s") auto
  qed
  show "sqEntered u = 0" if "Ring_Enter sys n m f sg r k = Some (x, r', k'')" "ringSq r' = Some u"
    for x r' k'' u
    using that assms by (auto simp: Ring_Enter_def Let_def enterUnlock_def split: option.splits prod.splits)
qed

theorem Enter_returns_iff_free_witness:
  "Ring_Enter idle_kernel 1 0 1 0 (sample_ring (sample_sq 2 4 7)) () \<noteq> None
   \<and> Ring_Enter idle_kernel 1 0 1 0 (sample_ring ((sample_sq 2 4 7)\<lparr>sqEntered := 1\<rparr>)) () = None
   \<and> SubmitEntry ((sample_sq 2 4 7)\<lparr>sqEntered := 1\<rparr>) = None"
proof -
  let ?s = "sample_sq 2 4 7"
  have free: "ringSq (sample_ring ?s) = Some ?s" "sqEntered ?s = 0"
    and held: "ringSq (sample_ring (?s\<lparr>sqEntered := 1\<rparr>)) = Some (?s\<lparr>sqEntered := 1\<rparr>)"
    and wf: "sq_wf 2 (?s\<lparr>sqEntered := 1\<rparr>)"
    by (simp_all add: sample_ring_def sample_sq_def sq_wf_def)
  show ?thesis
    using Enter_returns_iff_free [OF free(1), of idle_kernel 1 0 1 0 "()" 2] free(2)
      Enter_returns_iff_free [OF held, of idle_kernel 1 0 1 0 "()" 2] wf by simp
qed

text \<open>
  C31: Request ids are distinct until the 64-bit counter wraps: any \<open>n \<le> 2 ^ 64\<close> consecutive
  calls of \<open>ID\<close> return \<open>n\<close> different numbers, the one after the current counter first.
\<close>

theorem ring_ids_distinct:
  assumes "n \<le> 2 ^ 64"
  shows "distinct (ring_ids n r) \<and> ring_ids n r = map (\<lambda>j. ringIdx r + of_nat (Suc j)) [0 ..< n]"
proof -
  have "inj_on (\<lambda>j. ringIdx r + of_nat (Suc j) :: u64) {0 ..< n}"
  proof (rule inj_onI)
    fix i j assume ij: "i \<in> {0 ..< n}" "j \<in> {0 ..< n}"
      and "ringIdx r + of_nat (Suc i) = ringIdx r + of_nat (Suc j)"
    then have "(of_nat i :: u64) = of_nat j" by simp
    then show "i = j"
      using ij assms by (simp add: word_unat_eq_iff unat_of_nat)
  qed
  then show ?thesis
    by (simp add: ring_ids_eq distinct_map)
qed

theorem ring_ids_distinct_witness:
  "distinct (ring_ids 3 (sample_ring (sample_sq 2 0 0)))
   \<and> ring_ids 3 (sample_ring (sample_sq 2 0 0)) = [1, 2, 3]"
  using ring_ids_distinct [of 3 "sample_ring (sample_sq 2 0 0)"]
  by (simp add: sample_ring_def upt_rec)

text \<open>
  A successful \<open>Stop\<close> clears the submission queue, and the completion queue unless bit 0 of
  the setup flags is set; the ring descriptor is closed last.
\<close>

theorem Stop_clears:
  assumes "Ring_Stop sys r k = (Ok (), r', k')"
  shows "ringSq r' = None
    \<and> ringCq r' = (if pFlags (ringP r) AND FeatSingleMmap = 0 then None else ringCq r)
    \<and> (\<exists>k0. fst (sys SYS_CLOSE (ringFd r) 0 0 0 0 0 k0) = k')"
  using assms
  by (auto simp: Ring_Stop_def closeSq_def closeCq_def stop_tail_def Let_def
      split: prod.splits go.splits option.splits if_splits) (metis fst_conv)+

theorem Stop_clears_witness:
  "\<exists>r'. Ring_Stop idle_kernel (sample_ring (sample_sq 2 4 7)) () = (Ok (), r', ())
     \<and> ringSq r' = None \<and> ringCq r' = None"
proof -
  obtain r' where run: "Ring_Stop idle_kernel (sample_ring (sample_sq 2 4 7)) () = (Ok (), r', ())"
    by (simp add: Ring_Stop_def closeSq_def closeCq_def stop_tail_def idle_kernel_def sample_ring_def
        sample_params_simps Let_def)
  from Stop_clears [OF run] run show ?thesis
    by (simp add: sample_ring_def sample_params_simps)
qed

end
