(* ===== verification/Ops.thy ===== *)
theory Ops
  imports Ring_Core
begin

text \<open>
  \<open>ops.go\<close> and \<open>utils.go\<close>: the operations that prepare a submission entry and the ones
  that prepare it and wait for its completion. Addresses of Go variables (\<open>&addr\<close>,
  \<open>&inOff\<close>, a \<open>*syscall.Msghdr\<close>) are arguments. Assignments to an entry before a panic
  stay in the mapped memory, so the part that fills an entry returns it also when it panics.
\<close>

section \<open>Preparing an entry\<close>

type_synonym fill = "u64 \<Rightarrow> SubmitEntry \<Rightarrow> gopanic option \<times> SubmitEntry"

definition set_addr :: "slice \<Rightarrow> SubmitEntry \<Rightarrow> gopanic option \<times> SubmitEntry" where
  "set_addr b e =
     (case firstAddr b of
        Ok a \<Rightarrow> (None, e\<lparr>sqeAddr := a\<rparr>)
      | Panic p \<Rightarrow> (Some p, e)
      | Err _ \<Rightarrow> (None, e))"

text \<open>
  The common shape: take an entry, test it for nil, fill it (with \<open>r.ID()\<close> as user data), call
  \<open>ready\<close>, return the entry's user data.
\<close>

definition prepare :: "fill \<Rightarrow> Ring \<Rightarrow> (u64 go \<times> Ring) option" where
  "prepare fill r =
     (case Ring_SubmitEntry r of
        None \<Rightarrow> None
      | Some (Panic p, r) \<Rightarrow> Some (Panic p, r)
      | Some (Err e, r) \<Rightarrow> Some (Err e, r)
      | Some (Ok None, r) \<Rightarrow> Some (Err errRingUnavailable, r)
      | Some (Ok (Some (i, rd)), r) \<Rightarrow>
          (case ringSq r of
             None \<Rightarrow> Some (Panic NilDereference, r)
           | Some s \<Rightarrow>
               (let (uid, r) = Ring_ID r;
                    (panicked, e) = fill uid (sqEntries s ! i);
                    s = s\<lparr>sqEntries := (sqEntries s)[i := e]\<rparr>
                in case panicked of
                     Some p \<Rightarrow> Some (Panic p, r\<lparr>ringSq := Some s\<rparr>)
                   | None \<Rightarrow>
                       (case ready_callback rd s of
                          (Ok _, s) \<Rightarrow> Some (Ok (sqeUserData (sqEntries s ! i)), r\<lparr>ringSq := Some s\<rparr>)
                        | (Err e, s) \<Rightarrow> Some (Err e, r\<lparr>ringSq := Some s\<rparr>)
                        | (Panic p, s) \<Rightarrow> Some (Panic p, r\<lparr>ringSq := Some s\<rparr>)))))"

section \<open>The preparing operations\<close>

definition fill_accept :: "goint \<Rightarrow> u64 \<Rightarrow> u32 \<Rightarrow> goint \<Rightarrow> fill" where
  "fill_accept fd addr socklen flags uid e =
     (None, e\<lparr>sqeOpcode := Accept, sqeUserData := uid, sqeFd := ucast fd, sqeAddr := addr,
        sqeOffset := ucast socklen, sqeUFlags := ucast flags\<rparr>)"

definition PrepareAccept :: "goint \<Rightarrow> u64 \<Rightarrow> u32 \<Rightarrow> goint \<Rightarrow> Ring \<Rightarrow> (u64 go \<times> Ring) option" where
  "PrepareAccept fd addr socklen flags = prepare (fill_accept fd addr socklen flags)"

definition fill_close :: "goint \<Rightarrow> fill" where
  "fill_close fd uid e = (None, e\<lparr>sqeOpcode := Close, sqeUserData := uid, sqeFd := ucast fd\<rparr>)"

definition PrepareClose :: "goint \<Rightarrow> Ring \<Rightarrow> (u64 go \<times> Ring) option" where
  "PrepareClose fd = prepare (fill_close fd)"

definition fill_connect :: "goint \<Rightarrow> u64 \<Rightarrow> u32 \<Rightarrow> fill" where
  "fill_connect fd addr socklen uid e =
     (None, e\<lparr>sqeOpcode := Connect, sqeUserData := uid, sqeFd := ucast fd, sqeAddr := addr,
        sqeLen := socklen\<rparr>)"

definition PrepareConnect :: "goint \<Rightarrow> u64 \<Rightarrow> u32 \<Rightarrow> Ring \<Rightarrow> (u64 go \<times> Ring) option" where
  "PrepareConnect fd addr socklen = prepare (fill_connect fd addr socklen)"

definition fill_fadvise :: "goint \<Rightarrow> u64 \<Rightarrow> u32 \<Rightarrow> goint \<Rightarrow> fill" where
  "fill_fadvise fd offset n advise uid e =
     (None, e\<lparr>sqeOpcode := Fadvise, sqeUserData := uid, sqeFd := ucast fd, sqeLen := n,
        sqeOffset := offset, sqeUFlags := ucast advise\<rparr>)"

definition PrepareFadvise :: "goint \<Rightarrow> u64 \<Rightarrow> u32 \<Rightarrow> goint \<Rightarrow> Ring \<Rightarrow> (u64 go \<times> Ring) option" where
  "PrepareFadvise fd offset n advise = prepare (fill_fadvise fd offset n advise)"

definition fill_fallocate :: "goint \<Rightarrow> u32 \<Rightarrow> i64 \<Rightarrow> i64 \<Rightarrow> fill" where
  "fill_fallocate fd mode offset n uid e =
     (None, e\<lparr>sqeOpcode := Fallocate, sqeUserData := uid, sqeFd := ucast fd, sqeAddr := n,
        sqeLen := mode, sqeOffset := offset\<rparr>)"

definition PrepareFallocate :: "goint \<Rightarrow> u32 \<Rightarrow> i64 \<Rightarrow> i64 \<Rightarrow> Ring \<Rightarrow> (u64 go \<times> Ring) option" where
  "PrepareFallocate fd mode offset n = prepare (fill_fallocate fd mode offset n)"

definition fill_fsync :: "goint \<Rightarrow> goint \<Rightarrow> fill" where
  "fill_fsync fd flags uid e =
     (None, e\<lparr>sqeOpcode := Fsync, sqeUserData := uid, sqeFd := ucast fd, sqeUFlags := ucast flags\<rparr>)"

definition PrepareFsync :: "goint \<Rightarrow> goint \<Rightarrow> Ring \<Rightarrow> (u64 go \<times> Ring) option" where
  "PrepareFsync fd flags = prepare (fill_fsync fd flags)"

definition fill_nop :: fill where
  "fill_nop uid e = (None, e\<lparr>sqeOpcode := Nop, sqeUserData := uid, sqeFd := - 1\<rparr>)"

definition PrepareNop :: "Ring \<Rightarrow> (u64 go \<times> Ring) option" where
  "PrepareNop = prepare fill_nop"

definition fill_poll_add :: "goint \<Rightarrow> goint \<Rightarrow> fill" where
  "fill_poll_add fd msk uid e =
     (None, e\<lparr>sqeOpcode := PollAdd, sqeFd := ucast fd, sqeUFlags := ucast msk, sqeUserData := uid\<rparr>)"

definition PreparePollAdd :: "goint \<Rightarrow> goint \<Rightarrow> Ring \<Rightarrow> (u64 go \<times> Ring) option" where
  "PreparePollAdd fd msk = prepare (fill_poll_add fd msk)"

text \<open>The vectored operations take the address of the first vector before they set the rest.\<close>

definition fill_vec :: "Opcode \<Rightarrow> goint \<Rightarrow> slice \<Rightarrow> goint \<Rightarrow> fill" where
  "fill_vec code fd iovecs offset uid e =
     (case set_addr iovecs (e\<lparr>sqeOpcode := code, sqeUserData := uid, sqeFd := ucast fd\<rparr>) of
        (Some p, e) \<Rightarrow> (Some p, e)
      | (None, e) \<Rightarrow> (None, e\<lparr>sqeLen := of_nat (sliceLen iovecs), sqeOffset := offset\<rparr>))"

definition PrepareReadv :: "goint \<Rightarrow> slice \<Rightarrow> goint \<Rightarrow> Ring \<Rightarrow> (u64 go \<times> Ring) option" where
  "PrepareReadv fd iovecs offset = prepare (fill_vec Readv fd iovecs offset)"

definition PrepareWritev :: "goint \<Rightarrow> slice \<Rightarrow> goint \<Rightarrow> Ring \<Rightarrow> (u64 go \<times> Ring) option" where
  "PrepareWritev fd iovecs offset = prepare (fill_vec Writev fd iovecs offset)"

definition fill_recvmsg :: "goint \<Rightarrow> u64 \<Rightarrow> goint \<Rightarrow> fill" where
  "fill_recvmsg fd msg flags uid e =
     (None, e\<lparr>sqeOpcode := RecvMsg, sqeUserData := uid, sqeFd := ucast fd, sqeAddr := msg,
        sqeLen := 1, sqeOffset := 0, sqeUFlags := ucast flags\<rparr>)"

definition PrepareRecvmsg :: "goint \<Rightarrow> u64 \<Rightarrow> goint \<Rightarrow> Ring \<Rightarrow> (u64 go \<times> Ring) option" where
  "PrepareRecvmsg fd msg flags = prepare (fill_recvmsg fd msg flags)"

text \<open>\<open>binary.LittleEndian.PutUint32(b[4:], x)\<close> and its reading.\<close>

definition le_bytes :: "u32 \<Rightarrow> u8 list" where
  "le_bytes x = [ucast x, ucast (drop_bit 8 x), ucast (drop_bit 16 x), ucast (drop_bit 24 x)]"

definition of_le_bytes :: "u8 list \<Rightarrow> u32" where
  "of_le_bytes bs = ucast (bs ! 0) OR push_bit 8 (ucast (bs ! 1)) OR push_bit 16 (ucast (bs ! 2))
     OR push_bit 24 (ucast (bs ! 3))"

definition splice_anon :: "goint \<Rightarrow> u8 list" where
  "splice_anon inFd = (let anon = replicate 24 0 in take 4 anon @ le_bytes (ucast inFd) @ drop 8 anon)"

text \<open>
  The offsets are pointers, 0 for nil; the source stores \<open>&inOff\<close> and \<open>&outOff\<close>, the
  addresses of the parameter variables themselves, which are the arguments \<open>inVar\<close> and
  \<open>outVar\<close>.
\<close>

definition fill_splice ::
  "goint \<Rightarrow> u64 \<Rightarrow> u64 \<Rightarrow> goint \<Rightarrow> u64 \<Rightarrow> u64 \<Rightarrow> goint \<Rightarrow> goint \<Rightarrow> fill" where
  "fill_splice inFd inOff inVar outFd outOff outVar n flags uid e =
     (None, e\<lparr>sqeOpcode := Splice, sqeFd := ucast outFd,
        sqeAddr := (if inOff \<noteq> 0 then inVar else 0),
        sqeLen := ucast n,
        sqeOffset := (if outOff \<noteq> 0 then outVar else 0),
        sqeUFlags := ucast flags, sqeAnon0 := splice_anon inFd, sqeUserData := uid\<rparr>)"

definition PrepareSplice ::
  "goint \<Rightarrow> u64 \<Rightarrow> u64 \<Rightarrow> goint \<Rightarrow> u64 \<Rightarrow> u64 \<Rightarrow> goint \<Rightarrow> goint \<Rightarrow> Ring \<Rightarrow> (u64 go \<times> Ring) option" where
  "PrepareSplice inFd inOff inVar outFd outOff outVar n flags =
     prepare (fill_splice inFd inOff inVar outFd outOff outVar n flags)"

text \<open>\<open>saferStringToBytes\<close>: a slice header over the string's own bytes.\<close>

definition saferStringToBytes :: "slice \<Rightarrow> SliceHeader" where
  "saferStringToBytes str =
     (let bytes = \<lparr>shData = 0, shLen = 0, shCap = 0\<rparr>;
          bytes = bytes\<lparr>shLen := 0, shCap := 0\<rparr>;
          bytes = bytes\<lparr>shData := sliceData str\<rparr>
      in bytes\<lparr>shCap := of_nat (sliceLen str), shLen := of_nat (sliceLen str)\<rparr>)"

definition fill_statx :: "goint \<Rightarrow> slice \<Rightarrow> goint \<Rightarrow> goint \<Rightarrow> u64 \<Rightarrow> fill" where
  "fill_statx dirfd path flags msk statx uid e =
     (let e = e\<lparr>sqeOpcode := Statx, sqeFd := ucast dirfd\<rparr>;
          e = (if sliceLen path \<noteq> 0 then e\<lparr>sqeAddr := shData (saferStringToBytes path)\<rparr> else e)
      in (None, e\<lparr>sqeLen := ucast msk, sqeOffset := statx, sqeUFlags := ucast flags,
            sqeUserData := uid\<rparr>))"

definition PrepareStatx ::
  "goint \<Rightarrow> slice \<Rightarrow> goint \<Rightarrow> goint \<Rightarrow> u64 \<Rightarrow> Ring \<Rightarrow> (u64 go \<times> Ring) option" where
  "PrepareStatx dirfd path flags msk statx = prepare (fill_statx dirfd path flags msk statx)"

definition fill_timeout :: "u64 \<Rightarrow> goint \<Rightarrow> goint \<Rightarrow> fill" where
  "fill_timeout ts count flags uid e =
     (None, e\<lparr>sqeOpcode := Timeout, sqeUserData := uid, sqeUFlags := ucast flags, sqeFd := - 1,
        sqeAddr := ts, sqeLen := 1, sqeOffset := count\<rparr>)"

definition PrepareTimeout :: "u64 \<Rightarrow> goint \<Rightarrow> goint \<Rightarrow> Ring \<Rightarrow> (u64 go \<times> Ring) option" where
  "PrepareTimeout ts count flags = prepare (fill_timeout ts count flags)"

definition fill_timeout_remove :: "u64 \<Rightarrow> goint \<Rightarrow> fill" where
  "fill_timeout_remove data flags uid e =
     (None, e\<lparr>sqeOpcode := TimeoutRemove, sqeUserData := uid, sqeUFlags := ucast flags, sqeFd := - 1,
        sqeAddr := data, sqeLen := 0, sqeOffset := 0\<rparr>)"

definition PrepareTimeoutRemove :: "u64 \<Rightarrow> goint \<Rightarrow> Ring \<Rightarrow> (u64 go \<times> Ring) option" where
  "PrepareTimeoutRemove data flags = prepare (fill_timeout_remove data flags)"

text \<open>The buffer operations; the ones without an offset leave the entry's offset blank.\<close>

definition fill_buf :: "Opcode \<Rightarrow> goint \<Rightarrow> slice \<Rightarrow> u64 option \<Rightarrow> u8 \<Rightarrow> fill" where
  "fill_buf code fd b offset flags uid e =
     (let e = e\<lparr>sqeOpcode := code, sqeUserData := uid, sqeFd := ucast fd,
            sqeLen := of_nat (sliceLen b), sqeFlags := flags\<rparr>;
          e = (case offset of None \<Rightarrow> e | Some off \<Rightarrow> e\<lparr>sqeOffset := off\<rparr>)
      in set_addr b e)"

definition PrepareRead :: "goint \<Rightarrow> slice \<Rightarrow> u64 \<Rightarrow> u8 \<Rightarrow> Ring \<Rightarrow> (u64 go \<times> Ring) option" where
  "PrepareRead fd b offset flags = prepare (fill_buf Read fd b (Some offset) flags)"

definition PrepareReadFixed :: "goint \<Rightarrow> slice \<Rightarrow> u8 \<Rightarrow> Ring \<Rightarrow> (u64 go \<times> Ring) option" where
  "PrepareReadFixed fd b flags = prepare (fill_buf ReadFixed fd b None flags)"

definition PrepareWrite :: "goint \<Rightarrow> slice \<Rightarrow> u64 \<Rightarrow> u8 \<Rightarrow> Ring \<Rightarrow> (u64 go \<times> Ring) option" where
  "PrepareWrite fd b offset flags = prepare (fill_buf Write fd b (Some offset) flags)"

definition PrepareWriteFixed :: "goint \<Rightarrow> slice \<Rightarrow> u8 \<Rightarrow> Ring \<Rightarrow> (u64 go \<times> Ring) option" where
  "PrepareWriteFixed fd b flags = prepare (fill_buf WriteFixed fd b None flags)"

definition PrepareSend :: "goint \<Rightarrow> slice \<Rightarrow> u8 \<Rightarrow> Ring \<Rightarrow> (u64 go \<times> Ring) option" where
  "PrepareSend fd b flags = prepare (fill_buf Send fd b None flags)"

definition PrepareRecv :: "goint \<Rightarrow> slice \<Rightarrow> u8 \<Rightarrow> Ring \<Rightarrow> (u64 go \<times> Ring) option" where
  "PrepareRecv fd b flags = prepare (fill_buf Recv fd b None flags)"

section \<open>The waiting operations\<close>

text \<open>
  \<open>Ring.complete\<close> sends a fresh request to the ring's goroutine and waits. What the goroutine
  answers is the argument \<open>reply\<close>, \<open>None\<close> when it never does; the theory \<open>Completion\<close>
  has the goroutine.
\<close>

type_synonym reply = "completionRequest \<Rightarrow> Ring \<Rightarrow> (completionRequest \<times> Ring) option"

definition complete :: "reply \<Rightarrow> u64 \<Rightarrow> Ring \<Rightarrow> ((i32 \<times> u32) \<times> Ring) option" where
  "complete reply reqID r =
     (let req = \<lparr>crId = reqID, crRes = 0, crFlags = 0\<rparr>
      in case reply req r of
           None \<Rightarrow> None
         | Some (req, r) \<Rightarrow> Some ((crRes req, crFlags req), r))"

definition complete_op ::
  "reply \<Rightarrow> (Ring \<Rightarrow> (u64 go \<times> Ring) option) \<Rightarrow> (i32 \<Rightarrow> u32 \<Rightarrow> 'a) \<Rightarrow> Ring \<Rightarrow> ('a go \<times> Ring) option" where
  "complete_op reply prep result r =
     (case prep r of
        None \<Rightarrow> None
      | Some (Err e, r) \<Rightarrow> Some (Err e, r)
      | Some (Panic p, r) \<Rightarrow> Some (Panic p, r)
      | Some (Ok uid, r) \<Rightarrow>
          (case complete reply uid r of
             None \<Rightarrow> None
           | Some ((errno, flags), r) \<Rightarrow>
               Some (if sint errno < 0 then Err (Errno (scast (- errno))) else Ok (result errno flags), r)))"

definition Ring_Close :: "reply \<Rightarrow> goint \<Rightarrow> Ring \<Rightarrow> (unit go \<times> Ring) option" where
  "Ring_Close reply fd = complete_op reply (PrepareClose fd) (\<lambda>_ _. ())"

definition Ring_Fadvise :: "reply \<Rightarrow> goint \<Rightarrow> u64 \<Rightarrow> u32 \<Rightarrow> goint \<Rightarrow> Ring \<Rightarrow> (unit go \<times> Ring) option" where
  "Ring_Fadvise reply fd offset n advise =
     complete_op reply (PrepareFadvise fd offset n advise) (\<lambda>_ _. ())"

definition Ring_Fallocate :: "reply \<Rightarrow> goint \<Rightarrow> u32 \<Rightarrow> i64 \<Rightarrow> i64 \<Rightarrow> Ring \<Rightarrow> (unit go \<times> Ring) option" where
  "Ring_Fallocate reply fd mode offset n =
     complete_op reply (PrepareFallocate fd mode offset n) (\<lambda>_ _. ())"

definition Ring_Fsync :: "reply \<Rightarrow> goint \<Rightarrow> goint \<Rightarrow> Ring \<Rightarrow> (unit go \<times> Ring) option" where
  "Ring_Fsync reply fd flags = complete_op reply (PrepareFsync fd flags) (\<lambda>_ _. ())"

definition Ring_Nop :: "reply \<Rightarrow> Ring \<Rightarrow> (unit go \<times> Ring) option" where
  "Ring_Nop reply = complete_op reply PrepareNop (\<lambda>_ _. ())"

definition Ring_PollAdd :: "reply \<Rightarrow> goint \<Rightarrow> goint \<Rightarrow> Ring \<Rightarrow> (unit go \<times> Ring) option" where
  "Ring_PollAdd reply fd msk = complete_op reply (PreparePollAdd fd msk) (\<lambda>_ _. ())"

text \<open>\<open>errno, res := r.complete(id)\<close>: the second result of \<open>complete\<close> is the flags word.\<close>

definition Ring_Splice ::
  "reply \<Rightarrow> goint \<Rightarrow> u64 \<Rightarrow> u64 \<Rightarrow> goint \<Rightarrow> u64 \<Rightarrow> u64 \<Rightarrow> goint \<Rightarrow> goint \<Rightarrow> Ring
   \<Rightarrow> (i64 go \<times> Ring) option" where
  "Ring_Splice reply inFd inOff inVar outFd outOff outVar n flags =
     complete_op reply (PrepareSplice inFd inOff inVar outFd outOff outVar n flags)
       (\<lambda>errno res. ucast res)"

definition Ring_Statx ::
  "reply \<Rightarrow> goint \<Rightarrow> slice \<Rightarrow> goint \<Rightarrow> goint \<Rightarrow> u64 \<Rightarrow> Ring \<Rightarrow> (unit go \<times> Ring) option" where
  "Ring_Statx reply dirfd path flags msk statx =
     complete_op reply (PrepareStatx dirfd path flags msk statx) (\<lambda>_ _. ())"

definition Ring_Send :: "reply \<Rightarrow> goint \<Rightarrow> slice \<Rightarrow> u8 \<Rightarrow> Ring \<Rightarrow> (unit go \<times> Ring) option" where
  "Ring_Send reply fd b flags = complete_op reply (PrepareSend fd b flags) (\<lambda>_ _. ())"

definition Ring_Recv :: "reply \<Rightarrow> goint \<Rightarrow> slice \<Rightarrow> u8 \<Rightarrow> Ring \<Rightarrow> (unit go \<times> Ring) option" where
  "Ring_Recv reply fd b flags = complete_op reply (PrepareRecv fd b flags) (\<lambda>_ _. ())"

section \<open>Any preparing call\<close>

text \<open>One constructor per preparing method, so that properties can speak of any of them.\<close>

datatype prep_call =
    CallAccept goint u64 u32 goint
  | CallClose goint
  | CallConnect goint u64 u32
  | CallFadvise goint u64 u32 goint
  | CallFallocate goint u32 i64 i64
  | CallFsync goint goint
  | CallNop
  | CallPollAdd goint goint
  | CallReadv goint slice goint
  | CallWritev goint slice goint
  | CallRecvmsg goint u64 goint
  | CallSplice goint u64 u64 goint u64 u64 goint goint
  | CallStatx goint slice goint goint u64
  | CallTimeout u64 goint goint
  | CallTimeoutRemove u64 goint
  | CallRead goint slice u64 u8
  | CallReadFixed goint slice u8
  | CallWrite goint slice u64 u8
  | CallWriteFixed goint slice u8
  | CallSend goint slice u8
  | CallRecv goint slice u8

fun dispatch :: "prep_call \<Rightarrow> Ring \<Rightarrow> (u64 go \<times> Ring) option" where
  "dispatch (CallAccept fd addr socklen flags) = PrepareAccept fd addr socklen flags"
| "dispatch (CallClose fd) = PrepareClose fd"
| "dispatch (CallConnect fd addr socklen) = PrepareConnect fd addr socklen"
| "dispatch (CallFadvise fd offset n advise) = PrepareFadvise fd offset n advise"
| "dispatch (CallFallocate fd mode offset n) = PrepareFallocate fd mode offset n"
| "dispatch (CallFsync fd flags) = PrepareFsync fd flags"
| "dispatch CallNop = PrepareNop"
| "dispatch (CallPollAdd fd msk) = PreparePollAdd fd msk"
| "dispatch (CallReadv fd iovecs offset) = PrepareReadv fd iovecs offset"
| "dispatch (CallWritev fd iovecs offset) = PrepareWritev fd iovecs offset"
| "dispatch (CallRecvmsg fd msg flags) = PrepareRecvmsg fd msg flags"
| "dispatch (CallSplice inFd inOff inVar outFd outOff outVar n flags) =
     PrepareSplice inFd inOff inVar outFd outOff outVar n flags"
| "dispatch (CallStatx dirfd path flags msk statx) = PrepareStatx dirfd path flags msk statx"
| "dispatch (CallTimeout ts count flags) = PrepareTimeout ts count flags"
| "dispatch (CallTimeoutRemove data flags) = PrepareTimeoutRemove data flags"
| "dispatch (CallRead fd b offset flags) = PrepareRead fd b offset flags"
| "dispatch (CallReadFixed fd b flags) = PrepareReadFixed fd b flags"
| "dispatch (CallWrite fd b offset flags) = PrepareWrite fd b offset flags"
| "dispatch (CallWriteFixed fd b flags) = PrepareWriteFixed fd b flags"
| "dispatch (CallSend fd b flags) = PrepareSend fd b flags"
| "dispatch (CallRecv fd b flags) = PrepareRecv fd b flags"

text \<open>The contract of a call: the opcode it submits, the slice it takes an address of.\<close>

fun call_opcode :: "prep_call \<Rightarrow> Opcode" where
  "call_opcode (CallAccept _ _ _ _) = Accept"
| "call_opcode (CallClose _) = Close"
| "call_opcode (CallConnect _ _ _) = Connect"
| "call_opcode (CallFadvise _ _ _ _) = Fadvise"
| "call_opcode (CallFallocate _ _ _ _) = Fallocate"
| "call_opcode (CallFsync _ _) = Fsync"
| "call_opcode CallNop = Nop"
| "call_opcode (CallPollAdd _ _) = PollAdd"
| "call_opcode (CallReadv _ _ _) = Readv"
| "call_opcode (CallWritev _ _ _) = Writev"
| "call_opcode (CallRecvmsg _ _ _) = RecvMsg"
| "call_opcode (CallSplice _ _ _ _ _ _ _ _) = Splice"
| "call_opcode (CallStatx _ _ _ _ _) = Statx"
| "call_opcode (CallTimeout _ _ _) = Timeout"
| "call_opcode (CallTimeoutRemove _ _) = TimeoutRemove"
| "call_opcode (CallRead _ _ _ _) = Read"
| "call_opcode (CallReadFixed _ _ _) = ReadFixed"
| "call_opcode (CallWrite _ _ _ _) = Write"
| "call_opcode (CallWriteFixed _ _ _) = WriteFixed"
| "call_opcode (CallSend _ _ _) = Send"
| "call_opcode (CallRecv _ _ _) = Recv"

fun call_buffer :: "prep_call \<Rightarrow> slice option" where
  "call_buffer (CallReadv _ b _) = Some b"
| "call_buffer (CallWritev _ b _) = Some b"
| "call_buffer (CallRead _ b _ _) = Some b"
| "call_buffer (CallReadFixed _ b _) = Some b"
| "call_buffer (CallWrite _ b _ _) = Some b"
| "call_buffer (CallWriteFixed _ b _) = Some b"
| "call_buffer (CallSend _ b _) = Some b"
| "call_buffer (CallRecv _ b _) = Some b"
| "call_buffer _ = None"

definition call_ok :: "prep_call \<Rightarrow> bool" where
  "call_ok c \<longleftrightarrow> (case call_buffer c of None \<Rightarrow> True | Some b \<Rightarrow> sliceLen b \<noteq> 0)"

fun fill_of :: "prep_call \<Rightarrow> fill" where
  "fill_of (CallAccept fd addr socklen flags) = fill_accept fd addr socklen flags"
| "fill_of (CallClose fd) = fill_close fd"
| "fill_of (CallConnect fd addr socklen) = fill_connect fd addr socklen"
| "fill_of (CallFadvise fd offset n advise) = fill_fadvise fd offset n advise"
| "fill_of (CallFallocate fd mode offset n) = fill_fallocate fd mode offset n"
| "fill_of (CallFsync fd flags) = fill_fsync fd flags"
| "fill_of CallNop = fill_nop"
| "fill_of (CallPollAdd fd msk) = fill_poll_add fd msk"
| "fill_of (CallReadv fd iovecs offset) = fill_vec Readv fd iovecs offset"
| "fill_of (CallWritev fd iovecs offset) = fill_vec Writev fd iovecs offset"
| "fill_of (CallRecvmsg fd msg flags) = fill_recvmsg fd msg flags"
| "fill_of (CallSplice inFd inOff inVar outFd outOff outVar n flags) =
     fill_splice inFd inOff inVar outFd outOff outVar n flags"
| "fill_of (CallStatx dirfd path flags msk statx) = fill_statx dirfd path flags msk statx"
| "fill_of (CallTimeout ts count flags) = fill_timeout ts count flags"
| "fill_of (CallTimeoutRemove data flags) = fill_timeout_remove data flags"
| "fill_of (CallRead fd b offset flags) = fill_buf Read fd b (Some offset) flags"
| "fill_of (CallReadFixed fd b flags) = fill_buf ReadFixed fd b None flags"
| "fill_of (CallWrite fd b offset flags) = fill_buf Write fd b (Some offset) flags"
| "fill_of (CallWriteFixed fd b flags) = fill_buf WriteFixed fd b None flags"
| "fill_of (CallSend fd b flags) = fill_buf Send fd b None flags"
| "fill_of (CallRecv fd b flags) = fill_buf Recv fd b None flags"

lemmas prepare_methods = PrepareAccept_def PrepareClose_def PrepareConnect_def PrepareFadvise_def
  PrepareFallocate_def PrepareFsync_def PrepareNop_def PreparePollAdd_def PrepareReadv_def
  PrepareWritev_def PrepareRecvmsg_def PrepareSplice_def PrepareStatx_def PrepareTimeout_def
  PrepareTimeoutRemove_def PrepareRead_def PrepareReadFixed_def PrepareWrite_def
  PrepareWriteFixed_def PrepareSend_def PrepareRecv_def

lemmas fill_defs = fill_accept_def fill_close_def fill_connect_def fill_fadvise_def
  fill_fallocate_def fill_fsync_def fill_nop_def fill_poll_add_def fill_vec_def fill_recvmsg_def
  fill_splice_def fill_statx_def fill_timeout_def fill_timeout_remove_def fill_buf_def

lemma dispatch_prepare: "dispatch c = prepare (fill_of c)"
  by (cases c) (simp_all add: prepare_methods)

lemma fill_of_ok:
  "call_ok c \<Longrightarrow> \<exists>f. fill_of c uid e = (None, f) \<and> sqeUserData f = uid \<and> sqeOpcode f = call_opcode c"
  by (cases c) (auto simp: call_ok_def fill_defs set_addr_def firstAddr_def Let_def)

lemma fill_of_empty: "\<not> call_ok c \<Longrightarrow> \<exists>f. fill_of c uid e = (Some IndexOutOfRange, f)"
  by (cases c) (auto simp: call_ok_def fill_defs set_addr_def firstAddr_def Let_def)

section \<open>What a preparing call does to the ring\<close>

text \<open>The queue after a call that filled in the entry \<open>e\<close>.\<close>

definition prepared :: "SubmitQueue \<Rightarrow> SubmitEntry \<Rightarrow> SubmitQueue" where
  "prepared s e = s\<lparr>sqTail := (sqTail s AND sqMask s) + 1,
     sqEntries := (sqEntries s)[next_slot s := e],
     sqArray := (sqArray s)[next_slot s := sqHead s AND sqMask s]\<rparr>"

lemma ready_callback_hand_out:
  assumes wf: "sq_wf k s" and writes: "sqWrites s + 1 \<noteq> 0"
  shows "ready_callback (callback_of s) ((hand_out s)\<lparr>sqEntries := (sqEntries s)[next_slot s := e]\<rparr>)
    = (Ok (), prepared s e)"
proof -
  have "next_slot s < length (sqArray s)"
    using next_slot_less [OF wf] wf by (simp add: sq_wf_def)
  then show ?thesis
    using writes by (simp add: ready_callback_def completeWrite_def callback_of_def hand_out_def
        prepared_def next_slot_def Let_def)
qed

lemma prepare_eq:
  assumes sq: "ringSq r = Some s" and wf: "sq_wf k s" and free: "sqEntered s = 0"
    and fill: "fill (ringIdx r + 1) (SubmitEntry_Reset (sqEntries s ! next_slot s)) = (panicked, e)"
    and writes: "sqWrites s + 1 \<noteq> 0"
  shows "prepare fill r =
    (case panicked of
       None \<Rightarrow> Some (Ok (sqeUserData e), r\<lparr>ringIdx := ringIdx r + 1, ringSq := Some (prepared s e)\<rparr>)
     | Some p \<Rightarrow> Some (Panic p, r\<lparr>ringIdx := ringIdx r + 1,
         ringSq := Some ((hand_out s)\<lparr>sqEntries := (sqEntries s)[next_slot s := e]\<rparr>)\<rparr>))"
proof -
  have slot: "next_slot s < length (sqEntries s)"
    by (rule next_slot_less [OF wf])
  have entries: "sqEntries (hand_out s) =
      (sqEntries s)[next_slot s := SubmitEntry_Reset (sqEntries s ! next_slot s)]"
    by (simp add: hand_out_def)
  have "sqEntries (prepared s e) ! next_slot s = e"
    using slot by (simp add: prepared_def)
  then show ?thesis
    using SubmitEntry_eq [OF wf free] fill slot ready_callback_hand_out [OF wf writes]
    by (cases panicked)
      (simp_all add: prepare_def Ring_SubmitEntry_def Ring_ID_def Let_def sq entries)
qed

text \<open>
  The interface between a preparing method and the queue: the method is \<open>prepare\<close> of its
  filling part, which under the method's precondition fills in the id it is given.
\<close>

locale preparing_methods =
  fixes call :: "'c \<Rightarrow> Ring \<Rightarrow> (u64 go \<times> Ring) option"
    and fills :: "'c \<Rightarrow> fill"
    and ok :: "'c \<Rightarrow> bool"
  assumes call_prepares: "call c = prepare (fills c)"
    and ok_fills: "ok c \<Longrightarrow> \<exists>f. fills c uid e = (None, f) \<and> sqeUserData f = uid"
begin

lemma call_prepared:
  assumes "ringSq r = Some s" "sq_wf k s" "sqEntered s = 0" "sqWrites s + 1 \<noteq> 0" "ok c"
  shows "call c r = Some (Ok (ringIdx r + 1), r\<lparr>ringIdx := ringIdx r + 1,
      ringSq := Some (prepared s (snd (fills c (ringIdx r + 1) (SubmitEntry_Reset (sqEntries s ! next_slot s)))))\<rparr>)"
proof -
  obtain f where "fills c (ringIdx r + 1) (SubmitEntry_Reset (sqEntries s ! next_slot s)) = (None, f)"
      "sqeUserData f = ringIdx r + 1"
    using ok_fills [OF assms(5)] by blast
  then show ?thesis
    using prepare_eq [OF assms(1-3) _ assms(4), of "fills c" None f] by (simp add: call_prepares)
qed

end

interpretation preps: preparing_methods dispatch fill_of call_ok
  using fill_of_ok by unfold_locales (auto simp: dispatch_prepare, blast)

section \<open>What the kernel picks up\<close>

text \<open>
  The kernel consumes the submission ring from its head: position \<open>j\<close> names, through the index
  array, the entry it executes.
\<close>

definition kernel_pick :: "SubmitQueue \<Rightarrow> nat \<Rightarrow> SubmitEntry" where
  "kernel_pick s j = sqEntries s ! unat (sqArray s ! unat ((sqHead s + of_nat j) AND sqMask s))"

definition kernel_batch :: "SubmitQueue \<Rightarrow> nat \<Rightarrow> SubmitEntry list" where
  "kernel_batch s n = map (kernel_pick s) [0 ..< n]"

definition entry_of :: "prep_call \<Rightarrow> u64 \<Rightarrow> SubmitEntry \<Rightarrow> SubmitEntry" where
  "entry_of c uid old = snd (fill_of c uid (SubmitEntry_Reset old))"

lemma entry_of_ok: "call_ok c \<Longrightarrow> sqeUserData (entry_of c uid e) = uid \<and> sqeOpcode (entry_of c uid e) = call_opcode c"
  using fill_of_ok [of c uid "SubmitEntry_Reset e"] by (auto simp: entry_of_def)

lemma prepared_simps [simp]:
  "sqHead (prepared s e) = sqHead s" "sqMask (prepared s e) = sqMask s"
  "sqEntered (prepared s e) = sqEntered s" "sqWrites (prepared s e) = sqWrites s"
  "sqFlags (prepared s e) = sqFlags s"
  by (simp_all add: prepared_def)

lemma prepared_wf [simp]: "sq_wf k (prepared s e) \<longleftrightarrow> sq_wf k s"
  by (simp add: sq_wf_def prepared_def)

lemma next_slot_prepared: "sq_wf k s \<Longrightarrow> next_slot (prepared s e) = Suc (next_slot s) mod 2 ^ k"
  using next_slot_hand_out [of k s] by (simp add: next_slot_def prepared_def hand_out_def)

definition head_slot :: "SubmitQueue \<Rightarrow> nat" where
  "head_slot s = unat (sqHead s AND sqMask s)"

lemma head_slot_mod: "sq_wf k s \<Longrightarrow> head_slot s = unat (sqHead s) mod 2 ^ k"
  using sq_ring.unat_slot [of k s "sqHead s"] sq_ring.wf_slots [of k s] by (simp add: head_slot_def)

lemma kernel_pick_slot:
  "sq_wf k s \<Longrightarrow> kernel_pick s j = sqEntries s ! unat (sqArray s ! ((head_slot s + j) mod 2 ^ k))"
  using sq_ring.unat_slot_add [of k s "sqHead s" j] sq_ring.wf_slots [of k s]
  by (simp add: kernel_pick_def head_slot_mod mod_add_left_eq)

text \<open>Position \<open>j\<close> of the batch is the slot just prepared: it names the head's entry.\<close>

lemma prepared_array:
  assumes "sq_wf k s"
  shows "sqArray (prepared s e) ! next_slot s = sqHead s AND sqMask s"
    "i \<noteq> next_slot s \<Longrightarrow> sqArray (prepared s e) ! i = sqArray s ! i"
  using next_slot_less [OF assms] assms by (simp_all add: sq_wf_def prepared_def)

lemma prepared_entries:
  assumes "sq_wf k s"
  shows "sqEntries (prepared s e) ! next_slot s = e"
    "i \<noteq> next_slot s \<Longrightarrow> sqEntries (prepared s e) ! i = sqEntries s ! i"
  using next_slot_less [OF assms] by (simp_all add: prepared_def)

lemma head_slot_prepared [simp]: "head_slot (prepared s e) = head_slot s"
  by (simp add: head_slot_def)

text \<open>A run of calls with nothing submitted in between, and the ids they return.\<close>

fun prepare_all :: "prep_call list \<Rightarrow> Ring \<Rightarrow> (u64 list \<times> Ring) option" where
  "prepare_all [] r = Some ([], r)"
| "prepare_all (c # cs) r =
     (case dispatch c r of
        Some (Ok uid, r) \<Rightarrow>
          (case prepare_all cs r of None \<Rightarrow> None | Some (ids, r) \<Rightarrow> Some (uid # ids, r))
      | _ \<Rightarrow> None)"

text \<open>
  The queue while requests wait for the kernel: \<open>m\<close> slots from the head on are prepared, and
  the index array names the head's entry for every one of them.
\<close>

definition pending_from_head :: "nat \<Rightarrow> nat \<Rightarrow> SubmitEntry \<Rightarrow> SubmitQueue \<Rightarrow> bool" where
  "pending_from_head k m e s \<longleftrightarrow> sq_wf k s \<and> sqEntered s = 0 \<and> sqWrites s + 1 \<noteq> 0
     \<and> next_slot s = (head_slot s + m) mod 2 ^ k \<and> sqEntries s ! head_slot s = e
     \<and> (\<forall>j < m. sqArray s ! ((head_slot s + j) mod 2 ^ k) = sqHead s AND sqMask s)"

lemma pending_step:
  assumes pend: "pending_from_head k m e s" and m: "0 < m" "m < 2 ^ k"
  shows "pending_from_head k (Suc m) e (prepared s f)"
proof -
  have wf: "sq_wf k s" and slot: "next_slot s = (head_slot s + m) mod 2 ^ k"
    and old: "\<forall>j < m. sqArray s ! ((head_slot s + j) mod 2 ^ k) = sqHead s AND sqMask s"
    using pend by (simp_all add: pending_from_head_def)
  have apart: "(head_slot s + j) mod 2 ^ k \<noteq> next_slot s" if "j < m" for j
    unfolding slot using that m(2) by (rule slots_distinct)
  have "head_slot s \<noteq> next_slot s"
    using apart [of 0] m(1) head_slot_mod [OF wf] by simp
  moreover have "sqArray (prepared s f) ! ((head_slot s + j) mod 2 ^ k) = sqHead s AND sqMask s"
    if "j < Suc m" for j
    using that old apart prepared_array [OF wf] slot by (cases "j = m") auto
  ultimately show ?thesis
    using pend prepared_entries [OF wf]
    by (simp add: pending_from_head_def next_slot_prepared [OF wf] mod_Suc_eq)
qed

lemma pending_first:
  assumes "sq_wf k s" "sqEntered s = 0" "sqWrites s + 1 \<noteq> 0" "next_slot s = head_slot s"
  shows "pending_from_head k 1 f (prepared s f)"
  using assms prepared_array(1) [OF assms(1)] prepared_entries(1) [OF assms(1)] head_slot_mod [OF assms(1)]
  by (simp add: pending_from_head_def next_slot_prepared)

lemma pending_batch:
  assumes "pending_from_head k m e s"
  shows "kernel_batch s m = replicate m e"
  using assms kernel_pick_slot [of k s]
  by (auto simp: kernel_batch_def pending_from_head_def head_slot_def intro!: nth_equalityI)

lemma prepare_all_pending:
  assumes "ringSq r = Some s" "pending_from_head k m e s" "0 < m" "m + length cs \<le> 2 ^ k"
    "\<forall>c \<in> set cs. call_ok c"
  shows "\<exists>r' t. prepare_all cs r = Some (ring_ids (length cs) r, r') \<and> ringSq r' = Some t
    \<and> pending_from_head k (m + length cs) e t"
  using assms
proof (induction cs arbitrary: r s m)
  case Nil
  then show ?case by auto
next
  case (Cons c cs)
  define f where "f = snd (fill_of c (ringIdx r + 1) (SubmitEntry_Reset (sqEntries s ! next_slot s)))"
  define r1 where "r1 = r\<lparr>ringIdx := ringIdx r + 1, ringSq := Some (prepared s f)\<rparr>"
  have run: "dispatch c r = Some (Ok (ringIdx r + 1), r1)"
    using preps.call_prepared [of r s k c] Cons.prems
    by (simp add: pending_from_head_def f_def r1_def)
  have "ring_ids (length cs) r1 = ring_ids (length cs) (r\<lparr>ringIdx := ringIdx r + 1\<rparr>)"
    by (simp add: ring_ids_eq r1_def)
  moreover have "pending_from_head k (Suc m) e (prepared s f)"
    using pending_step [OF Cons.prems(2,3)] Cons.prems(4) by simp
  ultimately show ?case
    using Cons.IH [of r1 "prepared s f" "Suc m"] Cons.prems run
    by (auto simp: Ring_ID_def Let_def r1_def)
qed

lemma kernel_pick_head:
  "pending_from_head k m e s \<Longrightarrow> 0 < m \<Longrightarrow> kernel_pick s 0 = e"
  using pending_batch [of k m e s] by (cases m) (simp_all add: kernel_batch_def upt_conv_Cons del: upt_Suc)

section \<open>Reading back the bytes\<close>

lemma of_le_bytes_le_bytes: "of_le_bytes (le_bytes x) = x"
proof (rule bit_word_eqI)
  fix n assume "n < LENGTH(32)"
  then have "n < 8 \<or> 8 \<le> n \<and> n < 16 \<or> 16 \<le> n \<and> n < 24 \<or> 24 \<le> n \<and> n < 32" by auto
  then show "bit (of_le_bytes (le_bytes x)) n \<longleftrightarrow> bit x n"
    by (auto simp: of_le_bytes_def le_bytes_def bit_simps)
qed

section \<open>Properties\<close>

text \<open>
  C10: Every preparing method, on a well-formed queue nobody is entering and with its buffer not
  empty, returns the next request id and leaves in the tail's slot an entry with that id and the
  method's opcode. Every other entry, the head and the count of writers are as before, and the
  queue is well-formed again.
\<close>

theorem prepare_call_ok:
  assumes "ringSq r = Some s" "sq_wf k s" "sqEntered s = 0" "sqWrites s + 1 \<noteq> 0" "call_ok c"
  shows "\<exists>t. dispatch c r = Some (Ok (ringIdx r + 1), r\<lparr>ringIdx := ringIdx r + 1, ringSq := Some t\<rparr>)
    \<and> sq_wf k t \<and> sqWrites t = sqWrites s \<and> sqHead t = sqHead s
    \<and> sqeUserData (sqEntries t ! next_slot s) = ringIdx r + 1
    \<and> sqeOpcode (sqEntries t ! next_slot s) = call_opcode c
    \<and> (\<forall>j. j \<noteq> next_slot s \<longrightarrow> sqEntries t ! j = sqEntries s ! j)"
proof (intro exI conjI)
  let ?t = "prepared s (entry_of c (ringIdx r + 1) (sqEntries s ! next_slot s))"
  show "dispatch c r = Some (Ok (ringIdx r + 1), r\<lparr>ringIdx := ringIdx r + 1, ringSq := Some ?t\<rparr>)"
    using preps.call_prepared [OF assms] by (simp add: entry_of_def)
qed (use assms prepared_entries [OF assms(2)] entry_of_ok in simp_all)

theorem prepare_call_ok_witness:
  "\<exists>t. dispatch (CallFsync 7 0) (sample_ring (sample_sq 2 0 1)) =
      Some (Ok 1, (sample_ring (sample_sq 2 0 1))\<lparr>ringIdx := 1, ringSq := Some t\<rparr>)
    \<and> sqeOpcode (sqEntries t ! 1) = Fsync"
proof -
  let ?s = "sample_sq 2 0 1"
  have "ringSq (sample_ring ?s) = Some ?s" "sq_wf 2 ?s" "sqEntered ?s = 0" "sqWrites ?s + 1 \<noteq> 0"
    "call_ok (CallFsync 7 0)"
    by (simp_all add: sample_ring_def sample_sq_def call_ok_def sq_wf_def)
  from prepare_call_ok [OF this] show ?thesis
    by (auto simp: sample_ring_def sample_sq_def next_slot_def mask_eq_exp_minus_1)
qed

text \<open>
  C9: One request at a time reaches the kernel: when the kernel has consumed everything (the
  tail's slot is the head's slot), the first entry it reads after any preparing method is the one
  the method filled in, with the id it returned.
\<close>

theorem prepare_quiescent_submits:
  assumes "ringSq r = Some s" "sq_wf k s" "sqEntered s = 0" "sqWrites s + 1 \<noteq> 0" "call_ok c"
    and "unat (sqHead s) mod 2 ^ k = unat (sqTail s) mod 2 ^ k"
  shows "\<exists>r' t. dispatch c r = Some (Ok (ringIdx r + 1), r') \<and> ringSq r' = Some t
    \<and> kernel_pick t 0 = entry_of c (ringIdx r + 1) (sqEntries s ! (unat (sqTail s) mod 2 ^ k))
    \<and> sqeUserData (kernel_pick t 0) = ringIdx r + 1"
proof -
  let ?e = "entry_of c (ringIdx r + 1) (sqEntries s ! (unat (sqTail s) mod 2 ^ k))"
  have slots: "next_slot s = head_slot s" "next_slot s = unat (sqTail s) mod 2 ^ k"
    using assms(6) next_slot_mod [OF assms(2)] head_slot_mod [OF assms(2)] by simp_all
  have "kernel_pick (prepared s ?e) 0 = ?e"
    using kernel_pick_head [OF pending_first [OF assms(2-4) slots(1)]] by simp
  then show ?thesis
    using preps.call_prepared [OF assms(1-5)] entry_of_ok [OF assms(5)]
    by (auto simp: entry_of_def slots(2) [symmetric])
qed

theorem prepare_quiescent_submits_witness:
  "\<exists>r' t. dispatch (CallRead 4 \<lparr>sliceData = 512, sliceLen = 16\<rparr> 8 0) (sample_ring (sample_sq 2 6 2))
      = Some (Ok 1, r') \<and> ringSq r' = Some t
    \<and> sqeAddr (kernel_pick t 0) = 512 \<and> sqeLen (kernel_pick t 0) = 16
    \<and> sqeUserData (kernel_pick t 0) = 1"
proof -
  let ?s = "sample_sq 2 6 2" and ?c = "CallRead 4 \<lparr>sliceData = 512, sliceLen = 16\<rparr> 8 0"
  have "ringSq (sample_ring ?s) = Some ?s" "sq_wf 2 ?s" "sqEntered ?s = 0" "sqWrites ?s + 1 \<noteq> 0"
    "call_ok ?c" "unat (sqHead ?s) mod 2 ^ 2 = unat (sqTail ?s) mod 2 ^ 2"
    by (simp_all add: sample_ring_def sample_sq_def call_ok_def sq_wf_def)
  from prepare_quiescent_submits [OF this] show ?thesis
    by (auto simp: sample_ring_def entry_of_def fill_defs set_addr_def firstAddr_def)
qed

text \<open>
  C27: Requests prepared together do not reach the kernel: the callback of \<open>SubmitEntry\<close> stores
  the head's slot, not the entry's own, into the index array. After \<open>n\<close> preparing calls from a
  quiescent queue, all of which return their own ids, the \<open>n\<close> entries the kernel reads are
  \<open>n\<close> copies of the first.
\<close>

theorem prepare_batch_submits_first:
  assumes "ringSq r = Some s" "sq_wf k s" "sqEntered s = 0" "sqWrites s + 1 \<noteq> 0"
    and "unat (sqHead s) mod 2 ^ k = unat (sqTail s) mod 2 ^ k"
    and "\<forall>c \<in> set (c # cs). call_ok c" and "length (c # cs) \<le> 2 ^ k"
  shows "\<exists>r' t. prepare_all (c # cs) r = Some (ring_ids (length (c # cs)) r, r') \<and> ringSq r' = Some t
    \<and> kernel_batch t (length (c # cs)) = replicate (length (c # cs))
        (entry_of c (ringIdx r + 1) (sqEntries s ! (unat (sqTail s) mod 2 ^ k)))"
proof -
  let ?e = "entry_of c (ringIdx r + 1) (sqEntries s ! (unat (sqTail s) mod 2 ^ k))"
  define r1 where "r1 = r\<lparr>ringIdx := ringIdx r + 1, ringSq := Some (prepared s ?e)\<rparr>"
  have slots: "next_slot s = head_slot s" "next_slot s = unat (sqTail s) mod 2 ^ k"
    using assms(5) next_slot_mod [OF assms(2)] head_slot_mod [OF assms(2)] by simp_all
  have pend: "pending_from_head k 1 ?e (prepared s ?e)"
    by (rule pending_first [OF assms(2-4) slots(1)])
  have run: "dispatch c r = Some (Ok (ringIdx r + 1), r1)"
    using preps.call_prepared [OF assms(1-4), of c] assms(6)
    by (simp add: entry_of_def slots(2) [symmetric] r1_def)
  have ids: "ring_ids (length cs) r1 = ring_ids (length cs) (r\<lparr>ringIdx := ringIdx r + 1\<rparr>)"
    by (simp add: ring_ids_eq r1_def)
  obtain r' t where "prepare_all cs r1 = Some (ring_ids (length cs) r1, r')" "ringSq r' = Some t"
      "pending_from_head k (1 + length cs) ?e t"
    using prepare_all_pending [of r1 "prepared s ?e" k 1 ?e cs] pend assms(6,7)
    by (auto simp: r1_def)
  then show ?thesis
    using run ids pending_batch [of k "1 + length cs" ?e t] by (auto simp: Ring_ID_def Let_def)
qed

theorem prepare_batch_submits_first_witness:
  "\<exists>r' t. prepare_all [CallClose 3, CallFsync 4 0] (sample_ring (sample_sq 2 0 0)) = Some ([1, 2], r')
    \<and> ringSq r' = Some t \<and> map sqeUserData (kernel_batch t 2) = [1, 1]
    \<and> map sqeOpcode (kernel_batch t 2) = [Close, Close]"
proof -
  let ?s = "sample_sq 2 0 0"
  have "ringSq (sample_ring ?s) = Some ?s" "sq_wf 2 ?s" "sqEntered ?s = 0" "sqWrites ?s + 1 \<noteq> 0"
    "unat (sqHead ?s) mod 2 ^ 2 = unat (sqTail ?s) mod 2 ^ 2"
    "\<forall>c \<in> set [CallClose 3, CallFsync 4 0]. call_ok c" "length [CallClose 3, CallFsync 4 0] \<le> 2 ^ 2"
    by (simp_all add: sample_ring_def sample_sq_def call_ok_def sq_wf_def)
  from prepare_batch_submits_first [OF this] obtain r' t where
    run: "prepare_all [CallClose 3, CallFsync 4 0] (sample_ring ?s) = Some (ring_ids (Suc (Suc 0)) (sample_ring ?s), r')"
    and sq: "ringSq r' = Some t"
    and batch: "kernel_batch t 2 = replicate 2 (entry_of (CallClose 3) (ringIdx (sample_ring ?s) + 1)
      (sqEntries ?s ! (unat (sqTail ?s) mod 2 ^ 2)))"
    by (auto simp only: list.size add_0 add_0_right add_Suc_right One_nat_def numeral_2_eq_2)
  have ids: "ring_ids (Suc (Suc 0)) (sample_ring ?s) = [1, 2]"
    by (simp add: ring_ids_eq sample_ring_def)
  have entry: "sqeUserData (entry_of (CallClose 3) (ringIdx (sample_ring ?s) + 1) e) = 1"
    "sqeOpcode (entry_of (CallClose 3) (ringIdx (sample_ring ?s) + 1) e) = Close" for e
    by (simp_all add: entry_of_def fill_defs sample_ring_def)
  show ?thesis
    by (intro exI conjI, rule run [unfolded ids], rule sq) (simp_all only: batch map_replicate entry, simp_all add: numeral_2_eq_2)
qed

text \<open>
  A method given an empty buffer panics on \<open>&b[0]\<close>, after its entry was taken: the writer it
  counted is never uncounted and the tail stays advanced.
\<close>

theorem prepare_empty_buffer_leaks_writer:
  assumes "ringSq r = Some s" "sq_wf k s" "sqEntered s = 0" "sqWrites s + 1 \<noteq> 0" "\<not> call_ok c"
  shows "\<exists>r' t. dispatch c r = Some (Panic IndexOutOfRange, r') \<and> ringSq r' = Some t
    \<and> sqWrites t = sqWrites s + 1 \<and> sqTail t = (sqTail s AND sqMask s) + 1"
proof -
  obtain f where "fill_of c (ringIdx r + 1) (SubmitEntry_Reset (sqEntries s ! next_slot s))
      = (Some IndexOutOfRange, f)"
    using fill_of_empty [OF assms(5)] by blast
  then show ?thesis
    using prepare_eq [OF assms(1-3) _ assms(4), of "fill_of c"] by (simp add: dispatch_prepare hand_out_def)
qed

theorem prepare_empty_buffer_leaks_writer_witness:
  "\<exists>r' t. PrepareSend 4 \<lparr>sliceData = 512, sliceLen = 0\<rparr> 0 (sample_ring (sample_sq 2 0 0))
      = Some (Panic IndexOutOfRange, r') \<and> ringSq r' = Some t \<and> sqWrites t = 1"
proof -
  let ?s = "sample_sq 2 0 0" and ?c = "CallSend 4 \<lparr>sliceData = 512, sliceLen = 0\<rparr> 0"
  have "ringSq (sample_ring ?s) = Some ?s" "sq_wf 2 ?s" "sqEntered ?s = 0" "sqWrites ?s + 1 \<noteq> 0"
    "\<not> call_ok ?c"
    by (simp_all add: sample_ring_def sample_sq_def call_ok_def sq_wf_def)
  from prepare_empty_buffer_leaks_writer [OF this] show ?thesis
    by (auto simp: sample_sq_def)
qed

text \<open>
  \<open>PrepareSplice\<close> puts the input descriptor where the kernel reads it: bytes 4 to 7 of the
  entry's tail, little-endian, hold the low 32 bits of \<open>inFd\<close> and the other bytes are zero.
\<close>

lemma splice_input_descriptor:
  "sqeAnon0 (snd (fill_splice inFd inOff inVar outFd outOff outVar n flags uid e)) = anon \<Longrightarrow>
   of_le_bytes (take 4 (drop 4 anon)) = ucast inFd \<and> length anon = 24
   \<and> take 4 anon @ drop 8 anon = replicate 20 0"
  using of_le_bytes_le_bytes [of "ucast inFd"]
  by (auto simp: fill_splice_def splice_anon_def le_bytes_def Let_def replicate_add [symmetric])

lemma splice_input_descriptor_example:
  "of_le_bytes (take 4 (drop 4 (sqeAnon0 (snd (fill_splice 77 0 0 9 0 0 64 0 1 sample_sqe))))) = 77"
  using splice_input_descriptor [OF refl, of 77 0 0 9 0 0 64 0 1 sample_sqe] by simp

text \<open>
  A waiting operation whose request completes with a negative result returns that errno, and
  returns its value otherwise; \<open>Splice\<close> then returns the completion's flags word, not the
  number of bytes moved.
\<close>

lemma Splice_returns_flags:
  assumes "PrepareSplice inFd inOff inVar outFd outOff outVar n flags r = Some (Ok uid, r1)"
    and "reply \<lparr>crId = uid, crRes = 0, crFlags = 0\<rparr> r1 = Some (cr, r2)"
  shows "Ring_Splice reply inFd inOff inVar outFd outOff outVar n flags r =
    Some (if sint (crRes cr) < 0 then Err (Errno (scast (- crRes cr))) else Ok (ucast (crFlags cr)), r2)"
  using assms by (simp add: Ring_Splice_def complete_op_def complete_def)

lemma Splice_returns_flags_example:
  "\<exists>r'. Ring_Splice (\<lambda>cr r. Some (cr\<lparr>crRes := 64\<rparr>, r)) 3 0 0 9 0 0 64 0 (sample_ring (sample_sq 2 0 0))
     = Some (Ok 0, r')"
proof -
  let ?r = "sample_ring (sample_sq 2 0 0)"
  have "ringSq ?r = Some (sample_sq 2 0 0)" "sqEntered (sample_sq 2 0 0) = 0"
    "sqWrites (sample_sq 2 0 0) + 1 \<noteq> 0" "call_ok (CallSplice 3 0 0 9 0 0 64 0)"
    by (simp_all add: sample_ring_def sample_sq_def call_ok_def)
  then obtain r1 where "PrepareSplice 3 0 0 9 0 0 64 0 ?r = Some (Ok (ringIdx ?r + 1), r1)"
    using preps.call_prepared [of ?r "sample_sq 2 0 0" 2 "CallSplice 3 0 0 9 0 0 64 0"] by simp
  from Splice_returns_flags [OF this, of "\<lambda>cr r. Some (cr\<lparr>crRes := 64\<rparr>, r)"] show ?thesis
    by simp
qed

end
