(* ===== verification/Completion.thy ===== *)
theory Completion
  imports Ops
begin

text \<open>
  The completion side of \<open>ring.go\<close>: \<open>onEntry\<close>, which matches the completion queue against
  the requests in flight, the goroutine \<open>run\<close> that drives it, and \<open>getCqe\<close>. The map
  \<open>inflight\<close> of the source is a finite map from ids to requests. The number of entries of a ring
  comes from a \<open>uint32\<close>, so the loop counters do not wrap and are naturals here.
\<close>

section \<open>Matching completions with requests\<close>

text \<open>The variables of \<open>onEntry\<close>, and the requests whose \<open>done\<close> channel was signalled.\<close>

record entry_scan =
  esSeen :: bool
  esSeenIdx :: u32
  esInflight :: "(u64, completionRequest) fmap"
  esDone :: "completionRequest list"

text \<open>The body the two loops share.\<close>

definition on_cqe :: "CompletionEntry \<Rightarrow> entry_scan \<Rightarrow> entry_scan" where
  "on_cqe cqe st =
     (case fmlookup (esInflight st) (cqeUserData cqe) of
        Some cr \<Rightarrow>
          st\<lparr>esSeenIdx := (if esSeen st then esSeenIdx st + 1 else esSeenIdx st),
             esDone := esDone st @ [cr\<lparr>crRes := cqeRes cqe, crFlags := cqeFlags cqe\<rparr>],
             esInflight := fmdrop (crId cr) (esInflight st)\<rparr>
      | None \<Rightarrow> st\<lparr>esSeen := False\<rparr>)"

text \<open>The first loop; the flag says that it reached the tail's slot, where \<open>onEntry\<close> returns.\<close>

function onEntry_first :: "CompletionEntry list \<Rightarrow> nat \<Rightarrow> nat \<Rightarrow> entry_scan \<Rightarrow> bool \<times> entry_scan" where
  "onEntry_first es tailSlot i st =
     (if i < length es then
        let st = on_cqe (es ! i) st
        in if i = tailSlot then (True, st) else onEntry_first es tailSlot (Suc i) st
      else (False, st))"
  by pat_completeness auto
termination
  by (relation "measure (\<lambda>(es, tailSlot, i, st). length es - i)") auto

text \<open>The second loop, up to the tail's slot; a slot past the slice panics.\<close>

function onEntry_second :: "CompletionEntry list \<Rightarrow> nat \<Rightarrow> nat \<Rightarrow> entry_scan \<Rightarrow> unit go \<times> entry_scan" where
  "onEntry_second es tailSlot i st =
     (if i < tailSlot then
        if length es \<le> i then (Panic IndexOutOfRange, st)
        else onEntry_second es tailSlot (Suc i) (on_cqe (es ! i) st)
      else (Ok (), st))"
  by pat_completeness auto
termination
  by (relation "measure (\<lambda>(es, tailSlot, i, st). tailSlot - i)") auto

declare onEntry_first.simps [simp del] onEntry_second.simps [simp del]

text \<open>\<open>onEntry\<close>; its argument \<open>count\<close> is unused. The result has the requests signalled.\<close>

definition onEntry ::
  "(u64, completionRequest) fmap \<Rightarrow> CompletionQueue
   \<Rightarrow> unit go \<times> (u64, completionRequest) fmap \<times> completionRequest list \<times> CompletionQueue" where
  "onEntry inflight c =
     (let msk = cqMask c; head = cqHead c; tail = cqTail c;
          st = \<lparr>esSeen = True, esSeenIdx = 0, esInflight = inflight, esDone = []\<rparr>
      in case onEntry_first (cqEntries c) (unat (tail AND msk)) (unat (head AND msk)) st of
           (True, st) \<Rightarrow> (Ok (), esInflight st, esDone st, c\<lparr>cqHead := head + esSeenIdx st\<rparr>)
         | (False, st) \<Rightarrow>
             (case onEntry_second (cqEntries c) (unat (tail AND msk)) 0 (st\<lparr>esSeen := True\<rparr>) of
                (Ok _, st) \<Rightarrow> (Ok (), esInflight st, esDone st, c\<lparr>cqHead := head + esSeenIdx st\<rparr>)
              | (Err e, st) \<Rightarrow> (Err e, esInflight st, esDone st, c)
              | (Panic p, st) \<Rightarrow> (Panic p, esInflight st, esDone st, c)))"

section \<open>The goroutine\<close>

text \<open>
  The state of \<open>run\<close>: the ring, the kernel, the requests in flight, the tokens in the
  \<open>retry\<close> channel (capacity 2), the requests signalled and the errors given to the handler. The
  goroutine is at the \<open>select\<close>, at a send to \<open>retry\<close>, stopped or panicked.
\<close>

datatype run_pc = AtSelect | SendRetry | Stopped | Panicked gopanic

record 'k run_state =
  rnPc :: run_pc
  rnRing :: Ring
  rnKernel :: 'k
  rnInflight :: "(u64, completionRequest) fmap"
  rnRetry :: nat
  rnDone :: "completionRequest list"
  rnErrs :: "goerror list"

definition retry_cap :: nat where "retry_cap = 2"

text \<open>\<open>r.onEntry(inflight, n)\<close> and the test of \<open>len(inflight)\<close> after it.\<close>

definition run_onEntry :: "'k run_state \<Rightarrow> 'k run_state" where
  "run_onEntry st =
     (case ringCq (rnRing st) of
        None \<Rightarrow> st\<lparr>rnPc := Panicked NilDereference\<rparr>
      | Some c \<Rightarrow>
          (case onEntry (rnInflight st) c of
             (res, inflight, signalled, c) \<Rightarrow>
               st\<lparr>rnInflight := inflight, rnDone := rnDone st @ signalled,
                  rnRing := (rnRing st)\<lparr>ringCq := Some c\<rparr>,
                  rnPc := (case res of Panic p \<Rightarrow> Panicked p
                           | _ \<Rightarrow> if inflight \<noteq> fmempty then SendRetry else AtSelect)\<rparr>))"

text \<open>
  A request is received: it is put in flight and the kernel is entered for all requests in flight.
  \<open>None\<close> is \<open>Enter\<close> waiting for the lock.
\<close>

definition run_receive ::
  "'k ring_mem kernel6 \<Rightarrow> completionRequest \<Rightarrow> 'k run_state \<Rightarrow> 'k run_state option" where
  "run_receive sys cr st =
     (let inflight = fmupd (crId cr) cr (rnInflight st)
      in case Ring_Enter sys (of_nat (fcard (fmdom inflight))) 0 EnterGetEvents 0
                (rnRing st) (rnKernel st) of
           None \<Rightarrow> None
         | Some (res, r, k) \<Rightarrow>
             Some (st\<lparr>rnInflight := inflight, rnRing := r, rnKernel := k,
               rnErrs := (case res of Err e \<Rightarrow> if ringErrHandler r then rnErrs st @ [e] else rnErrs st
                          | _ \<Rightarrow> rnErrs st),
               rnPc := (case res of Panic p \<Rightarrow> Panicked p | _ \<Rightarrow> rnPc st)\<rparr>))"

definition pop_completion :: "'k run_state \<Rightarrow> 'k run_state" where
  "pop_completion st = st\<lparr>rnRing := (rnRing st)\<lparr>ringCompletions := tl (ringCompletions (rnRing st))\<rparr>\<rparr>"

text \<open>After a receive the goroutine goes on to \<open>onEntry\<close> unless \<open>Enter\<close> panicked.\<close>

definition run_after :: "'k run_state \<Rightarrow> 'k run_state" where
  "run_after st = (if rnPc st = AtSelect then run_onEntry st else st)"

text \<open>
  One turn of the loop, with the choice among the ready cases of the \<open>select\<close> left open, the
  send to \<open>retry\<close> as a step of its own, and the steps of others: a caller's request arrives
  (the channel holds one per completion entry) and the kernel posts completions. Nothing in the
  package sends on the ring's \<open>stop\<close> channel, so no step does.
\<close>

inductive run_step :: "'k ring_mem kernel6 \<Rightarrow> 'k run_state \<Rightarrow> 'k run_state \<Rightarrow> bool"
  for sys :: "'k ring_mem kernel6" where
  run_stop:
    "rnPc st = AtSelect \<Longrightarrow> 0 < ringStop (rnRing st) \<Longrightarrow>
     run_step sys st (st\<lparr>rnPc := Stopped,
       rnRing := (rnRing st)\<lparr>ringStop := ringStop (rnRing st) - 1\<rparr>\<rparr>)"
| run_completion:
    "rnPc st = AtSelect \<Longrightarrow> ringCompletions (rnRing st) = cr # crs \<Longrightarrow>
     run_receive sys cr (pop_completion st) = Some st' \<Longrightarrow>
     run_step sys st (run_after st')"
| run_retry_receive:
    "rnPc st = AtSelect \<Longrightarrow> 0 < rnRetry st \<Longrightarrow> ringCompletions (rnRing st) = cr # crs \<Longrightarrow>
     run_receive sys cr (pop_completion (st\<lparr>rnRetry := rnRetry st - 1\<rparr>)) = Some st' \<Longrightarrow>
     run_step sys st (run_after st')"
| run_retry_default:
    "rnPc st = AtSelect \<Longrightarrow> 0 < rnRetry st \<Longrightarrow> ringCompletions (rnRing st) = [] \<Longrightarrow>
     run_step sys st (run_onEntry (st\<lparr>rnRetry := rnRetry st - 1\<rparr>))"
| run_send_retry:
    "rnPc st = SendRetry \<Longrightarrow> rnRetry st < retry_cap \<Longrightarrow>
     run_step sys st (st\<lparr>rnPc := AtSelect, rnRetry := rnRetry st + 1\<rparr>)"
| run_request_arrives:
    "ringCq (rnRing st) = Some c \<Longrightarrow> length (ringCompletions (rnRing st)) < length (cqEntries c) \<Longrightarrow>
     run_step sys st
       (st\<lparr>rnRing := (rnRing st)\<lparr>ringCompletions := ringCompletions (rnRing st) @ [cr]\<rparr>\<rparr>)"
| run_kernel_posts:
    "ringCq (rnRing st) = Some c \<Longrightarrow> length es = length (cqEntries c) \<Longrightarrow>
     run_step sys st
       (st\<lparr>rnRing := (rnRing st)\<lparr>ringCq := Some (c\<lparr>cqTail := tl', cqEntries := es\<rparr>)\<rparr>, rnKernel := k\<rparr>)"

definition run_init :: "'k run_state \<Rightarrow> bool" where
  "run_init st \<longleftrightarrow> rnPc st = AtSelect \<and> rnInflight st = fmempty \<and> rnRetry st = 0 \<and> rnDone st = []"

section \<open>Polling for one completion\<close>

text \<open>
  \<open>getCqe\<close>: \<open>obs n\<close> is the queue as the \<open>n\<close>-th pass over it sees it, so each attempt
  uses two observations; \<open>goto findCqe\<close> starts the next attempt. \<open>None\<close> is polling forever.
\<close>

definition cqe_result :: "CompletionEntry \<Rightarrow> (i32 \<times> u32) go" where
  "cqe_result cqe =
     (if sint (cqeRes cqe) < 0 then Err (Errno (scast (- cqeRes cqe))) else Ok (cqeRes cqe, cqeFlags cqe))"

datatype poll_result = PollHit CompletionEntry | PollAgain | PollMiss | PollPanic

text \<open>The first loop; \<open>PollAgain\<close> is its \<open>goto\<close>. The return after the \<open>goto\<close> is dead.\<close>

function getCqe_first :: "CompletionEntry list \<Rightarrow> u64 \<Rightarrow> nat \<Rightarrow> nat \<Rightarrow> poll_result" where
  "getCqe_first es reqID end x =
     (if x < length es then
        if cqeUserData (es ! x) = reqID then PollHit (es ! x)
        else if x = end then PollAgain
        else getCqe_first es reqID end (Suc x)
      else PollMiss)"
  by pat_completeness auto
termination
  by (relation "measure (\<lambda>(es, reqID, end, x). length es - x)") auto

function getCqe_second :: "CompletionEntry list \<Rightarrow> u64 \<Rightarrow> nat \<Rightarrow> nat \<Rightarrow> poll_result" where
  "getCqe_second es reqID end x =
     (if x < end then
        if length es \<le> x then PollPanic
        else if cqeUserData (es ! x) = reqID then PollHit (es ! x)
        else if x = end then PollAgain
        else getCqe_second es reqID end (Suc x)
      else PollMiss)"
  by pat_completeness auto
termination
  by (relation "measure (\<lambda>(es, reqID, end, x). end - x)") auto

declare getCqe_first.simps [simp del] getCqe_second.simps [simp del]

partial_function (option) getCqe ::
  "(nat \<Rightarrow> CompletionQueue) \<Rightarrow> nat \<Rightarrow> u64 \<Rightarrow> (i32 \<times> u32) go option" where
  "getCqe obs n reqID =
     (let c = obs n
      in case getCqe_first (cqEntries c) reqID (unat (cqTail c AND cqMask c)) (unat (cqHead c AND cqMask c)) of
           PollHit cqe \<Rightarrow> Some (cqe_result cqe)
         | PollAgain \<Rightarrow> getCqe obs (Suc (Suc n)) reqID
         | PollPanic \<Rightarrow> Some (Panic IndexOutOfRange)
         | PollMiss \<Rightarrow>
             (let c = obs (Suc n)
              in case getCqe_second (cqEntries c) reqID (unat (cqTail c AND cqMask c)) 0 of
                   PollHit cqe \<Rightarrow> Some (cqe_result cqe)
                 | PollAgain \<Rightarrow> getCqe obs (Suc (Suc n)) reqID
                 | PollPanic \<Rightarrow> Some (Panic IndexOutOfRange)
                 | PollMiss \<Rightarrow> Some (Err errCQEMissing)))"

section \<open>The loops as folds\<close>

definition scan_cqes :: "CompletionEntry list \<Rightarrow> entry_scan \<Rightarrow> entry_scan" where
  "scan_cqes = fold on_cqe"

lemma scan_cqes_simps [simp]:
  "scan_cqes [] st = st" "scan_cqes (e # es) st = scan_cqes es (on_cqe e st)"
  by (simp_all add: scan_cqes_def)

lemma onEntry_first_eq:
  "onEntry_first es t i st =
     (if i \<le> t \<and> t < length es then (True, scan_cqes (window es i (Suc t)) st)
      else (False, scan_cqes (window es i (length es)) st))"
proof (induction es t i st rule: onEntry_first.induct)
  case (1 es t i st)
  show ?case
  proof (cases "i < length es")
    case True
    then show ?thesis
      using 1 by (subst onEntry_first.simps) (auto simp: Let_def window_step)
  qed (subst onEntry_first.simps, simp)
qed

lemma onEntry_second_eq:
  "t \<le> length es \<Longrightarrow> onEntry_second es t i st = (Ok (), scan_cqes (window es i t) st)"
proof (induction es t i st rule: onEntry_second.induct)
  case (1 es t i st)
  then show ?case
    by (subst onEntry_second.simps) (simp add: window_step)
qed

text \<open>The entries a call of \<open>onEntry\<close> looks at: before and after the end of the ring.\<close>

definition cq_slot :: "u32 \<Rightarrow> CompletionQueue \<Rightarrow> nat" where
  "cq_slot x c = unat (x AND cqMask c)"

definition first_pass :: "CompletionQueue \<Rightarrow> CompletionEntry list" where
  "first_pass c =
     (if cq_slot (cqHead c) c \<le> cq_slot (cqTail c) c
      then window (cqEntries c) (cq_slot (cqHead c) c) (Suc (cq_slot (cqTail c) c))
      else window (cqEntries c) (cq_slot (cqHead c) c) (length (cqEntries c)))"

definition second_pass :: "CompletionQueue \<Rightarrow> CompletionEntry list" where
  "second_pass c =
     (if cq_slot (cqHead c) c \<le> cq_slot (cqTail c) c then []
      else window (cqEntries c) 0 (cq_slot (cqTail c) c))"

definition scan_start :: "(u64, completionRequest) fmap \<Rightarrow> entry_scan" where
  "scan_start inflight = \<lparr>esSeen = True, esSeenIdx = 0, esInflight = inflight, esDone = []\<rparr>"

definition scan_all :: "(u64, completionRequest) fmap \<Rightarrow> CompletionQueue \<Rightarrow> entry_scan" where
  "scan_all inflight c =
     scan_cqes (second_pass c) ((scan_cqes (first_pass c) (scan_start inflight))\<lparr>esSeen := True\<rparr>)"

lemma on_cqe_None:
  "fmlookup (esInflight st) (cqeUserData e) = None \<Longrightarrow> on_cqe e st = st\<lparr>esSeen := False\<rparr>"
  by (simp add: on_cqe_def)

lemma on_cqe_Some:
  assumes "fmlookup (esInflight st) (cqeUserData e) = Some cr"
  shows "esInflight (on_cqe e st) = fmdrop (crId cr) (esInflight st)"
    "esDone (on_cqe e st) = esDone st @ [cr\<lparr>crRes := cqeRes e, crFlags := cqeFlags e\<rparr>]"
    "esSeen (on_cqe e st) = esSeen st"
    "esSeenIdx (on_cqe e st) = (if esSeen st then esSeenIdx st + 1 else esSeenIdx st)"
  by (simp_all add: on_cqe_def assms)

lemma onEntry_eq:
  assumes "cq_wf k c"
  shows "onEntry inflight c = (Ok (), esInflight (scan_all inflight c), esDone (scan_all inflight c),
    c\<lparr>cqHead := cqHead c + esSeenIdx (scan_all inflight c)\<rparr>)"
proof -
  have "cq_slot (cqTail c) c < length (cqEntries c)"
    using cq_ring.slot_less [OF assms] by (simp add: cq_slot_def)
  then show ?thesis
    by (auto simp: onEntry_def Let_def onEntry_first_eq onEntry_second_eq scan_all_def scan_start_def
        first_pass_def second_pass_def cq_slot_def)
qed

section \<open>What a scan delivers\<close>

text \<open>The keys of the map are the ids of its requests.\<close>

definition keyed :: "(u64, completionRequest) fmap \<Rightarrow> bool" where
  "keyed m \<longleftrightarrow> (\<forall>u cr. fmlookup m u = Some cr \<longrightarrow> crId cr = u)"

lemma keyed_fmupd: "keyed m \<Longrightarrow> keyed (fmupd (crId cr) cr m)"
  by (auto simp: keyed_def)

text \<open>The requests signalled for a list of entries, in order: each id once, by its first entry.\<close>

fun deliveries :: "(u64, completionRequest) fmap \<Rightarrow> CompletionEntry list \<Rightarrow> completionRequest list" where
  "deliveries m [] = []"
| "deliveries m (e # es) =
     (case fmlookup m (cqeUserData e) of
        None \<Rightarrow> deliveries m es
      | Some cr \<Rightarrow> cr\<lparr>crRes := cqeRes e, crFlags := cqeFlags e\<rparr>
          # deliveries (fmdrop (cqeUserData e) m) es)"

lemma keyed_fmdrop: "keyed m \<Longrightarrow> keyed (fmdrop u m)"
  by (auto simp: keyed_def)

lemma scan_delivers:
  "keyed (esInflight st) \<Longrightarrow> esDone (scan_cqes es st) = esDone st @ deliveries (esInflight st) es"
proof (induction es arbitrary: st)
  case (Cons e es)
  show ?case
  proof (cases "fmlookup (esInflight st) (cqeUserData e)")
    case None
    with Cons.IH [of "st\<lparr>esSeen := False\<rparr>"] Cons.prems show ?thesis
      by (simp add: on_cqe_None)
  next
    case (Some cr)
    then have "crId cr = cqeUserData e" using Cons.prems by (simp add: keyed_def)
    with Some Cons.IH [of "on_cqe e st"] Cons.prems show ?thesis
      by (simp add: on_cqe_Some keyed_fmdrop)
  qed
qed simp

lemma scan_inflight:
  "keyed (esInflight st) \<Longrightarrow>
   fmlookup (esInflight (scan_cqes es st)) u =
     (if u \<in> cqeUserData ` set es then None else fmlookup (esInflight st) u)"
proof (induction es arbitrary: st)
  case (Cons e es)
  show ?case
  proof (cases "fmlookup (esInflight st) (cqeUserData e)")
    case None
    with Cons.IH [of "st\<lparr>esSeen := False\<rparr>"] Cons.prems show ?thesis
      by (auto simp: on_cqe_None)
  next
    case (Some cr)
    then have "crId cr = cqeUserData e" using Cons.prems by (simp add: keyed_def)
    with Some Cons.IH [of "on_cqe e st"] Cons.prems show ?thesis
      by (auto simp: on_cqe_Some keyed_fmdrop)
  qed
qed simp

lemma deliveries_from_inflight:
  "keyed m \<Longrightarrow> cr \<in> set (deliveries m es) \<Longrightarrow>
   \<exists>e \<in> set es. \<exists>req. fmlookup m (cqeUserData e) = Some req
     \<and> cr = req\<lparr>crRes := cqeRes e, crFlags := cqeFlags e\<rparr>"
proof (induction es arbitrary: m)
  case (Cons e es)
  have "keyed (fmdrop u m)" for u
    using Cons.prems(1) by (rule keyed_fmdrop)
  then show ?case
    using Cons by (fastforce split: option.splits if_splits)
qed simp

lemma deliveries_ids:
  "keyed m \<Longrightarrow> distinct (map crId (deliveries m es))
   \<and> set (map crId (deliveries m es)) = {u. u \<in> cqeUserData ` set es \<and> fmlookup m u \<noteq> None}"
proof (induction es arbitrary: m)
  case (Cons e es)
  have "keyed (fmdrop u m)" for u
    using Cons.prems by (rule keyed_fmdrop)
  note IH = Cons.IH [OF this, of "cqeUserData e"] Cons.IH [OF Cons.prems]
  show ?case
  proof (cases "fmlookup m (cqeUserData e)")
    case None
    then show ?thesis using IH(2) by auto
  next
    case (Some cr)
    then have "crId cr = cqeUserData e" using Cons.prems by (simp add: keyed_def)
    with Some IH(1) show ?thesis by (auto split: if_splits)
  qed
qed simp

section \<open>How far a scan moves the head\<close>

text \<open>The leading entries that answer a request in flight.\<close>

fun lead :: "(u64, completionRequest) fmap \<Rightarrow> CompletionEntry list \<Rightarrow> nat" where
  "lead m [] = 0"
| "lead m (e # es) =
     (case fmlookup m (cqeUserData e) of
        None \<Rightarrow> 0 | Some _ \<Rightarrow> Suc (lead (fmdrop (cqeUserData e) m) es))"

lemma scan_unseen: "\<not> esSeen st \<Longrightarrow> esSeenIdx (scan_cqes es st) = esSeenIdx st"
proof (induction es arbitrary: st)
  case (Cons e es)
  have "\<not> esSeen (on_cqe e st)" "esSeenIdx (on_cqe e st) = esSeenIdx st"
    using Cons.prems by (auto simp: on_cqe_def split: option.split)
  with Cons.IH show ?case by simp
qed simp

lemma scan_seenIdx:
  "keyed (esInflight st) \<Longrightarrow> esSeen st \<Longrightarrow>
   esSeenIdx (scan_cqes es st) = esSeenIdx st + of_nat (lead (esInflight st) es)"
proof (induction es arbitrary: st)
  case (Cons e es)
  show ?case
  proof (cases "fmlookup (esInflight st) (cqeUserData e)")
    case None
    then show ?thesis by (simp add: on_cqe_None scan_unseen)
  next
    case (Some cr)
    then have "crId cr = cqeUserData e" using Cons.prems by (simp add: keyed_def)
    with Some Cons.IH [of "on_cqe e st"] Cons.prems show ?thesis
      by (simp add: on_cqe_Some keyed_fmdrop)
  qed
qed simp

lemma lead_le: "lead m es \<le> length es"
  by (induction es arbitrary: m) (auto split: option.split)

lemma lead_matched: "j < lead m es \<Longrightarrow> fmlookup m (cqeUserData (es ! j)) \<noteq> None"
proof (induction es arbitrary: m j)
  case (Cons e es)
  then show ?case
    by (cases j) (auto split: option.splits if_splits, metis fmlookup_drop option.distinct(1))
qed simp

lemma lead_stops:
  "lead m es < length es \<longrightarrow> fmlookup m (cqeUserData (es ! lead m es)) = None
     \<or> cqeUserData (es ! lead m es) \<in> (\<lambda>j. cqeUserData (es ! j)) ` {..< lead m es}"
proof (induction es arbitrary: m)
  case (Cons e es)
  show ?case
  proof (cases "fmlookup m (cqeUserData e)")
    case (Some cr)
    let ?m = "fmdrop (cqeUserData e) m"
    let ?n = "lead ?m es"
    have "fmlookup m (cqeUserData (es ! ?n)) = None \<or> cqeUserData (es ! ?n) = cqeUserData e
        \<or> cqeUserData (es ! ?n) \<in> (\<lambda>j. cqeUserData (es ! j)) ` {..< ?n}" if "?n < length es"
      using Cons.IH [of ?m] that by (auto split: if_splits)
    moreover have "(\<lambda>j. cqeUserData ((e # es) ! j)) ` {..< Suc ?n}
        = insert (cqeUserData e) ((\<lambda>j. cqeUserData (es ! j)) ` {..< ?n})"
      by (simp add: lessThan_Suc_eq_insert_0 image_image)
    ultimately show ?thesis using Some by auto
  qed simp
qed simp

text \<open>The requests left after the first pass decide what the second pass matches.\<close>

lemma scan_all_seenIdx:
  assumes "keyed m"
  shows "esSeenIdx (scan_all m c) = of_nat (lead m (first_pass c)
    + lead (esInflight (scan_cqes (first_pass c) (scan_start m))) (second_pass c))"
proof -
  have "keyed (esInflight (scan_cqes (first_pass c) (scan_start m)))"
    using scan_inflight [of "scan_start m"] assms by (auto simp: keyed_def scan_start_def split: if_splits)
  moreover have "esSeenIdx (scan_cqes (first_pass c) (scan_start m)) = of_nat (lead m (first_pass c))"
    using scan_seenIdx [of "scan_start m" "first_pass c"] assms by (simp add: scan_start_def)
  ultimately show ?thesis
    by (simp add: scan_all_def scan_seenIdx)
qed

definition visited :: "CompletionQueue \<Rightarrow> CompletionEntry list" where
  "visited c = first_pass c @ second_pass c"

lemma scan_all_delivers:
  assumes "keyed m"
  shows "esDone (scan_all m c) = deliveries m (visited c)"
    "fmlookup (esInflight (scan_all m c)) u =
       (if u \<in> cqeUserData ` set (visited c) then None else fmlookup m u)"
proof -
  have seen: "esInflight (scan_cqes es (st\<lparr>esSeen := True\<rparr>)) = esInflight (scan_cqes es st)
      \<and> esDone (scan_cqes es (st\<lparr>esSeen := True\<rparr>)) = esDone (scan_cqes es st)"
    if "keyed (esInflight st)" for es st
    using that scan_delivers [of "st\<lparr>esSeen := True\<rparr>" es] scan_delivers [of st es]
      scan_inflight [of "st\<lparr>esSeen := True\<rparr>" es] scan_inflight [of st es]
    by (auto intro!: fmap_ext)
  have keyed: "keyed (esInflight (scan_cqes (first_pass c) (scan_start m)))"
    using scan_inflight [of "scan_start m"] assms by (auto simp: keyed_def scan_start_def split: if_splits)
  have both: "scan_cqes (second_pass c) (scan_cqes (first_pass c) (scan_start m))
      = scan_cqes (visited c) (scan_start m)"
    by (simp add: scan_cqes_def visited_def)
  show "esDone (scan_all m c) = deliveries m (visited c)"
    using seen [OF keyed] both scan_delivers [of "scan_start m" "visited c"] assms
    by (simp add: scan_all_def scan_start_def)
  show "fmlookup (esInflight (scan_all m c)) u =
       (if u \<in> cqeUserData ` set (visited c) then None else fmlookup m u)"
    using seen [OF keyed] both scan_inflight [of "scan_start m" "visited c" u] assms
    by (simp add: scan_all_def scan_start_def)
qed

text \<open>Unless the ring is full, every published completion is visited.\<close>

lemma window_mem: "i \<le> n \<Longrightarrow> n < j \<Longrightarrow> n < length xs \<Longrightarrow> xs ! n \<in> set (window xs i j)"
  using window_nth [of i "n - i" j xs] nth_mem [of "n - i" "window xs i j"]
  by (simp add: diff_less_mono)

lemma published_visited:
  assumes wf: "cq_wf k c" and j: "j < unat (cqTail c - cqHead c)" and n: "unat (cqTail c - cqHead c) < 2 ^ k"
  shows "cqEntries c ! ((unat (cqHead c) + j) mod 2 ^ k) \<in> set (visited c)"
proof -
  define N where "N = (2 :: nat) ^ k"
  define h where "h = cq_slot (cqHead c) c"
  define d where "d = unat (cqTail c - cqHead c)"
  have len: "length (cqEntries c) = N" and h: "h = unat (cqHead c) mod N"
    using cq_ring.wf_slots [OF wf] cq_ring.unat_slot [OF wf] by (simp_all add: N_def h_def cq_slot_def)
  have "0 < N" by (simp add: N_def)
  then have hN: "h < N" by (simp add: h)
  have "cqTail c = cqHead c + of_nat d" by (simp add: d_def)
  then have t: "cq_slot (cqTail c) c = (h + d) mod N"
    using cq_ring.unat_slot_add [OF wf, of "cqHead c" d] len by (simp add: cq_slot_def h mod_add_left_eq)
  have jd: "j < d" "d < N" using j n by (simp_all add: d_def N_def)
  have slot: "(unat (cqHead c) + j) mod N = (h + j) mod N" by (simp add: h mod_add_left_eq)
  show ?thesis
  proof (cases "h + d < N")
    case True
    then show ?thesis
      using jd len t slot window_mem [of h "h + j" "Suc (h + d)" "cqEntries c"]
      by (simp add: visited_def first_pass_def h_def [symmetric] N_def [symmetric])
  next
    case False
    then have t': "cq_slot (cqTail c) c = h + d - N" "h + d - N < h"
      using t jd hN by (simp_all add: mod_if [of "h + d"])
    show ?thesis
    proof (cases "h + j < N")
      case True
      then show ?thesis
        using t' jd len slot window_mem [of h "h + j" N "cqEntries c"]
        by (simp add: visited_def first_pass_def h_def [symmetric] N_def [symmetric])
    next
      case False
      then have "(h + j) mod N = h + j - N" "h + j - N < h + d - N" "h + j - N < N"
        using jd hN by (simp_all add: mod_if)
      then show ?thesis
        using t' jd len slot False window_mem [of 0 "h + j - N" "h + d - N" "cqEntries c"]
        by (simp add: visited_def second_pass_def h_def [symmetric] N_def [symmetric])
    qed
  qed
qed

section \<open>Invariants of the goroutine\<close>

text \<open>
  What \<open>run\<close> keeps: at most \<open>retry_cap\<close> tokens, the map keyed by ids, and a token whenever
  the goroutine waits at its \<open>select\<close> with requests in flight.
\<close>

definition run_inv :: "'k run_state \<Rightarrow> bool" where
  "run_inv st \<longleftrightarrow> rnRetry st \<le> retry_cap \<and> keyed (rnInflight st)
     \<and> (rnPc st = AtSelect \<longrightarrow> rnInflight st \<noteq> fmempty \<longrightarrow> 0 < rnRetry st)"

lemma keyed_on_cqe: "keyed (esInflight st) \<Longrightarrow> keyed (esInflight (on_cqe e st))"
  by (auto simp: on_cqe_def keyed_def split: option.split)

lemma keyed_onEntry_first:
  "keyed (esInflight st) \<Longrightarrow> onEntry_first es t i st = (b, st') \<Longrightarrow> keyed (esInflight st')"
proof (induction es t i st rule: onEntry_first.induct)
  case (1 es t i st)
  from 1(3) show ?case
    by (subst (asm) onEntry_first.simps)
      (use 1(1,2) keyed_on_cqe [of st "es ! i"] in \<open>auto simp: Let_def split: if_splits\<close>)
qed

lemma keyed_onEntry_second:
  "keyed (esInflight st) \<Longrightarrow> onEntry_second es t i st = (b, st') \<Longrightarrow> keyed (esInflight st')"
proof (induction es t i st rule: onEntry_second.induct)
  case (1 es t i st)
  from 1(3) show ?case
    by (subst (asm) onEntry_second.simps)
      (use 1(1,2) keyed_on_cqe [of st "es ! i"] in \<open>auto split: if_splits\<close>)
qed

lemma keyed_onEntry:
  assumes "keyed m" "onEntry m c = (res, m', done, c')"
  shows "keyed m'"
  using assms
  by (auto simp: onEntry_def Let_def split: prod.splits bool.splits go.splits
      dest!: keyed_onEntry_first [rotated] keyed_onEntry_second [rotated])

lemma keyed_run_onEntry: "keyed (rnInflight st) \<Longrightarrow> keyed (rnInflight (run_onEntry st))"
  by (auto simp: run_onEntry_def split: option.split prod.split dest: keyed_onEntry)

lemma keyed_run_receive:
  "run_receive sys cr st = Some st' \<Longrightarrow> keyed (rnInflight st) \<Longrightarrow> keyed (rnInflight st')"
  by (auto simp: run_receive_def Let_def keyed_fmupd split: option.splits)

lemma run_onEntry_pc:
  "rnPc (run_onEntry st) = AtSelect \<Longrightarrow> rnInflight (run_onEntry st) = fmempty"
  "rnRetry (run_onEntry st) = rnRetry st"
  by (auto simp: run_onEntry_def split: option.splits prod.splits go.splits if_splits)

lemma run_after_pc:
  "rnPc (run_after st) = AtSelect \<Longrightarrow> rnInflight (run_after st) = fmempty"
  "rnRetry (run_after st) = rnRetry st"
  by (auto simp: run_after_def run_onEntry_pc split: if_splits)

lemma run_receive_retry: "run_receive sys cr st = Some st' \<Longrightarrow> rnRetry st' = rnRetry st"
  by (auto simp: run_receive_def Let_def split: option.splits)

lemma keyed_run_after: "keyed (rnInflight st) \<Longrightarrow> keyed (rnInflight (run_after st))"
  by (simp add: run_after_def keyed_run_onEntry)

lemma run_inv_step: "run_step sys st st' \<Longrightarrow> run_inv st \<Longrightarrow> run_inv st'"
proof (induction rule: run_step.induct)
  case (run_completion st cr crs st')
  then show ?case
    using run_after_pc [of st'] run_receive_retry [of sys cr "pop_completion st" st']
      keyed_run_after [of st'] keyed_run_receive [of sys cr "pop_completion st" st']
    by (simp add: run_inv_def pop_completion_def)
next
  case (run_retry_receive st cr crs st')
  then show ?case
    using run_after_pc [of st']
      run_receive_retry [of sys cr "pop_completion (st\<lparr>rnRetry := rnRetry st - 1\<rparr>)" st']
      keyed_run_receive [of sys cr "pop_completion (st\<lparr>rnRetry := rnRetry st - 1\<rparr>)" st']
      keyed_run_after [of st']
    by (auto simp: run_inv_def pop_completion_def)
next
  case (run_retry_default st)
  then show ?case
    using run_onEntry_pc [of "st\<lparr>rnRetry := rnRetry st - 1\<rparr>"]
      keyed_run_onEntry [of "st\<lparr>rnRetry := rnRetry st - 1\<rparr>"]
    by (auto simp: run_inv_def)
qed (auto simp: run_inv_def)

interpretation run_system: invariant_system run_init "run_step sys" run_inv for sys
  by unfold_locales (simp add: run_init_def run_inv_def keyed_def, rule run_inv_step)

text \<open>A goroutine that sends to a full \<open>retry\<close> channel stays there.\<close>

definition run_blocked :: "'k run_state \<Rightarrow> bool" where
  "run_blocked st \<longleftrightarrow> rnPc st = SendRetry \<and> rnRetry st = retry_cap"

lemma run_blocked_step:
  assumes "run_step sys st st'" "run_blocked st"
  shows "run_blocked st' \<and> rnInflight st' = rnInflight st \<and> rnDone st' = rnDone st"
  using assms by (induction rule: run_step.induct) (auto simp: run_blocked_def)

lemma run_blocked_forever:
  assumes "(run_step sys)\<^sup>*\<^sup>* st st'" "run_blocked st"
  shows "run_blocked st' \<and> rnInflight st' = rnInflight st \<and> rnDone st' = rnDone st"
  using assms by (induction rule: rtranclp_induct) (auto dest: run_blocked_step)

text \<open>A turn that receives a request the kernel does not complete.\<close>

lemma onEntry_no_match:
  assumes "cq_wf k c" "keyed m" "\<forall>e \<in> set (cqEntries c). fmlookup m (cqeUserData e) = None"
  shows "onEntry m c = (Ok (), m, [], c)"
proof -
  have sub: "set (visited c) \<subseteq> set (cqEntries c)"
    using set_window_subset [of "cqEntries c"] by (auto simp: visited_def first_pass_def second_pass_def)
  have "lead m es = 0" if "set es \<subseteq> set (cqEntries c)" for es
    using that assms(3) by (cases es) auto
  then have fp: "lead m (first_pass c) = 0" "lead m (second_pass c) = 0"
    using sub by (auto simp: visited_def)
  have inf: "fmlookup (esInflight (scan_cqes (first_pass c) (scan_start m))) u = fmlookup m u" for u
    using scan_inflight [of "scan_start m" "first_pass c" u] assms sub
    by (auto simp: scan_start_def visited_def)
  have "deliveries m es = []" if "set es \<subseteq> set (cqEntries c)" for es
    using that assms(3) by (induction es) auto
  then have "esDone (scan_all m c) = []"
    using scan_all_delivers(1) [OF assms(2)] sub by simp
  moreover have "esInflight (scan_all m c) = m"
    using scan_all_delivers(2) [OF assms(2)] assms(3) sub by (intro fmap_ext) auto
  moreover have "esInflight (scan_cqes (first_pass c) (scan_start m)) = m"
    using inf by (rule fmap_ext)
  ultimately show ?thesis
    using onEntry_eq [OF assms(1), of m] scan_all_seenIdx [OF assms(2), of c] fp by simp
qed

text \<open>A ring whose completion entries are all blank, and a turn of \<open>run\<close> on it.\<close>

definition quiet_ring :: "Ring \<Rightarrow> bool" where
  "quiet_ring r \<longleftrightarrow> (\<exists>s c k. ringSq r = Some s \<and> sqEntered s = 0 \<and> ringCq r = Some c \<and> cq_wf k c
     \<and> (\<forall>e \<in> set (cqEntries c). cqeUserData e = 0))"

lemma quiet_turn:
  assumes pc: "rnPc st = AtSelect" and cr: "ringCompletions (rnRing st) = cr # crs"
    and quiet: "quiet_ring (rnRing st)" and keyed: "keyed (rnInflight st)"
    and zero: "fmlookup (rnInflight st) 0 = None" "crId cr \<noteq> 0"
  shows "\<exists>st'. run_step idle_kernel st st' \<and> rnPc st' = SendRetry \<and> rnRetry st' = rnRetry st
    \<and> rnInflight st' = fmupd (crId cr) cr (rnInflight st) \<and> rnDone st' = rnDone st
    \<and> ringCompletions (rnRing st') = crs \<and> quiet_ring (rnRing st')"
proof -
  define m where "m = fmupd (crId cr) cr (rnInflight st)"
  obtain s c k where ring: "ringSq (rnRing st) = Some s" "sqEntered s = 0" "ringCq (rnRing st) = Some c"
      and wf: "cq_wf k c" and blank: "\<forall>e \<in> set (cqEntries c). cqeUserData e = 0"
    using quiet by (auto simp: quiet_ring_def)
  have "Ring_Enter idle_kernel n 0 EnterGetEvents 0 (rnRing (pop_completion st)) k' =
      Some (Ok 0, (rnRing (pop_completion st))\<lparr>ringSq := Some (s\<lparr>sqEntered := 0\<rparr>), ringCq := Some c\<rparr>, k')"
    for n and k' :: 'a
    using ring by (simp add: Ring_Enter_def pop_completion_def enterLock_free Enter_def idle_kernel_def
        Enter_result_def enterUnlock_def)
  then obtain st1 where recv: "run_receive idle_kernel cr (pop_completion st) = Some st1"
      and st1: "rnPc st1 = AtSelect" "rnRetry st1 = rnRetry st" "rnInflight st1 = m"
        "rnDone st1 = rnDone st" "ringCompletions (rnRing st1) = crs" "ringCq (rnRing st1) = Some c"
        "ringSq (rnRing st1) = Some (s\<lparr>sqEntered := 0\<rparr>)"
    using pc cr by (auto simp: run_receive_def Let_def pop_completion_def m_def)
  have "onEntry m c = (Ok (), m, [], c)"
    using onEntry_no_match [OF wf, of m] keyed_fmupd [OF keyed, of cr] blank zero
    by (simp add: m_def)
  moreover have "m \<noteq> fmempty"
    by (metis fmempty_lookup fmupd_lookup m_def option.distinct(1))
  ultimately have "rnPc (run_after st1) = SendRetry \<and> rnRetry (run_after st1) = rnRetry st
      \<and> rnInflight (run_after st1) = m \<and> rnDone (run_after st1) = rnDone st
      \<and> ringCompletions (rnRing (run_after st1)) = crs \<and> quiet_ring (rnRing (run_after st1))"
    using st1 wf blank by (auto simp: run_after_def run_onEntry_def quiet_ring_def)
  then show ?thesis
    using run_completion [OF pc cr recv] m_def by blast
qed

section \<open>Polling\<close>

lemma getCqe_first_eq:
  "getCqe_first es u end x =
     (case find (\<lambda>e. cqeUserData e = u)
             (if x \<le> end \<and> end < length es then window es x (Suc end) else window es x (length es)) of
        Some e \<Rightarrow> PollHit e
      | None \<Rightarrow> if x \<le> end \<and> end < length es then PollAgain else PollMiss)"
proof (induction es u "end" x rule: getCqe_first.induct)
  case (1 es u "end" x)
  then show ?case
    by (subst getCqe_first.simps) (auto simp: window_step)
qed

lemma getCqe_second_eq:
  "end \<le> length es \<Longrightarrow> getCqe_second es u end x =
     (case find (\<lambda>e. cqeUserData e = u) (window es x end) of Some e \<Rightarrow> PollHit e | None \<Rightarrow> PollMiss)"
proof (induction es u "end" x rule: getCqe_second.induct)
  case (1 es u "end" x)
  then show ?case
    by (subst getCqe_second.simps) (auto simp: window_step)
qed

text \<open>An attempt of \<open>getCqe\<close> on a queue that does not change during it.\<close>

lemma getCqe_attempt:
  assumes "cq_wf k c" "obs n = c" "obs (Suc n) = c"
  shows "getCqe obs n u =
    (case find (\<lambda>e. cqeUserData e = u) (visited c) of
       Some e \<Rightarrow> Some (cqe_result e)
     | None \<Rightarrow> if cq_slot (cqHead c) c \<le> cq_slot (cqTail c) c then getCqe obs (Suc (Suc n)) u
               else Some (Err errCQEMissing))"
proof -
  have "cq_slot (cqTail c) c < length (cqEntries c)"
    using cq_ring.slot_less [OF assms(1)] by (simp add: cq_slot_def)
  then show ?thesis
    using assms(2,3)
    by (subst getCqe.simps)
      (auto simp: Let_def getCqe_first_eq getCqe_second_eq visited_def first_pass_def second_pass_def
        find_append cq_slot_def split: option.splits)
qed

lemma getCqe_spins:
  assumes "cq_wf k c" "cq_slot (cqHead c) c \<le> cq_slot (cqTail c) c"
    and "find (\<lambda>e. cqeUserData e = u) (visited c) = None"
  shows "getCqe (\<lambda>_. c) n u = None"
proof -
  have "cq_slot (cqTail c) c < length (cqEntries c)"
    using cq_ring.slot_less [OF assms(1)] by (simp add: cq_slot_def)
  then have again: "getCqe_first (cqEntries c) u (unat (cqTail c AND cqMask c)) (unat (cqHead c AND cqMask c)) = PollAgain"
    using assms(2,3) by (simp add: getCqe_first_eq visited_def first_pass_def second_pass_def cq_slot_def)
  have "\<not> (obs = (\<lambda>_. c) \<and> v = u)" if "getCqe obs n v = Some y" for obs v y
  proof (rule getCqe.raw_induct [where P = "\<lambda>obs n v y. \<not> (obs = (\<lambda>_. c) \<and> v = u)", OF _ that])
    fix f obs n v y
    assume IH: "\<And>obs n v y. f obs n v = Some y \<Longrightarrow> \<not> (obs = (\<lambda>_. c) \<and> v = u)"
      and run: "(let c = obs n
      in case getCqe_first (cqEntries c) v (unat (cqTail c AND cqMask c)) (unat (cqHead c AND cqMask c)) of
           PollHit cqe \<Rightarrow> Some (cqe_result cqe)
         | PollAgain \<Rightarrow> f obs (Suc (Suc n)) v
         | PollPanic \<Rightarrow> Some (Panic IndexOutOfRange)
         | PollMiss \<Rightarrow>
             (let c = obs (Suc n)
              in case getCqe_second (cqEntries c) v (unat (cqTail c AND cqMask c)) 0 of
                   PollHit cqe \<Rightarrow> Some (cqe_result cqe)
                 | PollAgain \<Rightarrow> f obs (Suc (Suc n)) v
                 | PollPanic \<Rightarrow> Some (Panic IndexOutOfRange)
                 | PollMiss \<Rightarrow> Some (Err errCQEMissing))) = Some y"
    show "\<not> (obs = (\<lambda>_. c) \<and> v = u)"
    proof
      assume "obs = (\<lambda>_. c) \<and> v = u"
      with run again have "f obs (Suc (Suc n)) v = Some y" by simp
      from IH [OF this] \<open>obs = (\<lambda>_. c) \<and> v = u\<close> show False by simp
    qed
  qed
  then show ?thesis by (cases "getCqe (\<lambda>_. c) n u") auto
qed

section \<open>Properties\<close>

text \<open>A completion queue with two completions across the end of the ring.\<close>

definition wrapped_cq :: CompletionQueue where
  "wrapped_cq = sample_cq 3 5 [sample_cqe 7 10, sample_cqe 0 0, sample_cqe 0 0, sample_cqe 9 20]"

definition sample_request :: "u64 \<Rightarrow> completionRequest" where
  "sample_request u = \<lparr>crId = u, crRes = 0, crFlags = 0\<rparr>"

definition sample_inflight :: "(u64, completionRequest) fmap" where
  "sample_inflight = fmupd 7 (sample_request 7) fmempty"

lemma sample_facts:
  "cq_wf 2 wrapped_cq" "keyed sample_inflight" "fmlookup sample_inflight 7 = Some (sample_request 7)"
  "cqHead wrapped_cq = 3" "cqTail wrapped_cq = 5"
  by (simp_all add: cq_wf_def wrapped_cq_def sample_cq_def mask_eq_exp_minus_1 keyed_def
      sample_inflight_def sample_request_def)

lemma wrapped_passes:
  "first_pass wrapped_cq = [sample_cqe 9 20]" "second_pass wrapped_cq = [sample_cqe 7 10]"
  by (simp_all add: first_pass_def second_pass_def cq_slot_def wrapped_cq_def sample_cq_def window_def)

text \<open>
  C7: \<open>onEntry\<close> signals exactly the requests in flight whose id is the user data of an entry it
  visits: each once, with the result and flags of a completion of that id, and it removes exactly
  those from the map; on a ring with the kernel's geometry it never panics.
\<close>

theorem onEntry_delivers:
  assumes "cq_wf k c" "keyed m" "onEntry m c = (res, m', signalled, c')"
  shows "res = Ok () \<and> distinct (map crId signalled)
    \<and> set (map crId signalled) = {u. u \<in> cqeUserData ` set (visited c) \<and> fmlookup m u \<noteq> None}
    \<and> set signalled \<subseteq> {cr. \<exists>e \<in> set (visited c). \<exists>req. fmlookup m (cqeUserData e) = Some req
          \<and> cr = req\<lparr>crRes := cqeRes e, crFlags := cqeFlags e\<rparr>}
    \<and> (\<forall>u. fmlookup m' u = (if u \<in> cqeUserData ` set (visited c) then None else fmlookup m u))"
proof -
  have eq: "res = Ok ()" "m' = esInflight (scan_all m c)" "signalled = deliveries m (visited c)"
    using onEntry_eq [OF assms(1), of m] scan_all_delivers(1) [OF assms(2), of c] assms(3) by simp_all
  show ?thesis
    using deliveries_ids [OF assms(2), of "visited c"] deliveries_from_inflight [OF assms(2), of _ "visited c"]
    by (auto simp: eq scan_all_delivers(2) [OF assms(2)])
qed

theorem onEntry_delivers_witness:
  "\<exists>m' signalled c'. onEntry sample_inflight wrapped_cq = (Ok (), m', signalled, c')
     \<and> set (map crId signalled) = {7} \<and> fmlookup m' 7 = None"
proof -
  obtain res m' signalled c' where run: "onEntry sample_inflight wrapped_cq = (res, m', signalled, c')"
    by (cases "onEntry sample_inflight wrapped_cq")
  from onEntry_delivers [OF sample_facts(1,2) run] run show ?thesis
    by (auto simp: visited_def wrapped_passes sample_cqe_def sample_inflight_def)
qed

text \<open>
  C6: No completion is missed: as long as fewer completions are published than the ring has entries,
  every request in flight whose completion lies between head and tail is signalled by the next
  \<open>onEntry\<close> and is in flight no more.
\<close>

theorem onEntry_completes_published:
  assumes "cq_wf k c" "keyed m" "fmlookup m u = Some req"
    and "j < unat (cqTail c - cqHead c)" "unat (cqTail c - cqHead c) < 2 ^ k"
    and "cqeUserData (cqEntries c ! ((unat (cqHead c) + j) mod 2 ^ k)) = u"
  shows "\<exists>m' signalled c'. onEntry m c = (Ok (), m', signalled, c') \<and> u \<in> crId ` set signalled
    \<and> fmlookup m' u = None"
proof -
  have mem: "u \<in> cqeUserData ` set (visited c)"
    using published_visited [OF assms(1,4,5)] assms(6) by blast
  then have "u \<in> crId ` set (deliveries m (visited c))"
    using deliveries_ids [OF assms(2), of "visited c"] assms(3) by auto
  with mem show ?thesis
    using onEntry_eq [OF assms(1), of m] scan_all_delivers [OF assms(2), of c] by simp
qed

theorem onEntry_completes_published_witness:
  "\<exists>m' signalled c'. onEntry sample_inflight wrapped_cq = (Ok (), m', signalled, c')
     \<and> 7 \<in> crId ` set signalled \<and> fmlookup m' 7 = None"
proof -
  have "1 < unat (cqTail wrapped_cq - cqHead wrapped_cq)" "unat (cqTail wrapped_cq - cqHead wrapped_cq) < 2 ^ 2"
    "cqeUserData (cqEntries wrapped_cq ! ((unat (cqHead wrapped_cq) + 1) mod 2 ^ 2)) = 7"
    by (simp_all add: wrapped_cq_def sample_cq_def sample_cqe_def)
  from onEntry_completes_published [OF sample_facts(1-3) this] show ?thesis .
qed

text \<open>
  C26: While the completions do not wrap around the end of the ring, \<open>onEntry\<close> moves the head only
  over entries that answered a request in flight, by exactly the leading run of such entries, and
  changes nothing else of the queue.
\<close>

theorem onEntry_head_over_delivered:
  assumes "cq_wf k c" "keyed m" "onEntry m c = (res, m', signalled, c')"
    and "unat (cqHead c) mod 2 ^ k \<le> unat (cqTail c) mod 2 ^ k"
  shows "\<exists>n. c' = c\<lparr>cqHead := cqHead c + of_nat n\<rparr> \<and> n \<le> length (visited c)
    \<and> (\<forall>j < n. fmlookup m (cqeUserData (visited c ! j)) \<noteq> None)
    \<and> (n < length (visited c) \<longrightarrow>
         fmlookup m (cqeUserData (visited c ! n)) = None
         \<or> cqeUserData (visited c ! n) \<in> (\<lambda>j. cqeUserData (visited c ! j)) ` {..< n})"
proof -
  have le: "cq_slot (cqHead c) c \<le> cq_slot (cqTail c) c"
    using assms(4) cq_ring.unat_slot [OF assms(1)] cq_ring.wf_slots [OF assms(1)] by (simp add: cq_slot_def)
  then have pass: "second_pass c = []" "visited c = first_pass c"
    by (simp_all add: second_pass_def visited_def)
  have "c' = c\<lparr>cqHead := cqHead c + of_nat (lead m (visited c))\<rparr>"
    using onEntry_eq [OF assms(1), of m] assms(3) scan_all_seenIdx [OF assms(2), of c] pass by simp
  then show ?thesis
    using lead_le [of m "visited c"] lead_matched [of _ m "visited c"] lead_stops [of m "visited c"]
    by blast
qed

theorem onEntry_head_over_delivered_witness:
  "\<exists>m' signalled c' n. onEntry sample_inflight (sample_cq 1 2 (replicate 4 (sample_cqe 7 10)))
     = (Ok (), m', signalled, c') \<and> cqHead c' = 1 + of_nat n \<and> n \<le> 2"
proof -
  let ?c = "sample_cq 1 2 (replicate 4 (sample_cqe 7 10))"
  obtain res m' signalled c' where run: "onEntry sample_inflight ?c = (res, m', signalled, c')"
    by (cases "onEntry sample_inflight ?c")
  have wf: "cq_wf 2 ?c" and le: "unat (cqHead ?c) mod 2 ^ 2 \<le> unat (cqTail ?c) mod 2 ^ 2"
    and vis: "length (visited ?c) = 2"
    by (simp_all add: cq_wf_def sample_cq_def mask_eq_exp_minus_1 visited_def first_pass_def
        second_pass_def cq_slot_def)
  have "res = Ok ()" using onEntry_eq [OF wf, of sample_inflight] run by simp
  moreover obtain n where "c' = ?c\<lparr>cqHead := cqHead ?c + of_nat n\<rparr>" "n \<le> length (visited ?c)"
    using onEntry_head_over_delivered [OF wf sample_facts(2) run le] by blast
  moreover have "cqHead ?c = 1" by (simp add: sample_cq_def)
  ultimately show ?thesis
    using run vis by (intro exI [of _ m'] exI [of _ signalled] exI [of _ c'] exI [of _ n]) simp
qed


text \<open>
  A completion at the head that answers no request in flight, for instance one already delivered
  in an earlier scan because it lay behind a gap, stops the head: while the completions do not wrap,
  \<open>onEntry\<close> leaves the queue as it is.
\<close>

theorem onEntry_stalls_behind_unmatched:
  assumes "cq_wf k c" "keyed m" "unat (cqHead c) mod 2 ^ k \<le> unat (cqTail c) mod 2 ^ k"
    and "fmlookup m (cqeUserData (cqEntries c ! (unat (cqHead c) mod 2 ^ k))) = None"
  shows "\<exists>m' signalled. onEntry m c = (Ok (), m', signalled, c)"
proof -
  have slots: "cq_slot x c = unat x mod 2 ^ k" for x
    using cq_ring.unat_slot [OF assms(1)] cq_ring.wf_slots [OF assms(1)] by (simp add: cq_slot_def)
  have "unat (cqHead c) mod 2 ^ k < length (cqEntries c)"
    using cq_ring.slot_less [OF assms(1), of "cqHead c"] by (simp add: slots [unfolded cq_slot_def])
  then have "lead m (first_pass c) = 0" "second_pass c = []"
    using assms(3,4) by (simp_all add: first_pass_def second_pass_def slots window_step)
  then show ?thesis
    using onEntry_eq [OF assms(1), of m] scan_all_seenIdx [OF assms(2), of c] by simp
qed

theorem onEntry_stalls_behind_unmatched_witness:
  "\<exists>m' signalled. onEntry sample_inflight (sample_cq 0 2 [sample_cqe 9 0, sample_cqe 7 0, sample_cqe 0 0, sample_cqe 0 0])
     = (Ok (), m', signalled, sample_cq 0 2 [sample_cqe 9 0, sample_cqe 7 0, sample_cqe 0 0, sample_cqe 0 0])"
proof (rule onEntry_stalls_behind_unmatched [of 2])
  show "keyed sample_inflight" by (rule sample_facts(2))
qed (simp_all add: cq_wf_def sample_cq_def mask_eq_exp_minus_1 sample_cqe_def sample_inflight_def)

text \<open>
  C16: Whatever the kernel and the callers do, the goroutine never waits at its \<open>select\<close> with
  requests in flight and no retry token: another scan is always due, the retry channel never holds
  more than its capacity, and the map of requests stays keyed by their ids.
\<close>

theorem run_rescans:
  assumes "reach run_init (run_step sys) st"
  shows "rnRetry st \<le> 2 \<and> keyed (rnInflight st)
    \<and> (rnPc st = AtSelect \<and> rnInflight st \<noteq> fmempty \<longrightarrow> 0 < rnRetry st)"
  using run_system.reach_inv [OF assms] by (simp add: run_inv_def retry_cap_def)

text \<open>The goroutine with three requests queued and no completion posted yet.\<close>

definition sample_run :: "unit run_state" where
  "sample_run = \<lparr>rnPc = AtSelect, rnRing = (sample_ring (sample_sq 2 0 0))\<lparr>ringCompletions :=
       [sample_request 1, sample_request 2, sample_request 3]\<rparr>, rnKernel = (),
     rnInflight = fmempty, rnRetry = 0, rnDone = [], rnErrs = []\<rparr>"

lemma quiet_sample_ring: "quiet_ring (rnRing sample_run)"
  unfolding quiet_ring_def
  by (intro exI [of _ "sample_sq 2 0 0"] exI [of _ "sample_cq 0 0 (replicate 4 (sample_cqe 0 0))"] exI [of _ 2])
    (simp add: sample_run_def sample_ring_def sample_sq_def cq_wf_def sample_cq_def sample_cqe_def
      mask_eq_exp_minus_1)

text \<open>A turn that receives a request, and the send to \<open>retry\<close> after it.\<close>

lemma quiet_turn_reach:
  assumes "reach run_init (run_step idle_kernel) (st :: 'k run_state)" "rnPc st = AtSelect"
    and "ringCompletions (rnRing st) = cr # crs" "quiet_ring (rnRing st)"
    and "fmlookup (rnInflight st) 0 = None" "crId cr \<noteq> 0"
  shows "\<exists>st' :: 'k run_state. reach run_init (run_step idle_kernel) st' \<and> rnPc st' = SendRetry
    \<and> rnRetry st' = rnRetry st \<and> rnInflight st' = fmupd (crId cr) cr (rnInflight st)
    \<and> ringCompletions (rnRing st') = crs \<and> quiet_ring (rnRing st')"
proof -
  have "keyed (rnInflight st)"
    using run_system.reach_inv [OF assms(1)] by (simp add: run_inv_def)
  from quiet_turn [OF assms(2-4) this assms(5,6)] show ?thesis
    using reach_step [OF assms(1)] by blast
qed

lemma send_retry_reach:
  assumes "reach run_init (run_step idle_kernel) st" "rnPc st = SendRetry" "rnRetry st < retry_cap"
  shows "reach run_init (run_step idle_kernel) (st\<lparr>rnPc := AtSelect, rnRetry := rnRetry st + 1\<rparr>)"
  using assms by (blast intro: reach_step run_send_retry)

lemma quiet_round:
  assumes "reach run_init (run_step idle_kernel) (st :: 'k run_state)" "rnPc st = AtSelect"
    and "ringCompletions (rnRing st) = cr # crs" "quiet_ring (rnRing st)"
    and "fmlookup (rnInflight st) 0 = None" "crId cr \<noteq> 0" "rnRetry st < retry_cap"
  shows "\<exists>st' :: 'k run_state. reach run_init (run_step idle_kernel) st' \<and> rnPc st' = AtSelect
    \<and> rnRetry st' = Suc (rnRetry st) \<and> rnInflight st' = fmupd (crId cr) cr (rnInflight st)
    \<and> ringCompletions (rnRing st') = crs \<and> quiet_ring (rnRing st')"
proof -
  obtain st' :: "'k run_state" where st': "reach run_init (run_step idle_kernel) st'" "rnPc st' = SendRetry"
      "rnRetry st' = rnRetry st" "rnInflight st' = fmupd (crId cr) cr (rnInflight st)"
      "ringCompletions (rnRing st') = crs" "quiet_ring (rnRing st')"
    using quiet_turn_reach [OF assms(1-6)] by blast
  have "reach run_init (run_step idle_kernel) (st'\<lparr>rnPc := AtSelect, rnRetry := rnRetry st' + 1\<rparr>)"
    using send_retry_reach [OF st'(1,2)] st'(3) assms(7) by simp
  with st'(3-) show ?thesis
    by - (rule exI [of _ "st'\<lparr>rnPc := AtSelect, rnRetry := rnRetry st' + 1\<rparr>"], simp)
qed

lemma sample_round:
  "\<exists>st :: unit run_state. reach run_init (run_step idle_kernel) st \<and> rnPc st = AtSelect \<and> rnRetry st = 1
     \<and> rnInflight st = fmupd 1 (sample_request 1) fmempty
     \<and> ringCompletions (rnRing st) = [sample_request 2, sample_request 3] \<and> quiet_ring (rnRing st)"
proof -
  have "reach run_init (run_step idle_kernel) sample_run"
    by (rule reach_init) (simp add: run_init_def sample_run_def)
  from quiet_round [OF this _ _ quiet_sample_ring, of "sample_request 1"] show ?thesis
    by (simp add: sample_run_def sample_request_def retry_cap_def)
qed

theorem run_rescans_witness:
  "\<exists>st. reach run_init (run_step idle_kernel) (st :: unit run_state) \<and> rnPc st = AtSelect
     \<and> rnInflight st \<noteq> fmempty \<and> 0 < rnRetry st"
proof -
  obtain st :: "unit run_state" where st: "reach run_init (run_step idle_kernel) st" "rnPc st = AtSelect"
      "rnInflight st = fmupd 1 (sample_request 1) fmempty"
    using sample_round by blast
  have "rnInflight st \<noteq> fmempty"
    by (metis st(3) fmempty_lookup fmupd_lookup option.distinct(1))
  with run_rescans [OF st(1)] st show ?thesis by blast
qed

text \<open>
  C36: The goroutine can block for good: when three requests are received before a retry token is
  taken and none completes at once, it sends to its own full retry channel, which only it reads. In
  every later state it is still at that send, the requests in flight are the same and no further
  request is signalled, whatever the kernel posts.
\<close>

theorem run_blocks_on_own_channel:
  "\<exists>st. reach run_init (run_step idle_kernel) (st :: unit run_state) \<and> rnPc st = SendRetry
     \<and> fset (fmdom (rnInflight st)) = {1, 2, 3}
     \<and> {st'. (run_step idle_kernel)\<^sup>*\<^sup>* st st'}
         \<subseteq> {st'. rnPc st' = SendRetry \<and> rnInflight st' = rnInflight st \<and> rnDone st' = rnDone st}"
proof -
  obtain st1 :: "unit run_state" where st1: "reach run_init (run_step idle_kernel) st1"
      "rnPc st1 = AtSelect" "rnRetry st1 = 1" "rnInflight st1 = fmupd 1 (sample_request 1) fmempty"
      "ringCompletions (rnRing st1) = [sample_request 2, sample_request 3]" "quiet_ring (rnRing st1)"
    using sample_round by blast
  have ids: "(2 :: u64) \<noteq> 0" "(3 :: u64) \<noteq> 0" by simp_all
  have free: "fmlookup (rnInflight st1) 0 = None" "rnRetry st1 < retry_cap"
      "crId (sample_request u) = u" for u
    by (simp_all add: st1 retry_cap_def sample_request_def)
  obtain st2 :: "unit run_state" where st2: "reach run_init (run_step idle_kernel) st2"
      "rnPc st2 = AtSelect" "rnRetry st2 = Suc (rnRetry st1)"
      "rnInflight st2 = fmupd 2 (sample_request 2) (rnInflight st1)"
      "ringCompletions (rnRing st2) = [sample_request 3]" "quiet_ring (rnRing st2)"
    using quiet_round [OF st1(1,2,5,6) free(1) _ free(2), unfolded free(3), OF ids(1)] by blast
  have none: "fmlookup (rnInflight st2) 0 = None"
    by (simp add: st2(4) free(1))
  obtain st3 :: "unit run_state" where st3: "reach run_init (run_step idle_kernel) st3"
      "rnPc st3 = SendRetry" "rnRetry st3 = rnRetry st2"
      "rnInflight st3 = fmupd 3 (sample_request 3) (rnInflight st2)"
    using quiet_turn_reach [OF st2(1,2,5,6) none, unfolded free(3), OF ids(2)] by blast
  have blocked: "run_blocked st3"
    using st3(2,3) st2(3) st1(3) by (simp add: run_blocked_def retry_cap_def)
  have "{st'. (run_step idle_kernel)\<^sup>*\<^sup>* st3 st'}
      \<subseteq> {st'. rnPc st' = SendRetry \<and> rnInflight st' = rnInflight st3 \<and> rnDone st' = rnDone st3}"
  proof
    fix st' assume "st' \<in> {st'. (run_step idle_kernel)\<^sup>*\<^sup>* st3 st'}"
    then have "(run_step idle_kernel)\<^sup>*\<^sup>* st3 st'" by (rule CollectD)
    from run_blocked_forever [OF this blocked] show
      "st' \<in> {st'. rnPc st' = SendRetry \<and> rnInflight st' = rnInflight st3 \<and> rnDone st' = rnDone st3}"
      by (simp add: run_blocked_def)
  qed
  moreover have "fset (fmdom (rnInflight st3)) = {1, 2, 3}"
    by (simp add: st1(4) st2(4) st3(4) insert_commute)
  ultimately show ?thesis
    by (intro exI [of _ st3] conjI st3(1,2))
qed

text \<open>
  C29: \<open>getCqe\<close> on a queue that does not change: it returns the result of the first visited
  completion with the id, as an error number when it is negative; without one it reports the missing
  completion when the published part wraps around the end of the ring, and polls forever when it
  does not.
\<close>

theorem getCqe_static:
  assumes "cq_wf k c"
  shows "getCqe (\<lambda>_. c) n u =
    (case find (\<lambda>e. cqeUserData e = u) (visited c) of
       Some e \<Rightarrow> Some (if sint (cqeRes e) < 0 then Err (Errno (scast (- cqeRes e)))
                       else Ok (cqeRes e, cqeFlags e))
     | None \<Rightarrow> if unat (cqHead c) mod 2 ^ k \<le> unat (cqTail c) mod 2 ^ k then None
               else Some (Err errCQEMissing))"
proof -
  have slots: "cq_slot x c = unat x mod 2 ^ k" for x
    using cq_ring.unat_slot [OF assms] cq_ring.wf_slots [OF assms] by (simp add: cq_slot_def)
  show ?thesis
  proof (cases "find (\<lambda>e. cqeUserData e = u) (visited c)")
    case None
    then show ?thesis
      using getCqe_spins [OF assms _ None, of n] getCqe_attempt [OF assms, of "\<lambda>_. c" n u]
      by (simp add: slots)
  next
    case (Some e)
    then show ?thesis
      using getCqe_attempt [OF assms, of "\<lambda>_. c" n u] by (simp add: cqe_result_def)
  qed
qed

theorem getCqe_static_witness:
  "getCqe (\<lambda>_. wrapped_cq) 0 7 = Some (Ok (10, 0)) \<and> getCqe (\<lambda>_. wrapped_cq) 0 5 = Some (Err errCQEMissing)"
  using getCqe_static [OF sample_facts(1), of 0 7] getCqe_static [OF sample_facts(1), of 0 5]
  by (simp add: visited_def wrapped_passes sample_cqe_def sample_facts)

text \<open>
  Stopping a ring does not stop its goroutines: \<open>Stop\<close> leaves the stop channel of the ring and
  the completer untouched, and after a successful \<open>Stop\<close> that unmapped the completion queue the
  next scan of the goroutine dereferences a nil queue.
\<close>

lemma Stop_leaves_goroutine:
  assumes "Ring_Stop sys r k = (Ok (), r', k')" "pFlags (ringP r) AND FeatSingleMmap = 0"
  shows "ringStop r' = ringStop r \<and> ringC r' = ringC r
    \<and> rnPc (run_onEntry (st\<lparr>rnRing := r'\<rparr>)) = Panicked NilDereference"
  using assms
  by (auto simp: Ring_Stop_def closeSq_def closeCq_def stop_tail_def run_onEntry_def Let_def
      split: prod.splits go.splits option.splits if_splits)

lemma Stop_leaves_goroutine_example:
  "\<exists>r'. Ring_Stop idle_kernel (sample_ring (sample_sq 2 4 7)) () = (Ok (), r', ())
     \<and> rnPc (run_onEntry (sample_run\<lparr>rnRing := r'\<rparr>)) = Panicked NilDereference"
proof -
  obtain r' where run: "Ring_Stop idle_kernel (sample_ring (sample_sq 2 4 7)) () = (Ok (), r', ())"
    by (simp add: Ring_Stop_def closeSq_def closeCq_def stop_tail_def idle_kernel_def sample_ring_def
        sample_params_simps Let_def)
  have "pFlags (ringP (sample_ring (sample_sq 2 4 7))) AND FeatSingleMmap = 0"
    by (simp add: sample_ring_def sample_params_simps)
  from Stop_leaves_goroutine [OF run this] run show ?thesis by blast
qed

end
