(* ===== verification/Ring_New.thy ===== *)
theory Ring_New
  imports Completion
begin

text \<open>
  \<open>New\<close> of \<open>ring.go\<close> and \<open>ring_option.go\<close>. The kernel's calls are parameters: the
  setup call, the mappings, the register calls with the kernel's state \<open>'k\<close>, and
  \<open>unix.Eventfd\<close>. What the mapped pages hold is the parameter \<open>mem\<close>, through which the
  addresses that \<open>MmapRing\<close> computes become the queues of the ring.
\<close>

section \<open>Mapped memory\<close>

record mapped =
  mem32 :: "u64 \<Rightarrow> u32"
  memSqe :: "u64 \<Rightarrow> SubmitEntry"
  memCqe :: "u64 \<Rightarrow> CompletionEntry"

definition slice_elems :: "(u64 \<Rightarrow> 'a) \<Rightarrow> nat \<Rightarrow> SliceHeader \<Rightarrow> 'a list" where
  "slice_elems rd width h = map (\<lambda>i. rd (shData h + of_nat (width * i))) [0 ..< unat (shLen h)]"

text \<open>The queues at the mapped addresses; \<open>entered\<close> and \<open>writes\<close> are fresh zero words.\<close>

definition view_sq :: "mapped \<Rightarrow> SqLayout \<Rightarrow> SubmitQueue" where
  "view_sq mem l = \<lparr>sqSize = lsSize l, sqHead = mem32 mem (lsHead l), sqTail = mem32 mem (lsTail l),
     sqMask = mem32 mem (lsMask l), sqFlags = mem32 mem (lsFlags l),
     sqDropped = mem32 mem (lsDropped l), sqArray = slice_elems (mem32 mem) 4 (lsArray l),
     sqEntries = slice_elems (memSqe mem) sqeSize (lsEntries l), sqPtr = lsPtr l,
     sqEntered = 0, sqWrites = 0\<rparr>"

definition view_cq :: "mapped \<Rightarrow> CqLayout \<Rightarrow> CompletionQueue" where
  "view_cq mem l = \<lparr>cqSize = lcSize l, cqHead = mem32 mem (lcHead l), cqTail = mem32 mem (lcTail l),
     cqMask = mem32 mem (lcMask l), cqOverflow = mem32 mem (lcOverflow l),
     cqFlags = mem32 mem (lcFlags l), cqEntries = slice_elems (memCqe mem) cqeSize (lcEntries l),
     cqPtr = lcPtr l\<rparr>"

section \<open>Options\<close>

type_synonym 'k RingOption = "Ring \<Rightarrow> 'k \<Rightarrow> unit go \<times> Ring \<times> 'k"

definition WithDebug :: "'k RingOption" where
  "WithDebug r k = (Ok (), r\<lparr>ringDebug := True\<rparr>, k)"

definition WithEventFd ::
  "'k kernel6 \<Rightarrow> (u64 \<Rightarrow> goint \<Rightarrow> 'k \<Rightarrow> goint go \<times> 'k) \<Rightarrow> u64 \<Rightarrow> goint \<Rightarrow> bool \<Rightarrow> 'k RingOption" where
  "WithEventFd sys eventfd initval flags async r k =
     (case eventfd initval flags k of
        (Err e, k) \<Rightarrow> (Err e, r, k)
      | (Panic p, k) \<Rightarrow> (Panic p, r, k)
      | (Ok fd, k) \<Rightarrow>
          (let r = r\<lparr>ringEventFd := fd\<rparr>;
               (res, k) = (if async then RegisterEventFdAsync sys (ringFd r) fd k
                           else RegisterEventFd sys (ringFd r) fd k)
           in (res, r, k)))"

definition WithFileRegistry :: "'k RingOption" where
  "WithFileRegistry r k = (Ok (), r\<lparr>ringFileReg := Some (NewFileRegistry (ringFd r))\<rparr>, k)"

definition WithID :: "u64 \<Rightarrow> 'k RingOption" where
  "WithID i r k = (Ok (), r\<lparr>ringIdx := i\<rparr>, k)"

text \<open>The argument says whether the handler is not nil.\<close>

definition WithEnterErrHandler :: "bool \<Rightarrow> 'k RingOption" where
  "WithEnterErrHandler given r k = (Ok (), r\<lparr>ringErrHandler := given\<rparr>, k)"

definition newRingSubmitter :: "i64 \<Rightarrow> ringSubmitter" where
  "newRingSubmitter deadline = \<lparr>rsDone = 0, rsWork = 0, rsDeadline = deadline\<rparr>"

text \<open>\<open>WithDeadline\<close> also starts the submitter's goroutine, which the theory \<open>Submitter\<close> has.\<close>

definition WithDeadline :: "i64 \<Rightarrow> 'k RingOption" where
  "WithDeadline d r k =
     (let r = r\<lparr>ringDeadline := d\<rparr>; s = newRingSubmitter d
      in (Ok (), r\<lparr>ringSubmitter := Some s\<rparr>, k))"

section \<open>Creating a ring\<close>

fun apply_options :: "'k RingOption list \<Rightarrow> Ring \<Rightarrow> 'k \<Rightarrow> Ring go \<times> 'k" where
  "apply_options [] r k = (Ok r, k)"
| "apply_options (opt # opts) r k =
     (case opt r k of
        (Ok _, r, k) \<Rightarrow> apply_options opts r k
      | (Err e, r, k) \<Rightarrow> (Err e, k)
      | (Panic p, r, k) \<Rightarrow> (Panic p, k))"

definition fresh_ring :: "goint \<Rightarrow> Params \<Rightarrow> SubmitQueue \<Rightarrow> CompletionQueue \<Rightarrow> Ring" where
  "fresh_ring fd p sq cq = \<lparr>ringFd = fd, ringP = p, ringCq = Some cq, ringC = newCompleter 512,
     ringSq = Some sq, ringIdx = 0, ringDebug = False, ringFileReg = None, ringDeadline = 0,
     ringErrHandler = False, ringSubmitter = None, ringStop = 0, ringCompletions = [],
     ringEventFd = - 1\<rparr>"

definition New ::
  "setup_call \<Rightarrow> syscall6 \<Rightarrow> mapped \<Rightarrow> u64 \<Rightarrow> Params option \<Rightarrow> 'k RingOption list \<Rightarrow> 'k \<Rightarrow> Ring go \<times> 'k" where
  "New ksetup mmap mem n p opts k =
     (let p = (case p of None \<Rightarrow> zero_Params | Some p \<Rightarrow> p)
      in case Setup ksetup n p of
           (Err e, p) \<Rightarrow> (Err e, k)
         | (Panic c, p) \<Rightarrow> (Panic c, k)
         | (Ok fd, p) \<Rightarrow>
             (case MmapRing mmap fd p zero_SqLayout zero_CqLayout of
                (Err e, sq, cq) \<Rightarrow> (Err e, k)
              | (Panic c, sq, cq) \<Rightarrow> (Panic c, k)
              | (Ok _, sq, cq) \<Rightarrow>
                  apply_options opts (fresh_ring fd p (view_sq mem sq) (view_cq mem cq)) k))"

text \<open>The goroutines \<open>New\<close> starts, in their first states.\<close>

definition started_run :: "Ring \<Rightarrow> 'k \<Rightarrow> 'k run_state" where
  "started_run r k = \<lparr>rnPc = AtSelect, rnRing = r, rnKernel = k, rnInflight = fmempty, rnRetry = 0,
     rnDone = [], rnErrs = []\<rparr>"

definition started_completer :: "Ring \<Rightarrow> completer_state option" where
  "started_completer r =
     (case ringCq r of
        None \<Rightarrow> None
      | Some c \<Rightarrow> Some \<lparr>csChans = ringC r, csUnacked = {||}, csCq = c, csRunning = True\<rparr>)"

section \<open>What an option may change\<close>

text \<open>
  The contract of a ring option: it leaves the descriptor, the parameters, the queues and the
  channels of the ring alone.
\<close>

locale ring_option =
  fixes opt :: "'k RingOption"
  assumes keeps: "opt r k = (res, r', k') \<Longrightarrow>
    ringFd r' = ringFd r \<and> ringP r' = ringP r \<and> ringSq r' = ringSq r \<and> ringCq r' = ringCq r
    \<and> ringC r' = ringC r \<and> ringStop r' = ringStop r \<and> ringCompletions r' = ringCompletions r"
begin

lemma option_step:
  "opt r k = (Ok u, r', k') \<Longrightarrow> apply_options (opt # opts) r k = apply_options opts r' k'"
  by simp

end

interpretation with_debug: ring_option WithDebug
  by unfold_locales (auto simp: WithDebug_def)

interpretation with_eventfd: ring_option "WithEventFd sys eventfd initval flags async"
  for sys eventfd initval flags async
  by unfold_locales (auto simp: WithEventFd_def Let_def split: prod.splits go.splits if_splits)

interpretation with_file_registry: ring_option WithFileRegistry
  by unfold_locales (auto simp: WithFileRegistry_def)

interpretation with_id: ring_option "WithID i" for i
  by unfold_locales (auto simp: WithID_def)

interpretation with_handler: ring_option "WithEnterErrHandler given" for given
  by unfold_locales (auto simp: WithEnterErrHandler_def)

interpretation with_deadline: ring_option "WithDeadline d" for d
  by unfold_locales (auto simp: WithDeadline_def Let_def)

lemma apply_options_keeps:
  assumes "\<And>opt. opt \<in> set opts \<Longrightarrow> ring_option opt" and "apply_options opts r k = (Ok r', k')"
  shows "ringFd r' = ringFd r \<and> ringP r' = ringP r \<and> ringSq r' = ringSq r \<and> ringCq r' = ringCq r
    \<and> ringC r' = ringC r \<and> ringStop r' = ringStop r \<and> ringCompletions r' = ringCompletions r"
  using assms
proof (induction opts arbitrary: r k)
  case (Cons opt opts)
  obtain res r1 k1 where run: "opt r k = (res, r1, k1)" by (cases "opt r k")
  have "ring_option opt" using Cons.prems(1) by simp
  from ring_option.keeps [OF this run] Cons.IH [of r1 k1] Cons.prems run show ?case
    by (cases res) auto
qed simp

section \<open>Facts on a new ring\<close>

lemma length_slice_elems [simp]: "length (slice_elems rd w h) = unat (shLen h)"
  by (simp add: slice_elems_def)

lemma MmapRing_masks:
  assumes "MmapRing sys fd p sq cq = (Ok (), sq', cq')"
  shows "lsMask sq' = lsPtr sq' + ucast (soRingMask (pSqOffset p))"
    and "lcMask cq' = cq_base sys fd p + ucast (coRingMask (pCqOffset p))"
  using assms by (auto simp: MmapRing_def cq_base_def Let_def split: prod.splits if_splits)

text \<open>The kernel's geometry: a power of two entries, and a mask word of one less.\<close>

definition sq_geometry :: "mapped \<Rightarrow> nat \<Rightarrow> Params \<Rightarrow> SqLayout \<Rightarrow> bool" where
  "sq_geometry mem k p l \<longleftrightarrow> k < 32 \<and> unat (pSqEntries p) = 2 ^ k \<and> mem32 mem (lsMask l) = mask k"

definition cq_geometry :: "mapped \<Rightarrow> nat \<Rightarrow> Params \<Rightarrow> CqLayout \<Rightarrow> bool" where
  "cq_geometry mem k p l \<longleftrightarrow> k < 32 \<and> unat (pCqEntries p) = 2 ^ k \<and> mem32 mem (lcMask l) = mask k"

lemma view_sq_wf:
  assumes "MmapRing mmap fd p l0 c0 = (Ok (), l, c)" "sq_geometry mem k p l"
  shows "sq_wf k (view_sq mem l)"
  using MmapRing_Ok [OF assms(1)] assms(2) by (simp add: sq_wf_def view_sq_def sq_geometry_def)

lemma view_cq_wf:
  assumes "MmapRing mmap fd p l0 c0 = (Ok (), l, c)" "cq_geometry mem k p c"
  shows "cq_wf k (view_cq mem c)"
  using MmapRing_Ok [OF assms(1)] assms(2) by (simp add: cq_wf_def view_cq_def cq_geometry_def)

lemma New_Ok:
  assumes "New ksetup mmap mem n p opts k = (Ok r, k')"
  obtains fd p' l c where "Setup ksetup n (case p of None \<Rightarrow> zero_Params | Some p \<Rightarrow> p) = (Ok fd, p')"
    "MmapRing mmap fd p' zero_SqLayout zero_CqLayout = (Ok (), l, c)"
    "apply_options opts (fresh_ring fd p' (view_sq mem l) (view_cq mem c)) k = (Ok r, k')"
  using assms that by (auto simp: New_def Let_def split: prod.splits go.splits)

section \<open>Properties\<close>


text \<open>A kernel for a ring of eight and sixteen entries.\<close>

definition sample_setup :: setup_call where
  "sample_setup trap n p = (sample_params, 5, 0)"

definition sample_mem :: mapped where
  "sample_mem = \<lparr>mem32 = (\<lambda>a. if a = 0x7f0000000000 + 256 then 7
       else if a = 0x7f0000000000 + 0x8000000 + 260 then 15 else 0),
     memSqe = (\<lambda>_. sample_sqe), memCqe = (\<lambda>_. sample_cqe 0 0)\<rparr>"

lemma sample_map:
  "\<exists>l c. MmapRing sample_mmap 5 sample_params zero_SqLayout zero_CqLayout = (Ok (), l, c)"
  using MmapRing_Ok_iff [of sample_mmap 5 sample_params zero_SqLayout zero_CqLayout]
  by (auto simp: mmap_shared_def sample_mmap_def)

lemma sample_Setup: "Setup sample_setup n p = (Ok 5, sample_params)"
  by (simp add: Setup_def sample_setup_def)

lemma sample_geometry:
  assumes "MmapRing sample_mmap 5 sample_params zero_SqLayout zero_CqLayout = (Ok (), l, c)"
  shows "sq_geometry sample_mem 3 sample_params l" "cq_geometry sample_mem 4 sample_params c"
  using MmapRing_masks [OF assms] MmapRing_Ok(3) [OF assms]
  by (simp_all add: cq_base_def mmap_shared_def sample_mmap_def sq_geometry_def cq_geometry_def
      sample_mem_def sample_params_simps singleMmap_def SqRingOffset_def CqRingOffset_def
      mask_eq_exp_minus_1)


text \<open>
  \<open>New\<close> forgets where the completion ring is mapped: \<open>MmapRing\<close> never stores the queue's
  pointer, so on every ring that \<open>New\<close> returns the release of the completion queue unmaps
  address 0 and leaves the mapping in place.
\<close>

lemma New_forgets_completion_mapping:
  assumes "New ksetup mmap mem n p opts k = (Ok r, k')" "set opts \<subseteq> Collect ring_option"
  shows "\<exists>c. ringCq r = Some c \<and> cqPtr c = 0
    \<and> snd (snd (closeCq sys r w)) = fst (sys SYS_MUNMAP 0 (ucast (cqSize c)) 0 0 0 0 w)"
proof -
  from New_Ok [OF assms(1)] obtain fd p' l c where
    map: "MmapRing mmap fd p' zero_SqLayout zero_CqLayout = (Ok (), l, c)" and
    opts: "apply_options opts (fresh_ring fd p' (view_sq mem l) (view_cq mem c)) k = (Ok r, k')"
    by metis
  from apply_options_keeps [OF _ opts] assms(2) have cq: "ringCq r = Some (view_cq mem c)"
    by (auto simp: fresh_ring_def)
  have "cqPtr (view_cq mem c) = 0"
    using MmapRing_Ok [OF map] by (simp add: view_cq_def zero_CqLayout_def)
  with cq show ?thesis
    by (auto simp: closeCq_def Let_def split: prod.split)
qed

lemma New_forgets_completion_mapping_example:
  "\<exists>r c. New sample_setup sample_mmap sample_mem 8 None [WithFileRegistry] () = (Ok r, ())
     \<and> ringCq r = Some c \<and> cqPtr c = 0"
proof -
  obtain l c where run: "MmapRing sample_mmap 5 sample_params zero_SqLayout zero_CqLayout = (Ok (), l, c)"
    using sample_map by blast
  then have "\<exists>r. New sample_setup sample_mmap sample_mem 8 None [WithFileRegistry] () = (Ok r, ())"
    by (simp add: New_def sample_Setup WithFileRegistry_def)
  then obtain r where new: "New sample_setup sample_mmap sample_mem 8 None [WithFileRegistry] () = (Ok r, ())"
    by blast
  have "set [WithFileRegistry] \<subseteq> Collect ring_option"
    by (simp add: with_file_registry.ring_option_axioms)
  from New_forgets_completion_mapping [OF new this, of "idle_kernel :: unit kernel6" "()"]
  obtain c where "ringCq r = Some c" "cqPtr c = 0" by (elim exE conjE)
  with new show ?thesis by (intro exI conjI)
qed

end
