(* ===== verification/Submitter.thy ===== *)
theory Submitter
  imports Ring_New
begin

text \<open>
  \<open>submitter.go\<close>: the goroutine that collects requests and submits them when a timer fires. The
  timer has the semantics of \<open>time.Timer\<close>: it is armed or not, and its channel holds at most one
  tick; \<open>Stop\<close> returns whether it was armed. The kernel and the ring are those of
  \<open>Ring.Enter\<close>.
\<close>

section \<open>Timers\<close>

record timer =
  tmArmed :: bool
  tmTick :: bool

definition timer_Stop :: "timer \<Rightarrow> bool \<times> timer" where
  "timer_Stop t = (tmArmed t, t\<lparr>tmArmed := False\<rparr>)"

definition timer_Reset :: "timer \<Rightarrow> timer" where
  "timer_Reset t = t\<lparr>tmArmed := True\<rparr>"

definition timer_fire :: "timer \<Rightarrow> timer" where
  "timer_fire t = t\<lparr>tmArmed := False, tmTick := True\<rparr>"

definition timer_recv :: "timer \<Rightarrow> timer" where
  "timer_recv t = t\<lparr>tmTick := False\<rparr>"

section \<open>The goroutine\<close>

text \<open>
  Where \<open>run\<close> is: at its \<open>select\<close>, at the label \<open>enter\<close>, in the \<open>done\<close> case waiting for
  a tick, or returned. Besides its variables the state has the ring, the kernel, the messages in
  \<open>work\<close>, whether \<open>stop\<close> is being called, and, for the statements, the number of failed
  calls of \<open>Enter\<close>.
\<close>

datatype sub_pc = SubSelect | SubEnter | SubDrain | SubDone

record 'k sub_state =
  sbPc :: sub_pc
  sbTimer :: timer
  sbCount :: int
  sbSeen :: int
  sbActive :: bool
  sbWork :: nat
  sbStopping :: bool
  sbRing :: Ring
  sbKernel :: 'k
  sbFailed :: nat

definition work_cap :: nat where "work_cap = 128"

text \<open>\<open>submit\<close>, called by others, sends on \<open>work\<close> and does not use the id; \<open>None\<close> blocks.\<close>

definition submit :: "u64 \<Rightarrow> 'k sub_state \<Rightarrow> 'k sub_state option" where
  "submit reqID st = (if sbWork st < work_cap then Some (st\<lparr>sbWork := Suc (sbWork st)\<rparr>) else None)"

text \<open>The case \<open>case <-s.work\<close>.\<close>

definition sub_on_work :: "'k sub_state \<Rightarrow> 'k sub_state" where
  "sub_on_work st =
     (let st = st\<lparr>sbWork := sbWork st - 1\<rparr>;
          st = (if \<not> sbActive st then st\<lparr>sbActive := True, sbTimer := timer_Reset (sbTimer st)\<rparr> else st)
      in st\<lparr>sbCount := sbCount st + 1\<rparr>)"

text \<open>The code from the label \<open>enter\<close> on, given the result of \<open>Enter\<close>.\<close>

definition sub_on_enter :: "goint go \<Rightarrow> Ring \<Rightarrow> 'k \<Rightarrow> 'k sub_state \<Rightarrow> 'k sub_state option" where
  "sub_on_enter res r k st =
     (let st = st\<lparr>sbRing := r, sbKernel := k\<rparr>
      in case res of
           Panic _ \<Rightarrow> None
         | Err _ \<Rightarrow> Some (st\<lparr>sbPc := SubSelect, sbFailed := Suc (sbFailed st)\<rparr>)
         | Ok n \<Rightarrow>
             (let st = st\<lparr>sbSeen := sbSeen st + sint n\<rparr>
              in if sbSeen st < sbCount st then Some st
                 else Some (st\<lparr>sbSeen := 0, sbCount := 0, sbActive := False, sbPc := SubSelect\<rparr>)))"

text \<open>The case \<open>case <-s.done\<close> up to the receive from the timer.\<close>

definition sub_on_done :: "'k sub_state \<Rightarrow> 'k sub_state" where
  "sub_on_done st =
     (case timer_Stop (sbTimer st) of
        (stopped, t) \<Rightarrow>
          st\<lparr>sbStopping := False, sbTimer := t, sbPc := (if \<not> stopped then SubDrain else SubDone)\<rparr>)"

inductive sub_step :: "'k ring_mem kernel6 \<Rightarrow> 'k sub_state \<Rightarrow> 'k sub_state \<Rightarrow> bool"
  for sys :: "'k ring_mem kernel6" where
  sub_tick:
    "sbPc st = SubSelect \<Longrightarrow> tmTick (sbTimer st) \<Longrightarrow>
     sub_step sys st (st\<lparr>sbPc := SubEnter, sbTimer := timer_recv (sbTimer st)\<rparr>)"
| sub_enter:
    "sbPc st = SubEnter \<Longrightarrow>
     Ring_Enter sys (of_int (sbCount st)) 0 EnterGetEvents 0 (sbRing st) (sbKernel st) = Some (res, r, k) \<Longrightarrow>
     sub_on_enter res r k st = Some st' \<Longrightarrow> sub_step sys st st'"
| sub_work: "sbPc st = SubSelect \<Longrightarrow> 0 < sbWork st \<Longrightarrow> sub_step sys st (sub_on_work st)"
| sub_done: "sbPc st = SubSelect \<Longrightarrow> sbStopping st \<Longrightarrow> sub_step sys st (sub_on_done st)"
| sub_drain:
    "sbPc st = SubDrain \<Longrightarrow> tmTick (sbTimer st) \<Longrightarrow>
     sub_step sys st (st\<lparr>sbPc := SubDone, sbTimer := timer_recv (sbTimer st)\<rparr>)"
| sub_fire: "tmArmed (sbTimer st) \<Longrightarrow> sub_step sys st (st\<lparr>sbTimer := timer_fire (sbTimer st)\<rparr>)"
| sub_submit: "submit reqID st = Some st' \<Longrightarrow> sub_step sys st st'"
| sub_stop: "sub_step sys st (st\<lparr>sbStopping := True\<rparr>)"
| sub_others: "sub_step sys st (st\<lparr>sbRing := r, sbKernel := k\<rparr>)"

text \<open>\<open>run\<close> begins with a timer that is stopped and drained.\<close>

definition sub_init :: "'k sub_state \<Rightarrow> bool" where
  "sub_init st \<longleftrightarrow> sbPc st = SubSelect \<and> sbTimer st = \<lparr>tmArmed = False, tmTick = False\<rparr>
     \<and> sbCount st = 0 \<and> sbSeen st = 0 \<and> \<not> sbActive st \<and> sbWork st = 0 \<and> sbFailed st = 0"

section \<open>Invariant\<close>

definition sub_inv :: "'k sub_state \<Rightarrow> bool" where
  "sub_inv st \<longleftrightarrow> 0 \<le> sbCount st \<and> sbWork st \<le> work_cap
     \<and> (\<not> sbActive st \<longrightarrow> sbCount st = 0 \<and> sbSeen st = 0
          \<and> \<not> tmArmed (sbTimer st) \<and> \<not> tmTick (sbTimer st))
     \<and> (sbPc st = SubEnter \<longrightarrow> sbActive st \<and> \<not> tmArmed (sbTimer st) \<and> \<not> tmTick (sbTimer st))
     \<and> \<not> (tmArmed (sbTimer st) \<and> tmTick (sbTimer st))
     \<and> (sbPc st = SubSelect \<longrightarrow> sbActive st \<longrightarrow> sbFailed st = 0 \<longrightarrow>
          tmArmed (sbTimer st) \<or> tmTick (sbTimer st))"

lemmas timer_defs = timer_Stop_def timer_Reset_def timer_fire_def timer_recv_def

lemma sub_inv_step: "sub_step sys st st' \<Longrightarrow> sub_inv st \<Longrightarrow> sub_inv st'"
proof (induction rule: sub_step.induct)
  case (sub_enter st res r k st')
  then show ?case
    by (cases res) (auto simp: sub_inv_def sub_on_enter_def Let_def split: if_splits)
next
  case (sub_work st)
  then show ?case
    by (auto simp: sub_inv_def sub_on_work_def Let_def timer_defs)
qed (auto simp: sub_inv_def sub_on_done_def submit_def timer_defs split: if_splits)

interpretation sub_system: invariant_system sub_init "sub_step sys" sub_inv for sys
  by unfold_locales (simp add: sub_init_def sub_inv_def, rule sub_inv_step)

text \<open>The states from which no request is submitted any more, and those where \<open>stop\<close> leaves the
  goroutine waiting.\<close>

definition sub_stuck :: "'k sub_state \<Rightarrow> bool" where
  "sub_stuck st \<longleftrightarrow> sbActive st \<and> \<not> tmArmed (sbTimer st) \<and> \<not> tmTick (sbTimer st) \<and> sbPc st \<noteq> SubEnter"

lemma sub_stuck_step: "sub_step sys st st' \<Longrightarrow> sub_stuck st \<Longrightarrow> sub_stuck st'"
  by (induction rule: sub_step.induct)
    (auto simp: sub_stuck_def sub_on_work_def sub_on_done_def submit_def timer_defs Let_def split: if_splits)

definition sub_leaked :: "'k sub_state \<Rightarrow> bool" where
  "sub_leaked st \<longleftrightarrow> sbPc st = SubDrain \<and> \<not> tmArmed (sbTimer st) \<and> \<not> tmTick (sbTimer st)"

lemma sub_leaked_step: "sub_step sys st st' \<Longrightarrow> sub_leaked st \<Longrightarrow> sub_leaked st'"
  by (induction rule: sub_step.induct) (auto simp: sub_leaked_def submit_def timer_defs split: if_splits)

interpretation stuck_system: invariant_system sub_stuck "sub_step sys" sub_stuck for sys
  by unfold_locales (simp, rule sub_stuck_step)

interpretation leaked_system: invariant_system sub_leaked "sub_step sys" sub_leaked for sys
  by unfold_locales (simp, rule sub_leaked_step)

section \<open>Properties\<close>

definition sample_sub :: "unit sub_state" where
  "sample_sub = \<lparr>sbPc = SubSelect, sbTimer = \<lparr>tmArmed = False, tmTick = False\<rparr>, sbCount = 0, sbSeen = 0,
     sbActive = False, sbWork = 0, sbStopping = False, sbRing = sample_ring (sample_sq 2 0 0),
     sbKernel = (), sbFailed = 0\<rparr>"

text \<open>One request handed in and taken, and the timer expired: the submitter is about to enter.\<close>

definition sub_counted :: "unit sub_state" where
  "sub_counted = sample_sub\<lparr>sbActive := True, sbCount := 1, sbTimer := \<lparr>tmArmed = True, tmTick = False\<rparr>\<rparr>"

definition sub_entering :: "unit sub_state" where
  "sub_entering = sub_counted\<lparr>sbPc := SubEnter, sbTimer := \<lparr>tmArmed = False, tmTick = False\<rparr>\<rparr>"

lemma reach_sample_sub: "reach sub_init (sub_step sys) sample_sub"
  by (rule reach_init) (simp add: sub_init_def sample_sub_def)

lemma reach_sub_counted: "reach sub_init (sub_step sys) sub_counted"
proof -
  let ?st = "sample_sub\<lparr>sbWork := 1\<rparr>"
  have "reach sub_init (sub_step sys) ?st"
    using reach_step [OF reach_sample_sub sub_submit] by (simp add: sample_sub_def submit_def work_cap_def)
  moreover have "sub_step sys ?st (sub_on_work ?st)"
    by (rule sub_work) (simp_all add: sample_sub_def)
  moreover have "sub_on_work ?st = sub_counted"
    by (simp add: sub_on_work_def sub_counted_def sample_sub_def timer_defs)
  ultimately show ?thesis by (metis reach_step)
qed

lemma reach_sub_entering: "reach sub_init (sub_step sys) sub_entering"
proof -
  let ?st = "sub_counted\<lparr>sbTimer := \<lparr>tmArmed = False, tmTick = True\<rparr>\<rparr>"
  have "reach sub_init (sub_step sys) ?st"
    using reach_step [OF reach_sub_counted sub_fire] by (simp add: sub_counted_def timer_defs)
  moreover have "sub_step sys ?st (?st\<lparr>sbPc := SubEnter, sbTimer := timer_recv (sbTimer ?st)\<rparr>)"
    by (rule sub_tick) (simp_all add: sub_counted_def sample_sub_def)
  moreover have "?st\<lparr>sbPc := SubEnter, sbTimer := timer_recv (sbTimer ?st)\<rparr> = sub_entering"
    by (simp add: sub_entering_def sub_counted_def timer_defs)
  ultimately show ?thesis by (metis reach_step)
qed

text \<open>
  C25: As long as no \<open>Enter\<close> has failed, requests do not get lost: whenever the submitter waits at
  its \<open>select\<close> with requests counted, the timer is armed or its tick is waiting, so that a
  submission of all of them follows.
\<close>

theorem submitter_requests_are_timed:
  assumes "reach sub_init (sub_step sys) st" "sbPc st = SubSelect" "sbFailed st = 0" "sbCount st \<noteq> 0"
  shows "tmArmed (sbTimer st) \<or> tmTick (sbTimer st)"
  using sub_system.reach_inv [OF assms(1)] assms(2-) by (auto simp: sub_inv_def)

theorem submitter_requests_are_timed_witness:
  "sbCount sub_counted = 1 \<and> (tmArmed (sbTimer sub_counted) \<or> tmTick (sbTimer sub_counted))"
  using submitter_requests_are_timed [OF reach_sub_counted [of idle_kernel]]
  by (simp add: sub_counted_def sample_sub_def)

text \<open>
  C37: One failed \<open>Enter\<close> stops the submitter for good: the \<open>continue\<close> leaves \<open>timerActive\<close>
  set and the timer idle, no later request arms it again, and in every later state the goroutine
  never gets to \<open>enter\<close>, while the requests stay counted.
\<close>

theorem submitter_never_recovers:
  assumes "reach sub_init (sub_step sys) st" "sbPc st = SubEnter"
    and "sub_on_enter (Err e) r k st = Some st'"
  shows "sbCount st' = sbCount st
    \<and> {st''. (sub_step sys)\<^sup>*\<^sup>* st' st''} \<subseteq> {st''. sbPc st'' \<noteq> SubEnter \<and> \<not> tmTick (sbTimer st'')}"
proof -
  have st': "st' = st\<lparr>sbRing := r, sbKernel := k, sbPc := SubSelect, sbFailed := Suc (sbFailed st)\<rparr>"
    using assms(3) by (simp add: sub_on_enter_def)
  then have stuck: "sub_stuck st'"
    using sub_system.reach_inv [OF assms(1)] assms(2) by (simp add: sub_inv_def sub_stuck_def)
  have "sub_stuck st''" if "(sub_step sys)\<^sup>*\<^sup>* st' st''" for st''
    using stuck_system.rtranclp_inv [OF that stuck] .
  then show ?thesis
    using st' by (auto simp: sub_stuck_def)
qed

definition failing_kernel :: "'w kernel6" where
  "failing_kernel trap a1 a2 a3 a4 a5 a6 w = (w, 0, 11)"

theorem submitter_never_recovers_witness:
  "\<exists>r st'. Ring_Enter failing_kernel 1 0 EnterGetEvents 0 (sbRing sub_entering) () = Some (Err (Errno 11), r, ())
     \<and> sub_on_enter (Err (Errno 11)) r () sub_entering = Some st' \<and> sbCount st' = 1
     \<and> {st''. (sub_step failing_kernel)\<^sup>*\<^sup>* st' st''} \<subseteq> {st''. sbPc st'' \<noteq> SubEnter \<and> \<not> tmTick (sbTimer st'')}"
proof -
  obtain r where enter: "Ring_Enter failing_kernel 1 0 EnterGetEvents 0 (sbRing sub_entering) ()
      = Some (Err (Errno 11), r, ())"
    by (simp add: Ring_Enter_def sub_entering_def sub_counted_def sample_sub_def sample_ring_def
        sample_sq_def enterLock_free Enter_def failing_kernel_def Enter_result_def)
  obtain st' where st': "sub_on_enter (Err (Errno 11)) r () sub_entering = Some st'"
    by (simp add: sub_on_enter_def)
  have "sbPc sub_entering = SubEnter" "sbCount sub_entering = 1"
    by (simp_all add: sub_entering_def sub_counted_def)
  from submitter_never_recovers [OF reach_sub_entering [of failing_kernel] this(1) st'] this(2) enter st'
  show ?thesis by (intro exI [of _ r] exI [of _ st']) simp
qed

text \<open>
  Stopping an idle submitter leaves its goroutine behind: with the timer not armed, \<open>run\<close>
  waits for a tick that was never sent, and in every later state it is still waiting.
\<close>

theorem submitter_idle_stop_leaks:
  assumes "reach sub_init (sub_step sys) st" "sbPc st = SubSelect" "\<not> sbActive st"
  shows "{st'. (sub_step sys)\<^sup>*\<^sup>* (sub_on_done st) st'} \<subseteq> {st'. sbPc st' = SubDrain}"
proof -
  have leaked: "sub_leaked (sub_on_done st)"
    using sub_system.reach_inv [OF assms(1)] assms(3)
    by (simp add: sub_inv_def sub_leaked_def sub_on_done_def timer_defs)
  have "sub_leaked st'" if "(sub_step sys)\<^sup>*\<^sup>* (sub_on_done st) st'" for st'
    using leaked_system.rtranclp_inv [OF that leaked] .
  then show ?thesis by (auto simp: sub_leaked_def)
qed

theorem submitter_idle_stop_leaks_witness:
  "{st'. (sub_step idle_kernel)\<^sup>*\<^sup>* (sub_on_done sample_sub) st'} \<subseteq> {st'. sbPc st' = SubDrain}"
  using submitter_idle_stop_leaks [OF reach_sample_sub [of idle_kernel]] by (simp add: sample_sub_def)

end
