(* ===== verification/Sq_Protocol.thy ===== *)
theory Sq_Protocol
  imports Ring_New
begin

text \<open>
  The submission queue under concurrency: goroutines that run \<open>SubmitEntry\<close> and its callback
  (\<open>ring.go\<close>) or \<open>enterLock\<close>, the system call and \<open>enterUnlock\<close> (\<open>types.go\<close>), interleaved
  between their atomic accesses. The position of a goroutine carries the local variables it has
  read. The mask is never written after the ring is mapped, so reading it is no step of its own.
\<close>

section \<open>One goroutine\<close>

datatype sq_pc =
    SqIdle
  | GetNext
  | LoadedTail u32
  | LoadedHead u32 u32
  | Swapped u32 u32
  | Admitted u32 u32
  | Writing nat ready
  | Completing ready
  | LoadedWrites ready u32
  | StoringArray ready
  | WritePanic
  | EnterLoop
  | SawWrites
  | EnterCas
  | InKernel

inductive sq_thread :: "SubmitQueue \<Rightarrow> sq_pc \<Rightarrow> SubmitQueue \<Rightarrow> sq_pc \<Rightarrow> bool" where
  call_submit: "sq_thread s SqIdle s GetNext"
| load_tail: "sq_thread s GetNext s (LoadedTail (sqTail s))"
| load_head: "sq_thread s (LoadedTail tl') s (LoadedHead tl' (sqHead s))"
| cas_tail:
    "(tl' AND sqMask s) + 1 \<le> of_nat (length (sqEntries s)) \<Longrightarrow> sqTail s = tl' \<Longrightarrow>
     sq_thread s (LoadedHead tl' hd') (s\<lparr>sqTail := (tl' AND sqMask s) + 1\<rparr>) (Swapped tl' hd')"
| cas_tail_fails:
    "(tl' AND sqMask s) + 1 \<le> of_nat (length (sqEntries s)) \<Longrightarrow> sqTail s \<noteq> tl' \<Longrightarrow>
     sq_thread s (LoadedHead tl' hd') s GetNext"
| wrap_tail:
    "\<not> (tl' AND sqMask s) + 1 \<le> of_nat (length (sqEntries s)) \<Longrightarrow>
     sq_thread s (LoadedHead tl' hd') (if sqTail s = tl' then s\<lparr>sqTail := 0\<rparr> else s) GetNext"
| entered_busy: "sqEntered s \<noteq> 0 \<Longrightarrow> sq_thread s (Swapped tl' hd') s GetNext"
| entered_free: "sqEntered s = 0 \<Longrightarrow> sq_thread s (Swapped tl' hd') s (Admitted tl' hd')"
| add_writes:
    "i = unat (tl' AND sqMask s) \<Longrightarrow> i < length (sqEntries s) \<Longrightarrow>
     sq_thread s (Admitted tl' hd')
       (s\<lparr>sqWrites := sqWrites s + 1,
          sqEntries := (sqEntries s)[i := SubmitEntry_Reset (sqEntries s ! i)]\<rparr>)
       (Writing i \<lparr>rdNext = (tl' AND sqMask s) + 1, rdHead = hd' AND sqMask s\<rparr>)"
| write_entry:
    "sq_thread s (Writing i rd) (s\<lparr>sqEntries := (sqEntries s)[i := e]\<rparr>) (Writing i rd)"
| call_ready: "sq_thread s (Writing i rd) s (Completing rd)"
| load_writes: "sqWrites s \<noteq> 0 \<Longrightarrow> sq_thread s (Completing rd) s (LoadedWrites rd (sqWrites s))"
| no_writes: "sqWrites s = 0 \<Longrightarrow> sq_thread s (Completing rd) s WritePanic"
| cas_writes:
    "sqWrites s = w \<Longrightarrow>
     sq_thread s (LoadedWrites rd w) (s\<lparr>sqWrites := w - 1\<rparr>) (StoringArray rd)"
| cas_writes_fails: "sqWrites s \<noteq> w \<Longrightarrow> sq_thread s (LoadedWrites rd w) s (Completing rd)"
| store_array:
    "unat (rdNext rd - 1) < length (sqArray s) \<Longrightarrow>
     sq_thread s (StoringArray rd) (s\<lparr>sqArray := (sqArray s)[unat (rdNext rd - 1) := rdHead rd]\<rparr>) SqIdle"
| call_enter: "sq_thread s SqIdle s EnterLoop"
| enter_writes: "sqWrites s \<noteq> 0 \<Longrightarrow> sq_thread s EnterLoop s SawWrites"
| enter_no_writes: "sqWrites s = 0 \<Longrightarrow> sq_thread s EnterLoop s EnterCas"
| enter_spins: "sqEntered s = 1 \<Longrightarrow> sq_thread s SawWrites s EnterLoop"
| enter_goes_on: "sqEntered s \<noteq> 1 \<Longrightarrow> sq_thread s SawWrites s EnterCas"
| enter_cas: "sqEntered s = 0 \<Longrightarrow> sq_thread s EnterCas (s\<lparr>sqEntered := 1\<rparr>) InKernel"
| enter_cas_fails: "sqEntered s \<noteq> 0 \<Longrightarrow> sq_thread s EnterCas s EnterLoop"
| kernel_reads:
    "sq_thread s InKernel (s\<lparr>sqHead := h, sqFlags := f, sqDropped := d\<rparr>) InKernel"
| enter_unlock: "sq_thread s InKernel (enterUnlock s) SqIdle"

section \<open>All goroutines\<close>

record sq_sys =
  syQueue :: SubmitQueue
  syPc :: "nat \<Rightarrow> sq_pc"

inductive sq_sys_step :: "nat \<Rightarrow> sq_sys \<Rightarrow> sq_sys \<Rightarrow> bool"
  for n :: nat where
  thread_moves:
    "t < n \<Longrightarrow> sq_thread (syQueue s) (syPc s t) q pc \<Longrightarrow>
     sq_sys_step n s (s\<lparr>syQueue := q, syPc := (syPc s)(t := pc)\<rparr>)"

definition sq_sys_init :: "nat \<Rightarrow> sq_sys \<Rightarrow> bool" where
  "sq_sys_init k s \<longleftrightarrow> sq_wf k (syQueue s) \<and> sqEntered (syQueue s) = 0 \<and> sqWrites (syQueue s) = 0
     \<and> (\<forall>t. syPc s t = SqIdle)"

section \<open>Counting goroutines\<close>

fun is_writer :: "sq_pc \<Rightarrow> bool" where
  "is_writer (Writing _ _) = True"
| "is_writer (Completing _) = True"
| "is_writer (LoadedWrites _ _) = True"
| "is_writer _ = False"

definition pc_count :: "nat \<Rightarrow> (sq_pc \<Rightarrow> bool) \<Rightarrow> (nat \<Rightarrow> sq_pc) \<Rightarrow> nat" where
  "pc_count n P pcs = card {t. t < n \<and> P (pcs t)}"

lemma pc_count_upd:
  assumes "t < n"
  shows "pc_count n P (pcs(t := q)) + (if P (pcs t) then 1 else 0) = pc_count n P pcs + (if P q then 1 else 0)"
proof -
  define A where "A = {u. u < n \<and> u \<noteq> t \<and> P (pcs u)}"
  have "finite A" "t \<notin> A" by (simp_all add: A_def)
  have "{u. u < n \<and> P (pcs u)} = (if P (pcs t) then insert t A else A)"
    "{u. u < n \<and> P ((pcs(t := q)) u)} = (if P q then insert t A else A)"
    using assms by (auto simp: A_def)
  then show ?thesis
    using \<open>finite A\<close> \<open>t \<notin> A\<close> by (simp add: pc_count_def)
qed

lemma pc_count_pos: "t < n \<Longrightarrow> P (pcs t) \<Longrightarrow> 0 < pc_count n P pcs"
  by (auto simp: pc_count_def card_gt_0_iff)

lemma pc_count_le: "pc_count n P pcs \<le> n"
  using card_mono [of "{t. t < n}" "{t. t < n \<and> P (pcs t)}"] by (auto simp: pc_count_def)

section \<open>The invariant\<close>

definition rd_ok :: "nat \<Rightarrow> sq_pc \<Rightarrow> bool" where
  "rd_ok k pc =
     (case pc of
        Writing i rd \<Rightarrow> i < 2 ^ k \<and> unat (rdNext rd - 1) = i
      | Completing rd \<Rightarrow> unat (rdNext rd - 1) < 2 ^ k
      | LoadedWrites rd _ \<Rightarrow> unat (rdNext rd - 1) < 2 ^ k
      | StoringArray rd \<Rightarrow> unat (rdNext rd - 1) < 2 ^ k
      | _ \<Rightarrow> True)"

definition sq_sys_inv :: "nat \<Rightarrow> nat \<Rightarrow> sq_sys \<Rightarrow> bool" where
  "sq_sys_inv k n s \<longleftrightarrow> sq_wf k (syQueue s)
     \<and> sqWrites (syQueue s) = of_nat (pc_count n is_writer (syPc s))
     \<and> sqEntered (syQueue s) = of_nat (pc_count n (\<lambda>pc. pc = InKernel) (syPc s))
     \<and> pc_count n (\<lambda>pc. pc = InKernel) (syPc s) \<le> 1
     \<and> (\<forall>t. syPc s t \<noteq> WritePanic \<and> rd_ok k (syPc s t))"

text \<open>What one step does to the counters, as seen by the goroutine that takes it.\<close>

lemma sq_thread_writes:
  "sq_thread s p s' q \<Longrightarrow>
   sqWrites s' + (if is_writer p then 1 else 0) = sqWrites s + (if is_writer q then 1 else 0)
   \<or> q = WritePanic"
  by (induction rule: sq_thread.induct) (auto simp: enterUnlock_def)

lemma sq_thread_entered:
  "sq_thread s p s' q \<Longrightarrow> (p = InKernel \<longrightarrow> sqEntered s = 1) \<Longrightarrow>
   sqEntered s' + (if p = InKernel then 1 else 0) = sqEntered s + (if q = InKernel then 1 else 0)
   \<and> (p \<noteq> InKernel \<and> q = InKernel \<longrightarrow> sqEntered s = 0)"
  by (induction rule: sq_thread.induct) (auto simp: enterUnlock_def)

lemma sq_thread_wf: "sq_thread s p s' q \<Longrightarrow> sq_wf k s \<Longrightarrow> sq_wf k s'"
  by (induction rule: sq_thread.induct) (auto simp: sq_wf_def enterUnlock_def)

lemma sq_thread_rd: "sq_thread s p s' q \<Longrightarrow> sq_wf k s \<Longrightarrow> rd_ok k p \<Longrightarrow> rd_ok k q"
  by (induction rule: sq_thread.induct) (auto simp: rd_ok_def sq_wf_def)

lemma sq_thread_panic: "sq_thread s p s' WritePanic \<Longrightarrow> is_writer p \<and> sqWrites s = 0"
  by (erule sq_thread.cases) auto

lemma sq_sys_inv_step:
  assumes "n < 2 ^ 32" "sq_sys_inv k n s" "sq_sys_step n s s'"
  shows "sq_sys_inv k n s'"
  using assms(3)
proof cases
  case (thread_moves t q pc)
  let ?W = "pc_count n is_writer" and ?E = "pc_count n (\<lambda>pc. pc = InKernel)"
  let ?pcs = "(syPc s)(t := pc)"
  note inv = assms(2) [unfolded sq_sys_inv_def]
  note step = thread_moves(3)
  have entered: "syPc s t = InKernel \<longrightarrow> sqEntered (syQueue s) = 1"
    using inv pc_count_pos [OF thread_moves(2), of "\<lambda>pc. pc = InKernel" "syPc s"] by (auto simp: le_Suc_eq)
  have nonzero: "sqWrites (syQueue s) \<noteq> 0" if "is_writer (syPc s t)"
    using inv pc_count_pos [OF thread_moves(2), of is_writer "syPc s"] that
      pc_count_le [of n is_writer "syPc s"] assms(1)
    by (simp add: of_nat_eq_0_iff word_of_nat_eq_0_iff nat_dvd_not_less)
  then have no_panic: "pc \<noteq> WritePanic"
    using sq_thread_panic step by blast
  have W: "?W ?pcs + (if is_writer (syPc s t) then 1 else 0) = ?W (syPc s) + (if is_writer pc then 1 else 0)"
    and E: "?E ?pcs + (if syPc s t = InKernel then 1 else 0) = ?E (syPc s) + (if pc = InKernel then 1 else 0)"
    using pc_count_upd [OF thread_moves(2)] by blast+
  have "sqWrites q = of_nat (?W ?pcs)"
    using sq_thread_writes [OF step] no_panic inv arg_cong [OF W, of "of_nat :: nat \<Rightarrow> u32"]
    by (auto split: if_splits) (metis add_right_imp_eq)
  moreover have "sqEntered q = of_nat (?E ?pcs)" "?E ?pcs \<le> 1"
    using sq_thread_entered [OF step entered] inv E arg_cong [OF E, of "of_nat :: nat \<Rightarrow> u32"]
    by (auto split: if_splits simp: le_Suc_eq)
  ultimately show ?thesis
    using thread_moves(1) inv no_panic sq_thread_wf [OF step] sq_thread_rd [OF step]
    by (simp add: sq_sys_inv_def)
qed

interpretation sq_system: invariant_system "sq_sys_init k" "sq_sys_step (unat (n :: u32))" "sq_sys_inv k (unat n)"
  for k n
proof
  show "sq_sys_inv k (unat n) s" if "sq_sys_init k s" for s
    using that by (auto simp: sq_sys_init_def sq_sys_inv_def pc_count_def rd_ok_def)
  show "sq_sys_inv k (unat n) t" if "sq_sys_inv k (unat n) s" "sq_sys_step (unat n) s t" for s t
    using sq_sys_inv_step [OF _ that] unat_u32_bound [of n] by simp
qed

section \<open>Properties\<close>

definition sample_sys :: sq_sys where
  "sample_sys = \<lparr>syQueue = sample_sq 2 0 0, syPc = (\<lambda>_. SqIdle)\<rparr>"

lemma sample_sys_init: "sq_sys_init 2 sample_sys"
  by (simp add: sq_sys_init_def sample_sys_def) (simp add: sample_sq_def)

text \<open>A goroutine alone: the steps up to its entry.\<close>

lemma thread_reach:
  assumes "reach init (sq_sys_step n) s" "t < n" "sq_thread (syQueue s) (syPc s t) q pc"
  shows "reach init (sq_sys_step n) (s\<lparr>syQueue := q, syPc := (syPc s)(t := pc)\<rparr>)"
  using assms by (blast intro: reach_step thread_moves)

lemma reach_writing:
  assumes "reach init (sq_sys_step n) s" "t < n" "syPc s t = SqIdle" "sq_wf k (syQueue s)"
    and "sqEntered (syQueue s) = 0"
  shows "\<exists>rd. reach init (sq_sys_step n)
    (s\<lparr>syQueue := hand_out (syQueue s), syPc := (syPc s)(t := Writing (next_slot (syQueue s)) rd)\<rparr>)"
proof -
  let ?s = "syQueue s" and ?at = "\<lambda>q pc. s\<lparr>syQueue := q, syPc := (syPc s)(t := pc)\<rparr>"
  have move: "reach init (sq_sys_step n) (?at q' pc')"
    if "reach init (sq_sys_step n) (?at q pc)" "sq_thread q pc q' pc'" for q pc q' pc'
    using thread_reach [OF that(1) assms(2)] that(2) by simp
  have fits: "(sqTail ?s AND sqMask ?s) + 1 \<le> of_nat (length (sqEntries ?s))"
    using sq_ring.slot_Suc_le [OF assms(4)] .
  let ?q = "?s\<lparr>sqTail := (sqTail ?s AND sqMask ?s) + 1\<rparr>"
  have "?at ?s SqIdle = s" using assms(3) by (simp add: fun_upd_idem)
  then have "reach init (sq_sys_step n) (?at ?s SqIdle)" using assms(1) by simp
  from move [OF move [OF move [OF this call_submit] load_tail] load_head]
  have "reach init (sq_sys_step n) (?at ?s (LoadedHead (sqTail ?s) (sqHead ?s)))" .
  from move [OF this cas_tail [OF fits refl]]
  have "reach init (sq_sys_step n) (?at ?q (Swapped (sqTail ?s) (sqHead ?s)))" .
  from move [OF this entered_free] assms(5)
  have "reach init (sq_sys_step n) (?at ?q (Admitted (sqTail ?s) (sqHead ?s)))" by simp
  from move [OF this add_writes [OF refl]] next_slot_less [OF assms(4)] show ?thesis
    by (auto simp: next_slot_def hand_out_def)
qed

text \<open>
  C11: With fewer than \<open>2 ^ 32\<close> goroutines using the submission queue, in any interleaving: at most
  one of them is in the kernel, and \<open>entered\<close> is 1 exactly then; \<open>writes\<close> is the number of
  goroutines that hold an entry they have not completed, so \<open>completeWrite\<close> never panics; and the
  queue keeps its geometry.
\<close>

theorem sq_protocol_safe:
  assumes "reach (sq_sys_init k) (sq_sys_step (unat (n :: u32))) s"
  shows "card {t. t < unat n \<and> syPc s t = InKernel} \<le> 1
    \<and> sqEntered (syQueue s) = of_nat (card {t. t < unat n \<and> syPc s t = InKernel})
    \<and> sqWrites (syQueue s) = of_nat (card {t. t < unat n \<and> is_writer (syPc s t)})
    \<and> (\<forall>t. syPc s t \<noteq> WritePanic) \<and> sq_wf k (syQueue s)"
  using sq_system.reach_inv [OF assms] by (simp add: sq_sys_inv_def pc_count_def)

theorem sq_protocol_safe_witness:
  "\<exists>s. reach (sq_sys_init 2) (sq_sys_step (unat (2 :: u32))) s \<and> is_writer (syPc s 0)
     \<and> sqWrites (syQueue s) = of_nat (card {t. t < unat (2 :: u32) \<and> is_writer (syPc s t)})"
proof -
  have "reach (sq_sys_init 2) (sq_sys_step (unat (2 :: u32))) sample_sys"
    by (rule reach_init) (rule sample_sys_init)
  from reach_writing [OF this, of 0 2] obtain rd where
    r: "reach (sq_sys_init 2) (sq_sys_step (unat (2 :: u32))) (sample_sys\<lparr>syQueue := hand_out (syQueue sample_sys),
        syPc := (syPc sample_sys)(0 := Writing (next_slot (syQueue sample_sys)) rd)\<rparr>)"
    using sample_sys_init by (auto simp: sq_sys_init_def)
  let ?s = "sample_sys\<lparr>syQueue := hand_out (syQueue sample_sys),
        syPc := (syPc sample_sys)(0 := Writing (next_slot (syQueue sample_sys)) rd)\<rparr>"
  have "sqWrites (syQueue ?s) = of_nat (card {t. t < unat (2 :: u32) \<and> is_writer (syPc ?s t)})"
    using sq_protocol_safe [OF r] by blast
  moreover have "is_writer (syPc ?s 0)" by simp
  ultimately show ?thesis using r by blast
qed

text \<open>
  C34: The barrier does not keep the kernel away from half-written entries: \<open>enterLock\<close> waits only
  while there are writers and the lock is taken at once, so with one writer and a free lock another
  goroutine enters the kernel. Here a goroutine is in the kernel while another still writes the
  entry it was handed.
\<close>

theorem sq_protocol_enters_while_writing:
  "\<exists>s rd. reach (sq_sys_init 2) (sq_sys_step 2) s \<and> syPc s 0 = Writing 0 rd \<and> syPc s 1 = InKernel
     \<and> sqWrites (syQueue s) = 1 \<and> sqEntered (syQueue s) = 1"
proof -
  have "reach (sq_sys_init 2) (sq_sys_step 2) sample_sys"
    by (rule reach_init) (rule sample_sys_init)
  from reach_writing [OF this, of 0 2] obtain rd where
    r: "reach (sq_sys_init 2) (sq_sys_step 2) (sample_sys\<lparr>syQueue := hand_out (syQueue sample_sys),
        syPc := (syPc sample_sys)(0 := Writing (next_slot (syQueue sample_sys)) rd)\<rparr>)"
    using sample_sys_init by (auto simp: sq_sys_init_def)
  define q where "q = hand_out (syQueue sample_sys)"
  have q: "sqWrites q \<noteq> 0" "sqWrites q = 1" "sqEntered q \<noteq> 1" "sqEntered q = 0" "next_slot (syQueue sample_sys) = 0"
    by (simp_all add: q_def sample_sys_def sample_sq_def next_slot_def)
  let ?pcs = "\<lambda>pc. (syPc sample_sys)(0 := Writing 0 rd, 1 := pc)"
  have move: "reach (sq_sys_init 2) (sq_sys_step 2) \<lparr>syQueue = b, syPc = ?pcs p'\<rparr>"
    if "reach (sq_sys_init 2) (sq_sys_step 2) \<lparr>syQueue = a, syPc = ?pcs p\<rparr>" "sq_thread a p b p'" for a b p p'
    using thread_reach [OF that(1), of 1 b p'] that(2) by simp
  have "reach (sq_sys_init 2) (sq_sys_step 2) \<lparr>syQueue = q, syPc = ?pcs SqIdle\<rparr>"
  proof -
    have "?pcs SqIdle = (syPc sample_sys)(0 := Writing 0 rd)"
      by (auto simp: sample_sys_def)
    then show ?thesis using r q(5) by (simp add: q_def sample_sys_def)
  qed
  from move [OF move [OF move [OF move [OF this call_enter] enter_writes [OF q(1)]] enter_goes_on [OF q(3)]] enter_cas [OF q(4)]]
  show ?thesis
    using q(2) by (intro exI [of _ "\<lparr>syQueue = q\<lparr>sqEntered := 1\<rparr>, syPc = ?pcs InKernel\<rparr>"] exI [of _ rd]) simp
qed

end
