(* ===== verification/Served.thy ===== *)
theory Served
  imports Completion
begin

text \<open>
  What io_uring documents for the submission of one entry, as a contract of the kernel parameter,
  and what the ring's side makes of it. The theories that follow a request through the kernel and
  back rest on the facts proved here once.
\<close>

section \<open>The contract of the kernel\<close>

text \<open>
  The kernel takes the entry that the index array names at the head, advances the head, executes
  the entry on its own state, and posts a completion with the entry's user data and the result at
  the tail of the completion ring.
\<close>

definition post :: "u64 \<Rightarrow> i32 \<times> u32 \<Rightarrow> CompletionQueue \<Rightarrow> CompletionQueue" where
  "post u v c = c\<lparr>cqEntries := (cqEntries c)[unat (cqTail c AND cqMask c) :=
       \<lparr>cqeUserData = u, cqeRes = fst v, cqeFlags = snd v\<rparr>], cqTail := cqTail c + 1\<rparr>"

definition executes :: "'k ring_mem kernel6 \<Rightarrow> (SubmitEntry \<Rightarrow> 'k \<Rightarrow> (i32 \<times> u32) \<times> 'k) \<Rightarrow> bool" where
  "executes sys exec \<longleftrightarrow> (\<forall>fd least flags sigset s c w.
     sys EnterSyscall fd 1 least flags sigset 0 (s, Some c, w) =
       (case exec (kernel_pick s 0) w of (v, w') \<Rightarrow>
          ((s\<lparr>sqHead := sqHead s + 1\<rparr>, Some (post (sqeUserData (kernel_pick s 0)) v c), w'), 1, 0)))"

text \<open>A ring between requests: both queues are well-formed and drained, and the lock is free.\<close>

definition sq_drained :: "nat \<Rightarrow> SubmitQueue \<Rightarrow> bool" where
  "sq_drained k s \<longleftrightarrow> sq_wf k s \<and> sqEntered s = 0 \<and> sqWrites s + 1 \<noteq> 0
     \<and> unat (sqHead s) mod 2 ^ k = unat (sqTail s) mod 2 ^ k"

definition cq_drained :: "nat \<Rightarrow> CompletionQueue \<Rightarrow> bool" where
  "cq_drained k c \<longleftrightarrow> cq_wf k c \<and> cqHead c = cqTail c"

definition drained :: "nat \<Rightarrow> nat \<Rightarrow> Ring \<Rightarrow> bool" where
  "drained ks kc r \<longleftrightarrow> (\<exists>s. ringSq r = Some s \<and> sq_drained ks s) \<and> (\<exists>c. ringCq r = Some c \<and> cq_drained kc c)"

section \<open>The posted completion\<close>

lemma post_wf [simp]: "cq_wf k (post u v c) \<longleftrightarrow> cq_wf k c"
  by (simp add: cq_wf_def post_def)

lemma post_simps [simp]:
  "cqHead (post u v c) = cqHead c" "cqMask (post u v c) = cqMask c" "cqTail (post u v c) = cqTail c + 1"
  "length (cqEntries (post u v c)) = length (cqEntries c)" "cq_slot x (post u v c) = cq_slot x c"
  by (simp_all add: post_def cq_slot_def)

lemma post_entry:
  assumes "cq_drained k c"
  shows "cq_slot (cqHead c) c < length (cqEntries c)"
    and "cqEntries (post u v c) ! cq_slot (cqHead c) c = \<lparr>cqeUserData = u, cqeRes = fst v, cqeFlags = snd v\<rparr>"
proof -
  show slot: "cq_slot (cqHead c) c < length (cqEntries c)"
    using assms cq_ring.slot_less [of k c] by (simp add: cq_drained_def cq_slot_def)
  then show "cqEntries (post u v c) ! cq_slot (cqHead c) c = \<lparr>cqeUserData = u, cqeRes = fst v, cqeFlags = snd v\<rparr>"
    using assms by (simp add: cq_drained_def post_def cq_slot_def)
qed

lemma post_first_pass:
  assumes "cq_drained k c"
  shows "\<exists>rest. first_pass (post u v c) = \<lparr>cqeUserData = u, cqeRes = fst v, cqeFlags = snd v\<rparr> # rest"
  using post_entry [OF assms] window_step [of "cq_slot (cqHead c) c" _ "cqEntries (post u v c)"]
  by (auto simp: first_pass_def)

section \<open>Entering for one entry\<close>

text \<open>After one preparing call and the kernel's answer the submission queue is drained again.\<close>

lemma sq_drained_slots: "sq_drained k s \<Longrightarrow> next_slot s = head_slot s"
  using next_slot_mod [of k s] head_slot_mod [of k s] by (simp add: sq_drained_def)

lemma sq_drained_served:
  assumes "sq_drained k s"
  shows "sq_drained k ((prepared s e)\<lparr>sqHead := sqHead s + 1\<rparr>)"
proof -
  let ?t = "(prepared s e)\<lparr>sqHead := sqHead s + 1\<rparr>"
  have wf: "sq_wf k s" "sq_wf k ?t" using assms by (auto simp: sq_drained_def sq_wf_def prepared_def)
  have "head_slot ?t = Suc (head_slot s) mod 2 ^ k"
    using sq_ring.unat_slot_add [OF wf(1), of "sqHead s" 1] sq_ring.wf_slots [OF wf(1)]
    by (simp add: head_slot_def mod_Suc_eq sq_ring.unat_slot [OF wf(1)])
  moreover have "next_slot ?t = Suc (next_slot s) mod 2 ^ k"
    using next_slot_prepared [OF wf(1), of e] by (simp add: next_slot_def)
  ultimately have "head_slot ?t = next_slot ?t"
    using sq_drained_slots [OF assms] by simp
  then show ?thesis
    using assms wf next_slot_mod [OF wf(2)] head_slot_mod [OF wf(2)] by (simp add: sq_drained_def)
qed

lemma kernel_pick_prepared:
  assumes "sq_drained k s"
  shows "kernel_pick (prepared s e) 0 = e"
  using kernel_pick_head [OF pending_first [of k s e]] assms sq_drained_slots [OF assms]
  by (simp add: sq_drained_def)

lemma enter_served:
  assumes sys: "executes sys exec" and exec: "exec e w = (v, w')"
    and sq: "ringSq r = Some (prepared s e)" "sq_drained ks s"
    and cq: "ringCq r = Some c"
  shows "Ring_Enter sys 1 least flags sigset r w = Some (Ok 1,
    r\<lparr>ringSq := Some ((prepared s e)\<lparr>sqHead := sqHead s + 1\<rparr>), ringCq := Some (post (sqeUserData e) v c)\<rparr>, w')"
proof -
  let ?s = "(prepared s e)\<lparr>sqEntered := 1\<rparr>"
  have "kernel_pick ?s 0 = e"
    using kernel_pick_prepared [OF sq(2), of e] by (simp add: kernel_pick_def)
  then have "sys EnterSyscall fd 1 least fl sigset 0 (?s, Some c, w) =
      ((?s\<lparr>sqHead := sqHead s + 1\<rparr>, Some (post (sqeUserData e) v c), w'), 1, 0)" for fd fl
    using sys exec by (simp add: executes_def)
  then show ?thesis
    using sq cq by (simp add: Ring_Enter_def sq_drained_def enterLock_free Enter_def Enter_result_def enterUnlock_def Let_def)
qed

section \<open>Scanning for one request\<close>

lemma deliveries_fmempty [simp]: "deliveries fmempty es = []"
  by (induction es) simp_all

lemma lead_fmempty [simp]: "lead fmempty es = 0"
  by (cases es) simp_all

text \<open>The scan after the kernel's answer signals the one request in flight and drains the ring.\<close>

lemma onEntry_served:
  assumes "cq_drained k c" and "crId req = u"
  shows "onEntry (fmupd u req fmempty) (post u v c) =
    (Ok (), fmempty, [req\<lparr>crRes := fst v, crFlags := snd v\<rparr>], (post u v c)\<lparr>cqHead := cqTail c + 1\<rparr>)"
proof -
  let ?m = "fmupd u req fmempty" and ?c = "post u v c" and ?e = "\<lparr>cqeUserData = u, cqeRes = fst v, cqeFlags = snd v\<rparr>"
  have wf: "cq_wf k ?c" using assms(1) by (simp add: cq_drained_def)
  have keyed: "keyed ?m" using assms(2) by (auto simp: keyed_def)
  obtain rest where fp: "first_pass ?c = ?e # rest"
    using post_first_pass [OF assms(1)] by blast
  have drop: "fmdrop u ?m = fmempty" by (intro fmap_ext) simp
  have none: "esInflight (scan_cqes (first_pass ?c) (scan_start ?m)) = fmempty"
    using scan_inflight [of "scan_start ?m" "first_pass ?c"] keyed fp
    by (intro fmap_ext) (auto simp: scan_start_def)
  have "esInflight (scan_all ?m ?c) = fmempty"
    using scan_all_delivers(2) [OF keyed, of ?c] fp by (intro fmap_ext) (auto simp: visited_def)
  moreover have "esDone (scan_all ?m ?c) = [req\<lparr>crRes := fst v, crFlags := snd v\<rparr>]"
    by (simp add: scan_all_delivers(1) [OF keyed] visited_def fp drop)
  moreover have "esSeenIdx (scan_all ?m ?c) = 1"
    by (simp add: scan_all_seenIdx [OF keyed] none) (simp add: fp drop)
  ultimately show ?thesis
    using onEntry_eq [OF wf, of ?m] assms(1) by (simp add: cq_drained_def)
qed

lemma cq_drained_served: "cq_drained k c \<Longrightarrow> cq_drained k ((post u v c)\<lparr>cqHead := cqTail c + 1\<rparr>)"
  by (simp add: cq_drained_def cq_wf_def post_def)

section \<open>A kernel that keeps the contract\<close>

text \<open>A kernel that executes one entry per call and touches nothing else.\<close>

definition serving_kernel :: "(SubmitEntry \<Rightarrow> 'k \<Rightarrow> (i32 \<times> u32) \<times> 'k) \<Rightarrow> 'k ring_mem kernel6" where
  "serving_kernel exec trap a1 a2 a3 a4 a5 a6 mem =
     (case mem of
        (s, Some c, w) \<Rightarrow>
          (case exec (kernel_pick s 0) w of (v, w') \<Rightarrow>
             ((s\<lparr>sqHead := sqHead s + 1\<rparr>, Some (post (sqeUserData (kernel_pick s 0)) v c), w'), 1, 0))
      | _ \<Rightarrow> (mem, 0, 0))"

lemma serving_kernel_executes: "executes (serving_kernel exec) exec"
  by (simp add: executes_def serving_kernel_def)

end
