(* ===== verification/Read_Writer.thy ===== *)
theory Read_Writer
  imports Ring_New
begin

text \<open>
  \<open>read_writer.go\<close>: file I/O through a ring, and \<open>fileReadWriter\<close> of \<open>ring.go\<close> that makes it.
  The completion queue is shared with the kernel: \<open>obs n\<close> is the queue as the \<open>n\<close>-th pass of a
  search sees it, and for a call that enters the kernel first, \<open>obs c\<close> are the passes after the
  kernel left the queue as \<open>c\<close>. \<open>None\<close> is a call that does not return: polling forever, the lock never free, or
  the completer's channel full. What \<open>os.File\<close> answers to \<open>Seek\<close> and \<open>Stat\<close> is an argument.
\<close>

section \<open>The file\<close>

record ringFIO =
  fioR :: Ring
  fioFd :: i32
  fioOffset :: i64

definition fileReadWriter ::
  "'w kernel6 \<Rightarrow> (goint list \<Rightarrow> u64) \<Rightarrow> i64 go \<Rightarrow> u64 \<Rightarrow> Ring \<Rightarrow> 'w \<Rightarrow> (ringFIO option \<times> unit go) \<times> Ring \<times> 'w" where
  "fileReadWriter sys addr seeked fd r w =
     (case seeked of
        Err e \<Rightarrow> ((None, Err e), r, w)
      | Panic p \<Rightarrow> ((None, Panic p), r, w)
      | Ok offset \<Rightarrow>
          (case ringFileReg r of
             None \<Rightarrow> ((Some \<lparr>fioR = r, fioFd = ucast fd, fioOffset = offset\<rparr>, Ok ()), r, w)
           | Some reg \<Rightarrow>
               (let (res, reg, w) = registry_Register sys addr fd reg w;
                    r = r\<lparr>ringFileReg := Some reg\<rparr>
                in ((Some \<lparr>fioR = r, fioFd = ucast fd, fioOffset = offset\<rparr>, res), r, w))))"

definition FileReadWriter ::
  "'w kernel6 \<Rightarrow> (goint list \<Rightarrow> u64) \<Rightarrow> i64 go \<Rightarrow> u64 \<Rightarrow> Ring \<Rightarrow> 'w \<Rightarrow> (ringFIO option \<times> unit go) \<times> Ring \<times> 'w" where
  "FileReadWriter sys addr seeked fd r w = fileReadWriter sys addr seeked fd r w"

section \<open>Waiting for a completion\<close>

datatype fio_poll = FioHit nat | FioAgain | FioEnd | FioPanic

function fio_first :: "CompletionEntry list \<Rightarrow> u64 \<Rightarrow> nat \<Rightarrow> nat \<Rightarrow> fio_poll" where
  "fio_first es reqID end x =
     (if x < length es then
        if cqeUserData (es ! x) = reqID then FioHit x
        else if x = end then FioAgain
        else fio_first es reqID end (Suc x)
      else FioEnd)"
  by pat_completeness auto
termination
  by (relation "measure (\<lambda>(es, reqID, end, x). length es - x)") auto

function fio_second :: "CompletionEntry list \<Rightarrow> u64 \<Rightarrow> nat \<Rightarrow> nat \<Rightarrow> fio_poll" where
  "fio_second es reqID end x =
     (if x < end then
        if length es \<le> x then FioPanic
        else if cqeUserData (es ! x) = reqID then FioHit x
        else if x = end then FioAgain
        else fio_second es reqID end (Suc x)
      else FioEnd)"
  by pat_completeness auto
termination
  by (relation "measure (\<lambda>(es, reqID, end, x). end - x)") auto

declare fio_first.simps [simp del] fio_second.simps [simp del]

text \<open>The search; after the second loop it starts again. It returns the slot and the entry.\<close>

partial_function (option) fio_find ::
  "(nat \<Rightarrow> CompletionQueue) \<Rightarrow> nat \<Rightarrow> u64 \<Rightarrow> (nat \<times> CompletionEntry) go option" where
  "fio_find obs n reqID =
     (let c = obs n
      in case fio_first (cqEntries c) reqID (unat (cqTail c AND cqMask c)) (unat (cqHead c AND cqMask c)) of
           FioHit x \<Rightarrow> Some (Ok (x, cqEntries c ! x))
         | FioAgain \<Rightarrow> fio_find obs (Suc (Suc n)) reqID
         | FioPanic \<Rightarrow> Some (Panic IndexOutOfRange)
         | FioEnd \<Rightarrow>
             (let c = obs (Suc n)
              in case fio_second (cqEntries c) reqID (unat (cqTail c AND cqMask c)) 0 of
                   FioHit x \<Rightarrow> Some (Ok (x, cqEntries c ! x))
                 | FioPanic \<Rightarrow> Some (Panic IndexOutOfRange)
                 | _ \<Rightarrow> fio_find obs (Suc (Suc n)) reqID))"

text \<open>What \<open>getCqe\<close> does with the completion: a negative result is the error; otherwise the file
  offset moves and the slot is acknowledged to the completer.\<close>

definition fio_hit :: "nat \<Rightarrow> CompletionEntry \<Rightarrow> ringFIO \<Rightarrow> (goint go \<times> ringFIO) option" where
  "fio_hit x cqe i =
     (if sint (cqeRes cqe) < 0 then Some (Err (Errno (scast (- cqeRes cqe))), i)
      else
        let i = i\<lparr>fioOffset := fioOffset i + scast (cqeRes cqe)\<rparr>
        in case completer_complete (int x) (ringC (fioR i)) of
             None \<Rightarrow> None
           | Some c \<Rightarrow> Some (Ok (scast (cqeRes cqe)), i\<lparr>fioR := (fioR i)\<lparr>ringC := c\<rparr>\<rparr>))"

definition fio_getCqe ::
  "'k ring_mem kernel6 \<Rightarrow> (CompletionQueue \<Rightarrow> nat \<Rightarrow> CompletionQueue) \<Rightarrow> u64 \<Rightarrow> goint \<Rightarrow> goint \<Rightarrow> ringFIO \<Rightarrow> 'k
   \<Rightarrow> (goint go \<times> ringFIO \<times> 'k) option" where
  "fio_getCqe sys obs reqID count mn i k =
     (case (if 0 < sint count \<or> 0 < sint mn then Ring_Enter sys count mn EnterGetEvents 0 (fioR i) k
            else Some (Ok 0, fioR i, k)) of
        None \<Rightarrow> None
      | Some (Err e, r, k) \<Rightarrow> Some (Err e, i\<lparr>fioR := r\<rparr>, k)
      | Some (Panic p, r, k) \<Rightarrow> Some (Panic p, i\<lparr>fioR := r\<rparr>, k)
      | Some (Ok _, r, k) \<Rightarrow>
          (let i = i\<lparr>fioR := r\<rparr>
           in case ringCq r of
                None \<Rightarrow> Some (Panic NilDereference, i, k)
              | Some c \<Rightarrow>
                  (case fio_find (obs c) 0 reqID of
                     None \<Rightarrow> None
                   | Some (Ok (x, cqe)) \<Rightarrow>
                       (case fio_hit x cqe i of None \<Rightarrow> None | Some (res, i) \<Rightarrow> Some (res, i, k))
                   | Some (Err e) \<Rightarrow> Some (Err e, i, k)
                   | Some (Panic p) \<Rightarrow> Some (Panic p, i, k))))"

section \<open>Reading and writing\<close>

definition fill_fio :: "Opcode \<Rightarrow> i32 \<Rightarrow> slice \<Rightarrow> u8 \<Rightarrow> u64 \<Rightarrow> fill" where
  "fill_fio code fd b flags offset uid e =
     set_addr b (e\<lparr>sqeOpcode := code, sqeUserData := uid, sqeFd := fd, sqeLen := of_nat (sliceLen b),
       sqeFlags := flags, sqeOffset := offset\<rparr>)"

text \<open>
  \<open>PrepareWrite\<close> and \<open>PrepareRead\<close> hand the callback to their caller: the result is the id with
  the captured variables of the callback.
\<close>

definition fio_prepare :: "fill \<Rightarrow> Ring \<Rightarrow> ((u64 \<times> ready) go \<times> Ring) option" where
  "fio_prepare fill r =
     (case Ring_SubmitEntry r of
        None \<Rightarrow> None
      | Some (Panic p, r) \<Rightarrow> Some (Panic p, r)
      | Some (Err e, r) \<Rightarrow> Some (Err e, r)
      | Some (Ok None, r) \<Rightarrow> Some (Err errRingUnavailable, r)
      | Some (Ok (Some (j, rd)), r) \<Rightarrow>
          (case ringSq r of
             None \<Rightarrow> Some (Panic NilDereference, r)
           | Some s \<Rightarrow>
               (let (uid, r) = Ring_ID r;
                    (panicked, e) = fill uid (sqEntries s ! j);
                    r = r\<lparr>ringSq := Some (s\<lparr>sqEntries := (sqEntries s)[j := e]\<rparr>)\<rparr>
                in case panicked of
                     Some p \<Rightarrow> Some (Panic p, r)
                   | None \<Rightarrow> Some (Ok (sqeUserData e, rd), r))))"

definition fio_PrepareWrite :: "slice \<Rightarrow> u8 \<Rightarrow> ringFIO \<Rightarrow> ((u64 \<times> ready) go \<times> Ring) option" where
  "fio_PrepareWrite b flags i = fio_prepare (fill_fio Write (fioFd i) b flags (fioOffset i)) (fioR i)"

definition fio_PrepareRead :: "slice \<Rightarrow> u8 \<Rightarrow> ringFIO \<Rightarrow> ((u64 \<times> ready) go \<times> Ring) option" where
  "fio_PrepareRead b flags i = fio_prepare (fill_fio Read (fioFd i) b flags (fioOffset i)) (fioR i)"

definition call_ready :: "ready \<Rightarrow> Ring \<Rightarrow> unit go \<times> Ring" where
  "call_ready rd r =
     (case ringSq r of
        None \<Rightarrow> (Panic NilDereference, r)
      | Some s \<Rightarrow> (case ready_callback rd s of (res, s) \<Rightarrow> (res, r\<lparr>ringSq := Some s\<rparr>)))"

text \<open>Prepare, call \<open>ready\<close>, wait: the body of \<open>Write\<close> and the first half of \<open>Read\<close>.\<close>

definition fio_call ::
  "'k ring_mem kernel6 \<Rightarrow> (CompletionQueue \<Rightarrow> nat \<Rightarrow> CompletionQueue) \<Rightarrow> ((u64 \<times> ready) go \<times> Ring) option \<Rightarrow> ringFIO \<Rightarrow> 'k
   \<Rightarrow> (goint go \<times> ringFIO \<times> 'k) option" where
  "fio_call sys obs opened i k =
     (case opened of
        None \<Rightarrow> None
      | Some (Err e, r) \<Rightarrow> Some (Err e, i\<lparr>fioR := r\<rparr>, k)
      | Some (Panic p, r) \<Rightarrow> Some (Panic p, i\<lparr>fioR := r\<rparr>, k)
      | Some (Ok (uid, rd), r) \<Rightarrow>
          (case call_ready rd r of
             (Ok _, r) \<Rightarrow> fio_getCqe sys obs uid 1 1 (i\<lparr>fioR := r\<rparr>) k
           | (Err e, r) \<Rightarrow> Some (Err e, i\<lparr>fioR := r\<rparr>, k)
           | (Panic p, r) \<Rightarrow> Some (Panic p, i\<lparr>fioR := r\<rparr>, k)))"

text \<open>The end of \<open>Read\<close> and \<open>ReadAt\<close>: nothing read is \<open>io.EOF\<close>.\<close>

definition eof_if_zero :: "goint go \<Rightarrow> goint go" where
  "eof_if_zero res = (case res of Ok n \<Rightarrow> if n = 0 then Err EOF else Ok n | _ \<Rightarrow> res)"

definition fio_Write where
  "fio_Write sys obs b i k = fio_call sys obs (fio_PrepareWrite b 0 i) i k"

definition fio_Read where
  "fio_Read sys obs b i k =
     map_option (\<lambda>(res, i, k). (eof_if_zero res, i, k)) (fio_call sys obs (fio_PrepareRead b 0 i) i k)"

text \<open>\<open>WriteAt\<close> and \<open>ReadAt\<close> prepare their entry with \<open>ready\<close> called before they wait.\<close>

definition fio_at ::
  "'k ring_mem kernel6 \<Rightarrow> (CompletionQueue \<Rightarrow> nat \<Rightarrow> CompletionQueue) \<Rightarrow> fill \<Rightarrow> ringFIO \<Rightarrow> 'k \<Rightarrow> (goint go \<times> ringFIO \<times> 'k) option" where
  "fio_at sys obs fill i k =
     (case prepare fill (fioR i) of
        None \<Rightarrow> None
      | Some (Err e, r) \<Rightarrow> Some (Err e, i\<lparr>fioR := r\<rparr>, k)
      | Some (Panic p, r) \<Rightarrow> Some (Panic p, i\<lparr>fioR := r\<rparr>, k)
      | Some (Ok uid, r) \<Rightarrow> fio_getCqe sys obs uid 1 1 (i\<lparr>fioR := r\<rparr>) k)"

definition fio_WriteAt where
  "fio_WriteAt sys obs b off i k = fio_at sys obs (fill_fio Write (fioFd i) b 0 off) i k"

definition fio_ReadAt where
  "fio_ReadAt sys obs b off i k =
     map_option (\<lambda>(res, i, k). (eof_if_zero res, i, k)) (fio_at sys obs (fill_fio Read (fioFd i) b 0 off) i k)"

definition fio_Close ::
  "'k ring_mem kernel6 \<Rightarrow> (CompletionQueue \<Rightarrow> nat \<Rightarrow> CompletionQueue) \<Rightarrow> ringFIO \<Rightarrow> 'k \<Rightarrow> (unit go \<times> ringFIO \<times> 'k) option" where
  "fio_Close sys obs i k =
     (case PrepareClose (scast (fioFd i)) (fioR i) of
        None \<Rightarrow> None
      | Some (Err e, r) \<Rightarrow> Some (Err e, i\<lparr>fioR := r\<rparr>, k)
      | Some (Panic p, r) \<Rightarrow> Some (Panic p, i\<lparr>fioR := r\<rparr>, k)
      | Some (Ok uid, r) \<Rightarrow>
          (case fio_getCqe sys obs uid 1 1 (i\<lparr>fioR := r\<rparr>) k of
             None \<Rightarrow> None
           | Some (Ok _, i, k) \<Rightarrow> Some (Ok (), i, k)
           | Some (Err e, i, k) \<Rightarrow> Some (Err e, i, k)
           | Some (Panic p, i, k) \<Rightarrow> Some (Panic p, i, k)))"

section \<open>Seeking\<close>

definition SeekStart :: goint where "SeekStart = 0"
definition SeekCurrent :: goint where "SeekCurrent = 1"
definition SeekEnd :: goint where "SeekEnd = 2"

definition fio_Seek :: "i64 go \<Rightarrow> i64 \<Rightarrow> goint \<Rightarrow> ringFIO \<Rightarrow> i64 go \<times> ringFIO" where
  "fio_Seek stat offset whence i =
     (if whence = SeekStart then (Ok 0, i\<lparr>fioOffset := offset\<rparr>)
      else if whence = SeekCurrent then (Ok 0, i\<lparr>fioOffset := fioOffset i + offset\<rparr>)
      else if whence = SeekEnd then
        (case stat of
           Err e \<Rightarrow> (Err e, i)
         | Panic p \<Rightarrow> (Panic p, i)
         | Ok sz \<Rightarrow> (Ok 0, i\<lparr>fioOffset := sz - offset\<rparr>))
      else (Err (ErrorString ''unknown whence''), i))"

section \<open>The search\<close>

lemma fio_first_eq:
  "fio_first es u end x =
     (case find (\<lambda>j. cqeUserData (es ! j) = u)
             (if x \<le> end \<and> end < length es then [x ..< Suc end] else [x ..< length es]) of
        Some j \<Rightarrow> FioHit j
      | None \<Rightarrow> if x \<le> end \<and> end < length es then FioAgain else FioEnd)"
proof (induction es u "end" x rule: fio_first.induct)
  case (1 es u "end" x)
  show ?case
  proof (cases "x < length es")
    case True
    have "[x ..< length es] = x # [Suc x ..< length es]" using True by (rule upt_conv_Cons)
    moreover have "x \<le> end \<Longrightarrow> [x ..< Suc end] = x # [Suc x ..< Suc end]" by (simp add: upt_conv_Cons del: upt_Suc)
    moreover have "x \<noteq> end \<Longrightarrow> Suc x \<le> end \<longleftrightarrow> x \<le> end" by auto
    ultimately show ?thesis
      using 1 True by (subst fio_first.simps) (simp del: upt_Suc add: upt_conv_Cons, blast)
  qed (subst fio_first.simps, simp)
qed

lemma fio_second_eq:
  "end \<le> length es \<Longrightarrow> fio_second es u end x =
     (case find (\<lambda>j. cqeUserData (es ! j) = u) [x ..< end] of Some j \<Rightarrow> FioHit j | None \<Rightarrow> FioEnd)"
proof (induction es u "end" x rule: fio_second.induct)
  case (1 es u "end" x)
  show ?case
  proof (cases "x < end")
    case True
    then show ?thesis
      using 1 by (subst fio_second.simps) (simp add: upt_conv_Cons del: upt_Suc)
  qed (subst fio_second.simps, simp)
qed

definition fio_slots :: "CompletionQueue \<Rightarrow> nat list" where
  "fio_slots c =
     (if cq_slot (cqHead c) c \<le> cq_slot (cqTail c) c
      then [cq_slot (cqHead c) c ..< Suc (cq_slot (cqTail c) c)]
      else [cq_slot (cqHead c) c ..< length (cqEntries c)] @ [0 ..< cq_slot (cqTail c) c])"

text \<open>One attempt, on a queue that does not change during it.\<close>

lemma fio_find_attempt:
  assumes "cq_wf k c" "obs n = c" "obs (Suc n) = c"
  shows "fio_find obs n u =
    (case find (\<lambda>j. cqeUserData (cqEntries c ! j) = u) (fio_slots c) of
       Some j \<Rightarrow> Some (Ok (j, cqEntries c ! j))
     | None \<Rightarrow> fio_find obs (Suc (Suc n)) u)"
proof -
  have "cq_slot (cqTail c) c < length (cqEntries c)"
    using cq_ring.slot_less [OF assms(1)] by (simp add: cq_slot_def)
  then show ?thesis
    using assms(2,3)
    by (subst fio_find.simps)
      (auto simp: Let_def fio_first_eq fio_second_eq fio_slots_def cq_slot_def find_append
        simp del: upt_Suc split: option.splits)
qed

text \<open>Any attempt on well-formed queues finds an entry with the id or is followed by the next.\<close>

lemma fio_find_step:
  assumes "cq_wf k (obs n)" "cq_wf k (obs (Suc n))"
  shows "fio_find obs n u = fio_find obs (Suc (Suc n)) u
    \<or> (\<exists>x e. fio_find obs n u = Some (Ok (x, e)) \<and> cqeUserData e = u)"
proof -
  have "cq_slot (cqTail (obs m)) (obs m) < length (cqEntries (obs m))" if "cq_wf k (obs m)" for m
    using cq_ring.slot_less [OF that] by (simp add: cq_slot_def)
  with assms have len: "unat (cqTail (obs n) AND cqMask (obs n)) < length (cqEntries (obs n))"
      "unat (cqTail (obs (Suc n)) AND cqMask (obs (Suc n))) \<le> length (cqEntries (obs (Suc n)))"
    by (auto simp: cq_slot_def less_imp_le)
  have hit: "cqeUserData (es ! j) = u" if "find (\<lambda>j. cqeUserData (es ! j) = u) js = Some j" for es j js
    using that by (auto simp: find_Some_iff)
  show ?thesis
    by (subst (1 3) fio_find.simps)
      (auto simp: Let_def fio_first_eq fio_second_eq len simp del: upt_Suc dest: hit
        split: option.splits if_splits)
qed

section \<open>A whole call\<close>

text \<open>The entry a call submits, and the ring after its preparation.\<close>

definition fio_entry :: "Opcode \<Rightarrow> slice \<Rightarrow> u64 \<Rightarrow> ringFIO \<Rightarrow> SubmitQueue \<Rightarrow> SubmitEntry" where
  "fio_entry code b off i s = snd (fill_fio code (fioFd i) b 0 off (ringIdx (fioR i) + 1)
     (SubmitEntry_Reset (sqEntries s ! next_slot s)))"

definition fio_ring :: "Opcode \<Rightarrow> slice \<Rightarrow> u64 \<Rightarrow> ringFIO \<Rightarrow> SubmitQueue \<Rightarrow> Ring" where
  "fio_ring code b off i s = (fioR i)\<lparr>ringIdx := ringIdx (fioR i) + 1,
     ringSq := Some (prepared s (fio_entry code b off i s))\<rparr>"

lemma fill_fio_ok:
  "sliceLen b \<noteq> 0 \<Longrightarrow> fill_fio code fd b fl off uid e =
     (None, e\<lparr>sqeOpcode := code, sqeUserData := uid, sqeFd := fd, sqeLen := of_nat (sliceLen b),
        sqeFlags := fl, sqeOffset := off, sqeAddr := sliceData b\<rparr>)"
  by (simp add: fill_fio_def set_addr_def firstAddr_def)

lemma fio_at_eq:
  assumes "ringSq (fioR i) = Some s" "sq_wf k s" "sqEntered s = 0" "sqWrites s + 1 \<noteq> 0" "sliceLen b \<noteq> 0"
  shows "fio_at sys obs (fill_fio code (fioFd i) b 0 off) i w =
    fio_getCqe sys obs (ringIdx (fioR i) + 1) 1 1 (i\<lparr>fioR := fio_ring code b off i s\<rparr>) w"
  using prepare_eq [where fill = "fill_fio code (fioFd i) b 0 off",
      OF assms(1-3) fill_fio_ok [OF assms(5)] assms(4)]
  by (simp add: fio_at_def fio_ring_def fio_entry_def fill_fio_ok [OF assms(5)])

lemma fio_call_eq:
  assumes "ringSq (fioR i) = Some s" "sq_wf k s" "sqEntered s = 0" "sqWrites s + 1 \<noteq> 0" "sliceLen b \<noteq> 0"
  shows "fio_call sys obs (fio_prepare (fill_fio code (fioFd i) b 0 off) (fioR i)) i w =
    fio_getCqe sys obs (ringIdx (fioR i) + 1) 1 1 (i\<lparr>fioR := fio_ring code b off i s\<rparr>) w"
proof -
  have entries: "sqEntries (hand_out s) =
      (sqEntries s)[next_slot s := SubmitEntry_Reset (sqEntries s ! next_slot s)]"
    by (simp add: hand_out_def)
  have uid: "sqeUserData (fio_entry code b off i s) = ringIdx (fioR i) + 1"
    by (simp add: fio_entry_def fill_fio_ok [OF assms(5)])
  have "fio_prepare (fill_fio code (fioFd i) b 0 off) (fioR i) = Some (Ok (ringIdx (fioR i) + 1, callback_of s),
      (fioR i)\<lparr>ringIdx := ringIdx (fioR i) + 1, ringSq := Some ((hand_out s)\<lparr>sqEntries :=
        (sqEntries s)[next_slot s := fio_entry code b off i s]\<rparr>)\<rparr>)"
    using SubmitEntry_eq [OF assms(2,3)] next_slot_less [OF assms(2)] uid
    by (simp add: fio_prepare_def Ring_SubmitEntry_def assms(1) Ring_ID_def Let_def entries fio_entry_def
        fill_fio_ok [OF assms(5)])
  then show ?thesis
    using ready_callback_hand_out [OF assms(2,4)] by (simp add: fio_call_def call_ready_def fio_ring_def)
qed

text \<open>Waiting, once the kernel was entered and the completion is found.\<close>

lemma fio_getCqe_found:
  assumes "Ring_Enter sys 1 1 EnterGetEvents 0 (fioR i) w = Some (Ok m, r, w')" "ringCq r = Some c"
    and "fio_find (obs c) 0 u = Some (Ok (x, cqe))"
  shows "fio_getCqe sys obs u 1 1 i w =
    map_option (\<lambda>(res, i). (res, i, w')) (fio_hit x cqe (i\<lparr>fioR := r\<rparr>))"
  using assms by (simp add: fio_getCqe_def split: option.split)

lemma fio_hit_eq:
  "length (cpSeen (ringC (fioR i))) < cpBufSize (ringC (fioR i)) \<Longrightarrow>
   fio_hit x cqe i =
     (if sint (cqeRes cqe) < 0 then Some (Err (Errno (scast (- cqeRes cqe))), i)
      else Some (Ok (scast (cqeRes cqe)), i\<lparr>fioOffset := fioOffset i + scast (cqeRes cqe),
        fioR := (fioR i)\<lparr>ringC := (ringC (fioR i))\<lparr>cpSeen := cpSeen (ringC (fioR i)) @ [int x]\<rparr>\<rparr>\<rparr>))"
  by (simp add: fio_hit_def completer_complete_def Let_def)

section \<open>Specification\<close>

text \<open>
  The abstract file: a position. A sequential read or write whose request ends with the result
  \<open>res\<close> reports it and moves the position by it; nothing read is the end of the file.
\<close>

definition seq_io :: "i64 \<Rightarrow> i32 \<Rightarrow> goint go \<times> i64" where
  "seq_io pos res =
     (if sint res < 0 then (Err (Errno (scast (- res))), pos) else (Ok (scast res), pos + scast res))"

definition seq_read :: "i64 \<Rightarrow> i32 \<Rightarrow> goint go \<times> i64" where
  "seq_read pos res = (case seq_io pos res of (r, pos) \<Rightarrow> (eof_if_zero r, pos))"

lemma fio_done:
  assumes "Ring_Enter sys 1 1 EnterGetEvents 0 (fioR i) w = Some (Ok m, r, w')" "ringCq r = Some c"
    and "fio_find (obs c) 0 u = Some (Ok (x, cqe))" "length (cpSeen (ringC r)) < cpBufSize (ringC r)"
  shows "\<exists>i'. fio_getCqe sys obs u 1 1 i w = Some (fst (seq_io (fioOffset i) (cqeRes cqe)), i', w')
    \<and> fioOffset i' = snd (seq_io (fioOffset i) (cqeRes cqe))
    \<and> cpSeen (ringC (fioR i')) = cpSeen (ringC r) @ (if sint (cqeRes cqe) < 0 then [] else [int x])"
  using fio_getCqe_found [where obs = obs, OF assms(1-3)] fio_hit_eq [of "i\<lparr>fioR := r\<rparr>" x cqe] assms(4)
  by (simp add: seq_io_def)

text \<open>
  The contract of a call on an open file that its users rely on: the position moves by exactly the
  count the call reports, and a call that fails leaves it alone.
\<close>

locale positioned_call =
  fixes call :: "'i \<Rightarrow> 'k \<Rightarrow> (goint go \<times> 'i \<times> 'k) option"
    and pos :: "'i \<Rightarrow> i64"
  assumes moves: "call i k = Some (res, i', k') \<Longrightarrow> pos i' = (case res of Ok m \<Rightarrow> pos i + m | _ \<Rightarrow> pos i)"
begin

lemma moved: "call i k = Some (Ok m, i', k') \<Longrightarrow> pos i' - pos i = m"
  by (drule moves) simp

lemma stayed: "call i k = Some (Err e, i', k') \<Longrightarrow> pos i' = pos i"
  by (drule moves) simp

end

lemma fio_getCqe_moves:
  "fio_getCqe sys obs u n m i k = Some (res, i', k') \<Longrightarrow>
   fioOffset i' = (case res of Ok m \<Rightarrow> fioOffset i + m | _ \<Rightarrow> fioOffset i)"
  by (auto simp: fio_getCqe_def fio_hit_def Let_def split: option.splits prod.splits go.splits if_splits)

lemma fio_call_moves:
  "fio_call sys obs opened i k = Some (res, i', k') \<Longrightarrow>
   fioOffset i' = (case res of Ok m \<Rightarrow> fioOffset i + m | _ \<Rightarrow> fioOffset i)"
  by (auto simp: fio_call_def split: option.splits prod.splits go.splits dest!: fio_getCqe_moves)

lemma fio_Read_moves:
  assumes "fio_Read sys obs b i k = Some (res, i', k')"
  shows "fioOffset i' = (case res of Ok m \<Rightarrow> fioOffset i + m | _ \<Rightarrow> fioOffset i)"
proof -
  obtain res' where call: "fio_call sys obs (fio_PrepareRead b 0 i) i k = Some (res', i', k')"
    and res: "res = eof_if_zero res'"
    using assms by (auto simp: fio_Read_def)
  from fio_call_moves [OF call] show ?thesis
    by (cases res') (simp_all add: res eof_if_zero_def)
qed

interpretation fio_writes: positioned_call "fio_Write sys obs b" fioOffset for sys obs b
  by unfold_locales (unfold fio_Write_def, rule fio_call_moves)

interpretation fio_reads: positioned_call "fio_Read sys obs b" fioOffset for sys obs b
  by unfold_locales (rule fio_Read_moves)

section \<open>Properties\<close>


text \<open>
  \<open>ReadAt\<close> is not independent of the sequential position, which \<open>io.ReaderAt\<close> requires: the
  read is submitted at the given offset, but its result moves the position of the file like a
  sequential read.
\<close>

lemma ReadAt_moves_position:
  assumes "ringSq (fioR i) = Some s" "sq_wf k s" "sqEntered s = 0" "sqWrites s + 1 \<noteq> 0" "sliceLen b \<noteq> 0"
    and "Ring_Enter sys 1 1 EnterGetEvents 0 (fio_ring Read b off i s) w = Some (Ok m, r, w')"
    and "ringCq r = Some c" "fio_find (obs c) 0 (ringIdx (fioR i) + 1) = Some (Ok (x, cqe))"
    and "length (cpSeen (ringC r)) < cpBufSize (ringC r)"
  shows "\<exists>i'. fio_ReadAt sys obs b off i w = Some (fst (seq_read (fioOffset i) (cqeRes cqe)), i', w')
    \<and> sqeOffset (fio_entry Read b off i s) = off
    \<and> fioOffset i' = (if sint (cqeRes cqe) < 0 then fioOffset i else fioOffset i + scast (cqeRes cqe))"
proof -
  let ?i = "i\<lparr>fioR := fio_ring Read b off i s\<rparr>"
  have "sqeOffset (fio_entry Read b off i s) = off"
    by (simp add: fio_entry_def fill_fio_ok [OF assms(5)])
  then show ?thesis
    using fio_done [of sys ?i w m r w' c obs "ringIdx (fioR i) + 1" x cqe] assms(6-9)
      fio_at_eq [OF assms(1-5), of sys obs Read off w]
    by (auto simp: fio_ReadAt_def seq_read_def seq_io_def split: prod.split)
qed

text \<open>A file at position 100 on a ring whose kernel completes request 1 with five bytes.\<close>

definition sample_fio :: ringFIO where
  "sample_fio = \<lparr>fioR = sample_ring (sample_sq 2 0 0), fioFd = 7, fioOffset = 100\<rparr>"

definition sample_buf :: slice where "sample_buf = \<lparr>sliceData = 512, sliceLen = 64\<rparr>"

definition answered_cq :: CompletionQueue where
  "answered_cq = sample_cq 0 1 [sample_cqe 1 5, sample_cqe 0 0, sample_cqe 0 0, sample_cqe 0 0]"

lemma answered_find: "fio_find (\<lambda>_. answered_cq) 0 1 = Some (Ok (0, sample_cqe 1 5))"
proof -
  have "cq_wf 2 answered_cq"
    by (simp add: answered_cq_def cq_wf_def sample_cq_def mask_eq_exp_minus_1)
  from fio_find_attempt [OF this, of "\<lambda>_. answered_cq" 0 1] show ?thesis
    by (simp add: fio_slots_def cq_slot_def answered_cq_def sample_cq_def sample_cqe_def upt_rec)
qed

lemma sample_fio_enter:
  "\<exists>r. Ring_Enter idle_kernel 1 1 EnterGetEvents 0 (fio_ring Read sample_buf off sample_fio (sample_sq 2 0 0)) ()
     = Some (Ok 0, r, ()) \<and> ringC r = newCompleter 512 \<and> (\<exists>c. ringCq r = Some c)"
  by (simp add: Ring_Enter_def fio_ring_def sample_fio_def sample_ring_def enterLock_free Enter_def
      idle_kernel_def Enter_result_def prepared_def sample_sq_def)

lemma sample_fio_facts:
  "ringSq (fioR sample_fio) = Some (sample_sq 2 0 0)" "sq_wf 2 (sample_sq 2 0 0)"
  "sqEntered (sample_sq 2 0 0) = 0" "sqWrites (sample_sq 2 0 0) + 1 \<noteq> 0" "sliceLen sample_buf \<noteq> 0"
  "ringIdx (fioR sample_fio) + 1 = 1" "fioOffset sample_fio = 100"
  by (simp_all add: sample_fio_def sample_ring_def sample_buf_def)
    (simp_all add: sample_sq_def)


lemma ReadAt_moves_position_example:
  "\<exists>i'. fio_ReadAt idle_kernel (\<lambda>_ _. answered_cq) sample_buf 2000 sample_fio () = Some (Ok 5, i', ()) \<and> fioOffset i' = 105"
proof -
  obtain r c where enter: "Ring_Enter idle_kernel 1 1 EnterGetEvents 0
      (fio_ring Read sample_buf 2000 sample_fio (sample_sq 2 0 0)) () = Some (Ok 0, r, ())"
      and cq: "ringCq r = Some c" and "ringC r = newCompleter 512"
    using sample_fio_enter by blast
  then have room: "length (cpSeen (ringC r)) < cpBufSize (ringC r)" by (simp add: newCompleter_def)
  have find: "fio_find (\<lambda>_. answered_cq) 0 (ringIdx (fioR sample_fio) + 1) = Some (Ok (0, sample_cqe 1 5))"
    unfolding sample_fio_facts(6) by (rule answered_find)
  from ReadAt_moves_position [OF sample_fio_facts(1-5) enter cq find room] show ?thesis
    by (auto simp: seq_read_def seq_io_def eof_if_zero_def sample_cqe_def sample_fio_facts(7))
qed

text \<open>The position that \<open>io.Seeker\<close> asks for, in a file of \<open>sz\<close> bytes at \<open>pos\<close>.\<close>

definition seek_spec :: "i64 \<Rightarrow> i64 \<Rightarrow> goint \<Rightarrow> i64 \<Rightarrow> i64" where
  "seek_spec sz off whence pos =
     (if whence = SeekStart then off else if whence = SeekCurrent then pos + off else sz + off)"

text \<open>
  \<open>Seek\<close> against the contract of \<open>io.Seeker\<close>: from the start and from the current position it
  moves where it should; from the end it moves to the size minus the offset, which is right only
  when twice the offset is zero. The result, which should be the new position, is 0 in all three
  cases.
\<close>

lemma Seek_against_contract:
  "fioOffset (snd (fio_Seek (Ok sz) off SeekStart i)) = seek_spec sz off SeekStart (fioOffset i)
   \<and> fioOffset (snd (fio_Seek (Ok sz) off SeekCurrent i)) = seek_spec sz off SeekCurrent (fioOffset i)
   \<and> (fioOffset (snd (fio_Seek (Ok sz) off SeekEnd i)) = seek_spec sz off SeekEnd (fioOffset i)
        \<longleftrightarrow> off + off = 0)
   \<and> fst ` (\<lambda>whence. fio_Seek (Ok sz) off whence i) ` {SeekStart, SeekCurrent, SeekEnd} = {Ok 0}"
proof -
  have "sz - off = sz + off \<longleftrightarrow> - off = off"
    by (simp only: diff_conv_add_uminus add_left_cancel)
  then have "sz - off = sz + off \<longleftrightarrow> off + off = 0"
    using neg_eq_iff_add_eq_0 [of off off] by simp
  then show ?thesis
    by (simp add: fio_Seek_def seek_spec_def SeekStart_def SeekCurrent_def SeekEnd_def)
qed

text \<open>
  C18: The search for a completion ends: if at some attempt the queue stands still and shows a
  completion with the id between its head and its tail, the search returns a completion with that
  id, whatever the queue held in the attempts before.
\<close>

theorem fio_find_returns:
  assumes "\<forall>j. cq_wf k (obs j)" "obs (2 * m) = c" "obs (2 * m + 1) = c"
    and "find (\<lambda>j. cqeUserData (cqEntries c ! j) = u) (fio_slots c) \<noteq> None"
  shows "\<exists>x e. fio_find obs 0 u = Some (Ok (x, e)) \<and> cqeUserData e = u"
proof -
  have "\<exists>x e. fio_find obs (2 * (m - d)) u = Some (Ok (x, e)) \<and> cqeUserData e = u" if "d \<le> m" for d
    using that
  proof (induction d)
    case 0
    obtain j where j: "find (\<lambda>j. cqeUserData (cqEntries c ! j) = u) (fio_slots c) = Some j"
      using assms(4) by blast
    then have "cqeUserData (cqEntries c ! j) = u" by (auto simp: find_Some_iff)
    moreover have "fio_find obs (2 * m) u = Some (Ok (j, cqEntries c ! j))"
      using fio_find_attempt [of k c obs "2 * m" u] assms(1-3) j by auto
    ultimately show ?case by simp
  next
    case (Suc d)
    then have "Suc (Suc (2 * (m - Suc d))) = 2 * (m - d)" by simp
    with Suc fio_find_step [of k obs "2 * (m - Suc d)" u] assms(1) show ?case by auto
  qed
  from this [of m] show ?thesis by simp
qed

theorem fio_find_returns_witness:
  "\<exists>x e. fio_find (\<lambda>n. if n < 4 then answered_cq\<lparr>cqTail := 0, cqEntries := replicate 4 (sample_cqe 0 0)\<rparr>
       else answered_cq) 0 1 = Some (Ok (x, e)) \<and> cqeUserData e = 1"
proof (rule fio_find_returns [of 2 _ 2 answered_cq])
  show "find (\<lambda>j. cqeUserData (cqEntries answered_cq ! j) = 1) (fio_slots answered_cq) \<noteq> None"
    by (simp add: fio_slots_def cq_slot_def answered_cq_def sample_cq_def sample_cqe_def upt_rec)
qed (auto simp: answered_cq_def cq_wf_def sample_cq_def mask_eq_exp_minus_1)

end
