(* ===== verification/Ring_Conn.thy ===== *)
theory Ring_Conn
  imports Read_Writer
begin

text \<open>
  \<open>ring_conn.go\<close>: connections over a ring. The channel \<open>stop\<close> of a connection holds two
  messages; \<open>None\<close> is a call that blocks on it, or on the ring's lock. Whether the context of a
  call is done is an argument; the callers in the package use \<open>context.Background\<close>, which never is.
  The channel \<open>poll\<close> is created and never used, so it is left out; \<open>deadMu\<close> makes each setter one
  step. A connection carries the ring it points to.
\<close>

section \<open>Connections\<close>

record addr =
  addrNet :: string
  addrS :: string

definition addr_Network :: "addr \<Rightarrow> string" where "addr_Network a = addrNet a"
definition addr_String :: "addr \<Rightarrow> string" where "addr_String a = addrS a"

record ringConn =
  rcFd :: goint
  rcLaddr :: addr
  rcRaddr :: addr
  rcR :: Ring
  rcOffset :: i64
  rcStop :: nat
  rcPollReady :: i32
  rcDeadline :: i64
  rcReadDeadline :: i64
  rcWriteDeadline :: i64

definition POLLIN :: i32 where "POLLIN = 1"

definition stop_cap :: nat where "stop_cap = 2"

definition send_stop :: "ringConn \<Rightarrow> ringConn option" where
  "send_stop c = (if rcStop c < stop_cap then Some (c\<lparr>rcStop := Suc (rcStop c)\<rparr>) else None)"

section \<open>Filling an entry\<close>

text \<open>
  \<open>SubmitEntry\<close> followed by assignments to the entry. A nil entry is tested for by some callers
  and dereferenced by the others; what happens then is the first argument.
\<close>

definition fill_entry ::
  "(nat \<times> ready) go \<Rightarrow> (SubmitEntry \<Rightarrow> gopanic option \<times> SubmitEntry) \<Rightarrow> Ring \<Rightarrow> ((nat \<times> ready) go \<times> Ring) option" where
  "fill_entry on_nil fill r =
     (case Ring_SubmitEntry r of
        None \<Rightarrow> None
      | Some (Panic p, r) \<Rightarrow> Some (Panic p, r)
      | Some (Err e, r) \<Rightarrow> Some (Err e, r)
      | Some (Ok None, r) \<Rightarrow> Some (on_nil, r)
      | Some (Ok (Some (j, rd)), r) \<Rightarrow>
          (case ringSq r of
             None \<Rightarrow> Some (Panic NilDereference, r)
           | Some s \<Rightarrow>
               (let (panicked, e) = fill (sqEntries s ! j);
                    r = r\<lparr>ringSq := Some (s\<lparr>sqEntries := (sqEntries s)[j := e]\<rparr>)\<rparr>
                in case panicked of Some p \<Rightarrow> Some (Panic p, r) | None \<Rightarrow> Some (Ok (j, rd), r))))"

definition set_user_data :: "nat \<Rightarrow> u64 \<Rightarrow> Ring \<Rightarrow> Ring" where
  "set_user_data j uid r =
     r\<lparr>ringSq := map_option (\<lambda>s. s\<lparr>sqEntries := (sqEntries s)[j := (sqEntries s ! j)\<lparr>sqeUserData := uid\<rparr>]\<rparr>) (ringSq r)\<rparr>"

text \<open>An entry whose id is drawn first: the polls.\<close>

definition poll_entry :: "Opcode \<Rightarrow> goint \<Rightarrow> i32 \<Rightarrow> u64 \<Rightarrow> SubmitEntry \<Rightarrow> gopanic option \<times> SubmitEntry" where
  "poll_entry code fd uflags uid e =
     (None, e\<lparr>sqeOpcode := code, sqeFd := ucast fd, sqeUFlags := uflags, sqeUserData := uid\<rparr>)"

definition remove_entry :: "goint \<Rightarrow> u64 \<Rightarrow> SubmitEntry \<Rightarrow> gopanic option \<times> SubmitEntry" where
  "remove_entry fd uid e = (None, e\<lparr>sqeOpcode := PollRemove, sqeFd := ucast fd, sqeUserData := uid\<rparr>)"

definition submit_entry ::
  "(SubmitEntry \<Rightarrow> gopanic option \<times> SubmitEntry) \<Rightarrow> Ring \<Rightarrow> (unit go \<times> Ring) option" where
  "submit_entry fill r =
     (case fill_entry (Panic NilDereference) fill r of
        None \<Rightarrow> None
      | Some (Ok (j, rd), r) \<Rightarrow> Some (call_ready rd r)
      | Some (Err e, r) \<Rightarrow> Some (Err e, r)
      | Some (Panic p, r) \<Rightarrow> Some (Panic p, r))"

section \<open>Waiting for a completion\<close>

definition ETIMEDOUT :: u64 where "ETIMEDOUT = 110"

partial_function (option) conn_poll ::
  "bool \<Rightarrow> u64 \<Rightarrow> CompletionQueue \<Rightarrow> (CompletionEntry go \<times> CompletionQueue) option" where
  "conn_poll cancelled reqID cq =
     (if cancelled then Some (Err (Errno ETIMEDOUT), cq)
      else case EntryBy reqID cq of
             (Ok j, cq) \<Rightarrow> Some (Ok (cqEntries cq ! j), cq)
           | (Panic p, cq) \<Rightarrow> Some (Panic p, cq)
           | (Err e, cq) \<Rightarrow>
               if e \<noteq> ErrEntryNotFound then conn_poll cancelled reqID cq else Some (Err e, cq))"

definition conn_result :: "CompletionEntry \<Rightarrow> goint go" where
  "conn_result cqe =
     (let res = scast (cqeRes cqe) :: goint in if sint res < 0 then Err (Errno (- res)) else Ok res)"

definition conn_getCqe ::
  "'k ring_mem kernel6 \<Rightarrow> bool \<Rightarrow> u64 \<Rightarrow> ringConn \<Rightarrow> 'k \<Rightarrow> (goint go \<times> ringConn \<times> 'k) option" where
  "conn_getCqe sys cancelled reqID c k =
     (case Ring_Enter sys 1024 1 EnterGetEvents 0 (rcR c) k of
        None \<Rightarrow> None
      | Some (Err e, r, k) \<Rightarrow> Some (Err e, c\<lparr>rcR := r\<rparr>, k)
      | Some (Panic p, r, k) \<Rightarrow> Some (Panic p, c\<lparr>rcR := r\<rparr>, k)
      | Some (Ok _, r, k) \<Rightarrow>
          (case send_stop (c\<lparr>rcR := r\<rparr>) of
             None \<Rightarrow> None
           | Some c \<Rightarrow>
               (case ringCq r of
                  None \<Rightarrow> if cancelled then Some (Err (Errno ETIMEDOUT), c, k) else Some (Panic NilDereference, c, k)
                | Some cq \<Rightarrow>
                    (case conn_poll cancelled reqID cq of
                       None \<Rightarrow> None
                     | Some (Ok cqe, cq) \<Rightarrow> Some (conn_result cqe, c\<lparr>rcR := r\<lparr>ringCq := Some cq\<rparr>\<rparr>, k)
                     | Some (Err e, cq) \<Rightarrow> Some (Err e, c\<lparr>rcR := r\<lparr>ringCq := Some cq\<rparr>\<rparr>, k)
                     | Some (Panic p, cq) \<Rightarrow> Some (Panic p, c\<lparr>rcR := r\<lparr>ringCq := Some cq\<rparr>\<rparr>, k)))))"

section \<open>The methods\<close>

definition rePoll :: "'k ring_mem kernel6 \<Rightarrow> ringConn \<Rightarrow> 'k \<Rightarrow> (unit go \<times> ringConn \<times> 'k) option" where
  "rePoll sys c k =
     (let (uid, r) = Ring_ID (rcR c)
      in case submit_entry (poll_entry PollAdd (rcFd c) POLLIN uid) r of
           None \<Rightarrow> None
         | Some (Panic p, r) \<Rightarrow> Some (Panic p, c\<lparr>rcR := r\<rparr>, k)
         | Some (_, r) \<Rightarrow>
             (case Ring_Enter sys 1024 1 EnterGetEvents 0 r k of
                None \<Rightarrow> None
              | Some (Panic p, r, k) \<Rightarrow> Some (Panic p, c\<lparr>rcR := r\<rparr>, k)
              | Some (_, r, k) \<Rightarrow> Some (Ok (), c\<lparr>rcR := r\<rparr>, k)))"

definition conn_entry :: "Opcode \<Rightarrow> goint \<Rightarrow> slice \<Rightarrow> SubmitEntry \<Rightarrow> gopanic option \<times> SubmitEntry" where
  "conn_entry code fd b e =
     set_addr b (e\<lparr>sqeOpcode := code, sqeFd := ucast fd, sqeLen := of_nat (sliceLen b), sqeFlags := 0\<rparr>)"

definition conn_write_entry :: "goint \<Rightarrow> slice \<Rightarrow> SubmitEntry \<Rightarrow> gopanic option \<times> SubmitEntry" where
  "conn_write_entry fd b e =
     set_addr b (e\<lparr>sqeOpcode := WriteFixed, sqeFd := ucast fd, sqeLen := of_nat (sliceLen b)\<rparr>)"

text \<open>Fill an entry, draw its id, commit, wait: \<open>Write\<close>, and \<open>Read\<close> after its poll.\<close>

definition conn_io ::
  "'k ring_mem kernel6 \<Rightarrow> (SubmitEntry \<Rightarrow> gopanic option \<times> SubmitEntry) \<Rightarrow> ringConn \<Rightarrow> 'k
   \<Rightarrow> (goint go \<times> ringConn \<times> 'k) option" where
  "conn_io sys fill c k =
     (case fill_entry (Err (ErrorString ''ring unavailable'')) fill (rcR c) of
        None \<Rightarrow> None
      | Some (Err e, r) \<Rightarrow> Some (Err e, c\<lparr>rcR := r\<rparr>, k)
      | Some (Panic p, r) \<Rightarrow> Some (Panic p, c\<lparr>rcR := r\<rparr>, k)
      | Some (Ok (j, rd), r) \<Rightarrow>
          (let (reqID, r) = Ring_ID r; r = set_user_data j reqID r
           in case call_ready rd r of
                (Panic p, r) \<Rightarrow> Some (Panic p, c\<lparr>rcR := r\<rparr>, k)
              | (_, r) \<Rightarrow> conn_getCqe sys False reqID (c\<lparr>rcR := r\<rparr>) k))"

definition conn_Read :: "'k ring_mem kernel6 \<Rightarrow> slice \<Rightarrow> ringConn \<Rightarrow> 'k \<Rightarrow> (goint go \<times> ringConn \<times> 'k) option" where
  "conn_Read sys b c k =
     (case rePoll sys c k of
        None \<Rightarrow> None
      | Some (Panic p, c, k) \<Rightarrow> Some (Panic p, c, k)
      | Some (_, c, k) \<Rightarrow> conn_io sys (conn_entry ReadFixed (rcFd c) b) c k)"

definition conn_Write :: "'k ring_mem kernel6 \<Rightarrow> slice \<Rightarrow> ringConn \<Rightarrow> 'k \<Rightarrow> (goint go \<times> ringConn \<times> 'k) option" where
  "conn_Write sys b c k = conn_io sys (conn_write_entry (rcFd c) b) c k"

definition conn_Close :: "'k kernel6 \<Rightarrow> ringConn \<Rightarrow> 'k \<Rightarrow> (unit go \<times> ringConn \<times> 'k) option" where
  "conn_Close sys c k =
     (case send_stop c of
        None \<Rightarrow> None
      | Some c \<Rightarrow>
          (let (k, res, errno) = sys SYS_CLOSE (rcFd c) 0 0 0 0 0 k
           in Some (if errno \<noteq> 0 then Err (Errno errno) else Ok (), c, k)))"

text \<open>\<open>run\<close> after it received from \<open>stop\<close>: remove the poll, wait for that, return.\<close>

definition conn_run_stopped :: "'k ring_mem kernel6 \<Rightarrow> ringConn \<Rightarrow> 'k \<Rightarrow> (unit go \<times> ringConn \<times> 'k) option" where
  "conn_run_stopped sys c k =
     (let (uid, r) = Ring_ID (rcR c)
      in case submit_entry (remove_entry (rcFd c) uid) r of
           None \<Rightarrow> None
         | Some (Panic p, r) \<Rightarrow> Some (Panic p, c\<lparr>rcR := r\<rparr>, k)
         | Some (_, r) \<Rightarrow>
             (case conn_getCqe sys False uid (c\<lparr>rcR := r\<rparr>) k of
                None \<Rightarrow> None
              | Some (Panic p, c, k) \<Rightarrow> Some (Panic p, c, k)
              | Some (_, c, k) \<Rightarrow> Some (Ok (), c, k)))"

definition LocalAddr :: "ringConn \<Rightarrow> addr" where "LocalAddr c = rcLaddr c"
definition RemoteAddr :: "ringConn \<Rightarrow> addr" where "RemoteAddr c = rcRaddr c"

definition SetDeadline :: "i64 \<Rightarrow> ringConn \<Rightarrow> unit go \<times> ringConn" where
  "SetDeadline t c = (Ok (), c\<lparr>rcDeadline := t\<rparr>)"

definition SetReadDeadline :: "i64 \<Rightarrow> ringConn \<Rightarrow> unit go \<times> ringConn" where
  "SetReadDeadline t c = (Ok (), c\<lparr>rcReadDeadline := t\<rparr>)"

definition SetWriteDeadline :: "i64 \<Rightarrow> ringConn \<Rightarrow> unit go \<times> ringConn" where
  "SetWriteDeadline t c = (Ok (), c\<lparr>rcWriteDeadline := t\<rparr>)"

section \<open>The stop channel\<close>

text \<open>
  A connection in use: the callers of \<open>Read\<close>, \<open>Write\<close> and \<open>Close\<close>, each of which sends on
  \<open>stop\<close> before it can return without an error, and the goroutine \<open>run\<close>, which receives once,
  sends once itself from its \<open>getCqe\<close> unless \<open>Enter\<close> fails, and returns.
\<close>

datatype conn_run_pc = RunWaiting | RunRemoving | RunReturned

record conn_sys =
  cyConn :: ringConn
  cyRun :: conn_run_pc
  cyCalls :: nat

inductive conn_step :: "conn_sys \<Rightarrow> conn_sys \<Rightarrow> bool" where
  caller_sends: "send_stop (cyConn s) = Some c \<Longrightarrow> conn_step s (s\<lparr>cyConn := c, cyCalls := Suc (cyCalls s)\<rparr>)"
| run_receives:
    "cyRun s = RunWaiting \<Longrightarrow> rcStop (cyConn s) = Suc m \<Longrightarrow>
     conn_step s (s\<lparr>cyConn := (cyConn s)\<lparr>rcStop := m\<rparr>, cyRun := RunRemoving\<rparr>)"
| run_sends:
    "cyRun s = RunRemoving \<Longrightarrow> send_stop (cyConn s) = Some c \<Longrightarrow>
     conn_step s (s\<lparr>cyConn := c, cyRun := RunReturned\<rparr>)"
| run_enter_fails: "cyRun s = RunRemoving \<Longrightarrow> conn_step s (s\<lparr>cyRun := RunReturned\<rparr>)"
| conn_other: "rcStop c = rcStop (cyConn s) \<Longrightarrow> conn_step s (s\<lparr>cyConn := c\<rparr>)"

definition conn_init :: "conn_sys \<Rightarrow> bool" where
  "conn_init s \<longleftrightarrow> rcStop (cyConn s) = 0 \<and> cyRun s = RunWaiting \<and> cyCalls s = 0"

definition conn_inv :: "conn_sys \<Rightarrow> bool" where
  "conn_inv s \<longleftrightarrow> rcStop (cyConn s) \<le> stop_cap
     \<and> (case cyRun s of
          RunWaiting \<Rightarrow> cyCalls s = rcStop (cyConn s)
        | RunRemoving \<Rightarrow> cyCalls s = Suc (rcStop (cyConn s))
        | RunReturned \<Rightarrow> cyCalls s = rcStop (cyConn s) \<or> cyCalls s = Suc (rcStop (cyConn s)))"

lemma send_stop_Some: "send_stop c = Some c' \<longleftrightarrow> rcStop c < stop_cap \<and> c' = c\<lparr>rcStop := Suc (rcStop c)\<rparr>"
  by (auto simp: send_stop_def)

lemma conn_inv_step: "conn_step s t \<Longrightarrow> conn_inv s \<Longrightarrow> conn_inv t"
  by (induction rule: conn_step.induct)
    (auto simp: conn_inv_def send_stop_Some split: conn_run_pc.splits)

interpretation conn_system: invariant_system conn_init conn_step conn_inv
  by unfold_locales (simp add: conn_init_def conn_inv_def, rule conn_inv_step)

section \<open>The search\<close>

lemma EntryBy_Err: "EntryBy u c = (Err e, c') \<Longrightarrow> e = ErrEntryNotFound"
  by (auto simp: EntryBy_def entryBy_hit_def Let_def split: if_splits scan_result.splits)

lemma conn_poll_eq:
  "conn_poll False u c =
     Some (case EntryBy u c of
       (Ok j, c') \<Rightarrow> (Ok (cqEntries c' ! j), c')
     | (Err e, c') \<Rightarrow> (Err ErrEntryNotFound, c')
     | (Panic p, c') \<Rightarrow> (Panic p, c'))"
  using EntryBy_Err [of u c] by (subst conn_poll.simps) (auto split: prod.split go.split)

lemma conn_getCqe_stop:
  "conn_getCqe sys cancelled u c k = Some (Ok n, c', k') \<Longrightarrow>
   rcStop c < stop_cap \<and> rcStop c' = Suc (rcStop c)"
  by (auto simp: conn_getCqe_def send_stop_Some split: option.splits prod.splits go.splits if_splits)

lemma conn_io_stop:
  "conn_io sys fill c k = Some (Ok n, c', k') \<Longrightarrow> rcStop c < stop_cap \<and> rcStop c' = Suc (rcStop c)"
  by (auto simp: conn_io_def Let_def split: option.splits prod.splits go.splits dest!: conn_getCqe_stop)

lemma rePoll_stop: "rePoll sys c k = Some (res, c', k') \<Longrightarrow> rcStop c' = rcStop c"
  by (auto simp: rePoll_def Let_def split: option.splits prod.splits go.splits)

section \<open>Entries of a free queue\<close>

lemma fill_entry_eq:
  assumes "ringSq r = Some s" "sq_wf k s" "sqEntered s = 0"
    and "fill (SubmitEntry_Reset (sqEntries s ! next_slot s)) = (None, e)"
  shows "fill_entry nil' fill r = Some (Ok (next_slot s, callback_of s),
      r\<lparr>ringSq := Some ((hand_out s)\<lparr>sqEntries := (sqEntries s)[next_slot s := e]\<rparr>)\<rparr>)"
  using SubmitEntry_eq [OF assms(2,3)] next_slot_less [OF assms(2)] assms(4)
  by (simp add: fill_entry_def Ring_SubmitEntry_def assms(1) hand_out_def)

lemma submit_entry_eq:
  assumes "ringSq r = Some s" "sq_wf k s" "sqEntered s = 0" "sqWrites s + 1 \<noteq> 0"
    and "fill (SubmitEntry_Reset (sqEntries s ! next_slot s)) = (None, e)"
  shows "submit_entry fill r = Some (Ok (), r\<lparr>ringSq := Some (prepared s e)\<rparr>)"
  using fill_entry_eq [where fill = fill, OF assms(1-3,5)] ready_callback_hand_out [OF assms(2,4)]
  by (simp add: submit_entry_def call_ready_def)

lemma conn_io_eq:
  assumes "ringSq (rcR c) = Some s" "sq_wf k s" "sqEntered s = 0" "sqWrites s + 1 \<noteq> 0"
    and "fill (SubmitEntry_Reset (sqEntries s ! next_slot s)) = (None, e)"
  shows "conn_io sys fill c w = conn_getCqe sys False (ringIdx (rcR c) + 1)
    (c\<lparr>rcR := (rcR c)\<lparr>ringIdx := ringIdx (rcR c) + 1,
       ringSq := Some (prepared s (e\<lparr>sqeUserData := ringIdx (rcR c) + 1\<rparr>))\<rparr>\<rparr>) w"
  using fill_entry_eq [where fill = fill, OF assms(1-3,5)]
    ready_callback_hand_out [OF assms(2,4)] next_slot_less [OF assms(2)]
  by (simp add: conn_io_def Ring_ID_def Let_def set_user_data_def call_ready_def)

section \<open>Properties\<close>

text \<open>
  A \<open>Read\<close> or \<open>Write\<close> that succeeds has put a message on the connection's stop channel, which
  holds two: it can only succeed while the channel has room.
\<close>

theorem conn_io_fills_stop:
  assumes "conn_Read sys b c k = Some (Ok n, c', k') \<or> conn_Write sys b c k = Some (Ok n, c', k')"
  shows "rcStop c < 2 \<and> rcStop c' = Suc (rcStop c)"
proof -
  have "rcStop c < stop_cap \<and> rcStop c' = Suc (rcStop c)"
    using assms
    by (auto simp: conn_Read_def conn_Write_def split: option.splits prod.splits go.splits
        dest!: conn_io_stop dest: rePoll_stop)
  then show ?thesis by (simp add: stop_cap_def)
qed

definition sample_conn :: ringConn where
  "sample_conn = \<lparr>rcFd = 9, rcLaddr = \<lparr>addrNet = ''tcp'', addrS = []\<rparr>, rcRaddr = \<lparr>addrNet = ''tcp'', addrS = []\<rparr>,
     rcR = (sample_ring (sample_sq 2 0 0))\<lparr>ringCq := Some answered_cq\<rparr>, rcOffset = 0, rcStop = 0,
     rcPollReady = 1, rcDeadline = 0, rcReadDeadline = 0, rcWriteDeadline = 0\<rparr>"

lemma EntryBy_answered:
  "fst (EntryBy 1 answered_cq) = Ok 0"
proof -
  have "cq_wf 2 answered_cq" "cqHead answered_cq AND cqMask answered_cq \<noteq> cqTail answered_cq AND cqMask answered_cq"
    by (simp_all add: answered_cq_def cq_wf_def sample_cq_def mask_eq_exp_minus_1)
  from EntryBy_eq [OF this, of 1] show ?thesis
    by (simp add: visit_order_def answered_cq_def sample_cq_def sample_cqe_def upt_rec entryBy_hit_def Let_def)
qed

theorem conn_io_fills_stop_witness:
  "\<exists>n c'. conn_Write idle_kernel sample_buf sample_conn () = Some (Ok n, c', ()) \<and> rcStop c' = 1"
proof -
  let ?s = "sample_sq 2 0 0"
  have ring: "ringSq (rcR sample_conn) = Some ?s" "sq_wf 2 ?s" "sqEntered ?s = 0" "sqWrites ?s + 1 \<noteq> 0"
    by (simp_all add: sample_conn_def sample_ring_def) (simp_all add: sample_sq_def)
  obtain e where e: "conn_write_entry (rcFd sample_conn) sample_buf (SubmitEntry_Reset (sqEntries ?s ! next_slot ?s)) = (None, e)"
    by (simp add: conn_write_entry_def set_addr_def firstAddr_def sample_buf_def)
  obtain cq' where find: "EntryBy 1 answered_cq = (Ok 0, cq')"
    using EntryBy_answered by (cases "EntryBy 1 answered_cq") simp
  have wf: "cq_wf 2 answered_cq"
    by (simp add: answered_cq_def cq_wf_def sample_cq_def mask_eq_exp_minus_1)
  have "cqeRes (cqEntries cq' ! 0) = 5"
    using EntryBy_Ok(2) [OF wf find]
    by (auto simp: entryBy_hit_def Let_def answered_cq_def sample_cq_def sample_cqe_def)
  then have poll: "conn_poll False 1 answered_cq = Some (Ok (cqEntries cq' ! 0), cq')"
      "conn_result (cqEntries cq' ! 0) = Ok 5"
    using find by (simp_all add: conn_poll_eq conn_result_def)
  have conn: "ringIdx (rcR sample_conn) + 1 = 1" "ringCq (rcR sample_conn) = Some answered_cq"
      "rcStop sample_conn = 0"
    by (simp_all add: sample_conn_def sample_ring_def)
  have "\<exists>n c'. conn_Write idle_kernel sample_buf sample_conn () = Some (Ok n, c', ())"
    using conn_io_eq [where fill = "conn_write_entry (rcFd sample_conn) sample_buf"
        and sys = idle_kernel and w = "()", OF ring e] ring(3)
    by (simp add: conn_Write_def conn_getCqe_def Ring_Enter_def enterLock_free Enter_def idle_kernel_def
        Enter_result_def send_stop_def stop_cap_def Let_def conn poll)
  then obtain n c' where run: "conn_Write idle_kernel sample_buf sample_conn () = Some (Ok n, c', ())" by blast
  from conn_io_fills_stop [OF disjI2 [OF run]] run show ?thesis by (auto simp: sample_conn_def)
qed

text \<open>
  C38: A connection does not outlive three calls: in every reachable state at most three calls of
  \<open>Read\<close>, \<open>Write\<close> and \<open>Close\<close> have got past their send on the stop channel, since it has room
  for two messages and the goroutine takes out one in its life.
\<close>

theorem conn_at_most_three_calls:
  assumes "reach conn_init conn_step s"
  shows "cyCalls s \<le> 3 \<and> rcStop (cyConn s) \<le> 2"
  using conn_system.reach_inv [OF assms] by (auto simp: conn_inv_def stop_cap_def split: conn_run_pc.splits)

text \<open>A connection after one call.\<close>

definition conn_used :: conn_sys where
  "conn_used = \<lparr>cyConn = sample_conn\<lparr>rcStop := 1\<rparr>, cyRun = RunWaiting, cyCalls = 1\<rparr>"

theorem conn_at_most_three_calls_witness:
  "reach conn_init conn_step conn_used \<and> cyCalls conn_used \<le> 3"
proof -
  let ?s = "\<lparr>cyConn = sample_conn, cyRun = RunWaiting, cyCalls = 0\<rparr>"
  have "reach conn_init conn_step ?s"
    by (rule reach_init) (simp add: conn_init_def sample_conn_def)
  moreover have "conn_step ?s (?s\<lparr>cyConn := sample_conn\<lparr>rcStop := 1\<rparr>, cyCalls := Suc (cyCalls ?s)\<rparr>)"
    by (rule caller_sends) (simp add: send_stop_def stop_cap_def sample_conn_def)
  ultimately have "reach conn_init conn_step conn_used"
    using reach_step by (fastforce simp: conn_used_def)
  with conn_at_most_three_calls [OF this] show ?thesis by simp
qed

text \<open>
  The wait for a completion looks once: \<open>getCqe\<close> retries on errors other than not-found and
  returns the not-found error at once, the opposite of what waiting needs. \<open>EntryBy\<close> has no other
  error, so the loop always ends after one search.
\<close>

theorem conn_poll_looks_once:
  "conn_poll False u c = Some (case EntryBy u c of
       (Ok j, c') \<Rightarrow> (Ok (cqEntries c' ! j), c')
     | (Err e, c') \<Rightarrow> (Err ErrEntryNotFound, c')
     | (Panic p, c') \<Rightarrow> (Panic p, c'))"
  by (rule conn_poll_eq)

end
