(* ===== verification/Ring_Safety.thy ===== *)
theory Ring_Safety
  imports Ring_Conn Served
begin

text \<open>
  Type safety of the library on one ring: the operations that read or change its queues, as one
  type, and what a ring in use keeps under every sequence of them. The kernel is any that leaves
  the sizes of the rings and the library's own words alone, as its interface promises.
\<close>

section \<open>Operations on a ring\<close>

text \<open>
  An operation with its arguments. A reader, writer or connection is given with its own fields;
  its ring is the ring the operation runs on.
\<close>

datatype ring_op =
    OpPrepare prep_call
  | OpEnter u64 u64 u64 u64
  | OpScan "(u64, completionRequest) fmap"
  | OpSeen "int fset" int
  | OpFind u64
  | OpFileRead slice ringFIO
  | OpFileWrite slice ringFIO
  | OpFileReadAt slice u64 ringFIO
  | OpFileWriteAt slice u64 ringFIO
  | OpFileClose ringFIO
  | OpRePoll ringConn
  | OpConnRead slice ringConn
  | OpConnWrite slice ringConn

definition forget :: "'a go \<Rightarrow> unit go" where "forget = map_go (\<lambda>_. ())"

definition with_file ::
  "(ringFIO \<Rightarrow> 'k \<Rightarrow> ('a go \<times> ringFIO \<times> 'k) option) \<Rightarrow> ringFIO \<Rightarrow> Ring \<Rightarrow> 'k \<Rightarrow> (unit go \<times> Ring \<times> 'k) option" where
  "with_file f i r k = map_option (\<lambda>(res, i, k). (forget res, fioR i, k)) (f (i\<lparr>fioR := r\<rparr>) k)"

definition with_conn ::
  "(ringConn \<Rightarrow> 'k \<Rightarrow> ('a go \<times> ringConn \<times> 'k) option) \<Rightarrow> ringConn \<Rightarrow> Ring \<Rightarrow> 'k \<Rightarrow> (unit go \<times> Ring \<times> 'k) option" where
  "with_conn f c r k = map_option (\<lambda>(res, c, k). (forget res, rcR c, k)) (f (c\<lparr>rcR := r\<rparr>) k)"

definition with_cq :: "(CompletionQueue \<Rightarrow> unit go \<times> CompletionQueue) \<Rightarrow> Ring \<Rightarrow> 'k \<Rightarrow> (unit go \<times> Ring \<times> 'k) option" where
  "with_cq f r k =
     (case ringCq r of
        None \<Rightarrow> Some (Panic NilDereference, r, k)
      | Some c \<Rightarrow> (case f c of (res, c) \<Rightarrow> Some (res, r\<lparr>ringCq := Some c\<rparr>, k)))"

fun run_op ::
  "'k ring_mem kernel6 \<Rightarrow> (CompletionQueue \<Rightarrow> nat \<Rightarrow> CompletionQueue) \<Rightarrow> ring_op \<Rightarrow> Ring \<Rightarrow> 'k
   \<Rightarrow> (unit go \<times> Ring \<times> 'k) option" where
  "run_op sys obs (OpPrepare cl) r k = map_option (\<lambda>(res, r). (forget res, r, k)) (dispatch cl r)"
| "run_op sys obs (OpEnter n least flags sigset) r k =
     map_option (\<lambda>(res, r, k). (forget res, r, k)) (Ring_Enter sys n least flags sigset r k)"
| "run_op sys obs (OpScan inflight) r k =
     with_cq (\<lambda>c. case onEntry inflight c of (res, _, _, c) \<Rightarrow> (res, c)) r k"
| "run_op sys obs (OpSeen unacked i) r k = with_cq (\<lambda>c. (Ok (), snd (completer_on_seen i (unacked, c)))) r k"
| "run_op sys obs (OpFind uid) r k = with_cq (\<lambda>c. case EntryBy uid c of (res, c) \<Rightarrow> (forget res, c)) r k"
| "run_op sys obs (OpFileRead b i) r k = with_file (fio_Read sys obs b) i r k"
| "run_op sys obs (OpFileWrite b i) r k = with_file (fio_Write sys obs b) i r k"
| "run_op sys obs (OpFileReadAt b off i) r k = with_file (fio_ReadAt sys obs b off) i r k"
| "run_op sys obs (OpFileWriteAt b off i) r k = with_file (fio_WriteAt sys obs b off) i r k"
| "run_op sys obs (OpFileClose i) r k = with_file (fio_Close sys obs) i r k"
| "run_op sys obs (OpRePoll c) r k = with_conn (rePoll sys) c r k"
| "run_op sys obs (OpConnRead b c) r k = with_conn (conn_Read sys b) c r k"
| "run_op sys obs (OpConnWrite b c) r k = with_conn (conn_Write sys b) c r k"

text \<open>A sequence of operations, with their outcomes; \<open>None\<close> if one of them does not return.\<close>

fun run_ops ::
  "'k ring_mem kernel6 \<Rightarrow> (CompletionQueue \<Rightarrow> nat \<Rightarrow> CompletionQueue) \<Rightarrow> ring_op list \<Rightarrow> Ring \<Rightarrow> 'k
   \<Rightarrow> (unit go list \<times> Ring \<times> 'k) option" where
  "run_ops sys obs [] r k = Some ([], r, k)"
| "run_ops sys obs (op # ops) r k =
     (case run_op sys obs op r k of
        None \<Rightarrow> None
      | Some (res, r, k) \<Rightarrow> map_option (\<lambda>(outs, s). (res # outs, s)) (run_ops sys obs ops r k))"

text \<open>The buffers of an operation have a first byte.\<close>

fun op_ok :: "ring_op \<Rightarrow> bool" where
  "op_ok (OpPrepare cl) = call_ok cl"
| "op_ok (OpFileRead b i) = (sliceLen b \<noteq> 0)"
| "op_ok (OpFileWrite b i) = (sliceLen b \<noteq> 0)"
| "op_ok (OpFileReadAt b off i) = (sliceLen b \<noteq> 0)"
| "op_ok (OpFileWriteAt b off i) = (sliceLen b \<noteq> 0)"
| "op_ok (OpConnRead b c) = (sliceLen b \<noteq> 0)"
| "op_ok (OpConnWrite b c) = (sliceLen b \<noteq> 0)"
| "op_ok op = True"

text \<open>The operations that wait for the kernel to answer, or for room in a channel.\<close>

fun waits :: "ring_op \<Rightarrow> bool" where
  "waits (OpPrepare cl) = False"
| "waits (OpEnter n least flags sigset) = False"
| "waits (OpScan inflight) = False"
| "waits (OpSeen unacked i) = False"
| "waits (OpFind uid) = False"
| "waits (OpRePoll c) = False"
| "waits op = True"

section \<open>A ring in use\<close>

definition ring_ok :: "nat \<Rightarrow> nat \<Rightarrow> Ring \<Rightarrow> bool" where
  "ring_ok ks kc r \<longleftrightarrow>
     (\<exists>s. ringSq r = Some s \<and> sq_wf ks s \<and> sqEntered s = 0 \<and> sqWrites s = 0)
     \<and> (\<exists>c. ringCq r = Some c \<and> cq_wf kc c)"

text \<open>What \<open>io_uring_enter\<close> leaves alone: the geometry of the rings and the library's own words.\<close>

definition same_sq_shape :: "SubmitQueue \<Rightarrow> SubmitQueue \<Rightarrow> bool" where
  "same_sq_shape s t \<longleftrightarrow> sqMask t = sqMask s \<and> length (sqEntries t) = length (sqEntries s)
     \<and> length (sqArray t) = length (sqArray s) \<and> sqEntered t = sqEntered s \<and> sqWrites t = sqWrites s"

definition same_cq_shape :: "CompletionQueue \<Rightarrow> CompletionQueue \<Rightarrow> bool" where
  "same_cq_shape c d \<longleftrightarrow> cqMask d = cqMask c \<and> length (cqEntries d) = length (cqEntries c)"

definition keeps_shape :: "'k ring_mem kernel6 \<Rightarrow> bool" where
  "keeps_shape sys \<longleftrightarrow> (\<forall>fd n least flags sigset s c w s' c' w' res errno.
     sys EnterSyscall fd n least flags sigset 0 (s, c, w) = ((s', c', w'), res, errno)
     \<longrightarrow> same_sq_shape s s' \<and> rel_option same_cq_shape c c')"

text \<open>What a waiting call sees of the completion queue while others work on it is still a queue of its size.\<close>

definition observes_shape :: "nat \<Rightarrow> (CompletionQueue \<Rightarrow> nat \<Rightarrow> CompletionQueue) \<Rightarrow> bool" where
  "observes_shape kc obs \<longleftrightarrow> (\<forall>c n. cq_wf kc c \<longrightarrow> cq_wf kc (obs c n))"

definition panics :: "'a go \<Rightarrow> bool" where
  "panics res = (case res of Panic p \<Rightarrow> True | _ \<Rightarrow> False)"

lemma panics_simps [simp]: "\<not> panics (Ok x)" "\<not> panics (Err e)" "panics (Panic p)" "panics (forget res) = panics res"
  by (simp_all add: panics_def forget_def split: go.split)

lemma panics_eof_if_zero [simp]: "panics (eof_if_zero res) = panics res"
  by (simp add: eof_if_zero_def split: go.split)

lemma ring_okE:
  assumes "ring_ok ks kc r"
  obtains s c where "ringSq r = Some s" "sq_wf ks s" "sqEntered s = 0" "sqWrites s = 0" "ringCq r = Some c" "cq_wf kc c"
  using assms that by (auto simp: ring_ok_def)

lemma ring_ok_prepared:
  "ring_ok ks kc r \<Longrightarrow> ringSq r = Some s \<Longrightarrow> ring_ok ks kc (r\<lparr>ringIdx := i, ringSq := Some (prepared s e)\<rparr>)"
  "ring_ok ks kc r \<Longrightarrow> ringSq r = Some s \<Longrightarrow> ring_ok ks kc (r\<lparr>ringSq := Some (prepared s e)\<rparr>)"
  by (auto simp: ring_ok_def)

lemma ring_ok_other [simp]:
  "ring_ok ks kc (r\<lparr>ringIdx := i\<rparr>) = ring_ok ks kc r" "ring_ok ks kc (r\<lparr>ringC := cc\<rparr>) = ring_ok ks kc r"
  by (simp_all add: ring_ok_def)

lemma ring_ok_cq: "ring_ok ks kc r \<Longrightarrow> cq_wf kc c \<Longrightarrow> ring_ok ks kc (r\<lparr>ringCq := Some c\<rparr>)"
  by (simp add: ring_ok_def)

section \<open>Entering the kernel\<close>

lemma Enter_result_safe [simp]: "\<not> panics (Enter_result res errno)"
  by (simp add: Enter_result_def)

lemma same_cq_shape_wf: "same_cq_shape c d \<Longrightarrow> cq_wf k d = cq_wf k c"
  by (simp add: same_cq_shape_def cq_wf_def)

lemma Ring_Enter_safe:
  assumes "keeps_shape sys" "ring_ok ks kc r"
  shows "\<exists>res r' k'. Ring_Enter sys n least flags sigset r k = Some (res, r', k') \<and> \<not> panics res \<and> ring_ok ks kc r'"
proof -
  obtain s c where r: "ringSq r = Some s" "sq_wf ks s" "sqEntered s = 0" "sqWrites s = 0" "ringCq r = Some c" "cq_wf kc c"
    using assms(2) by (rule ring_okE)
  define fl where "fl = (if NeedWakeup s then flags OR EnterSqWakeup else flags)"
  obtain s' c' k' res errno where sys:
      "sys EnterSyscall (ringFd r) n least fl sigset 0 (s\<lparr>sqEntered := 1\<rparr>, Some c, k) = ((s', c', k'), res, errno)"
    by (metis prod.exhaust)
  with assms(1) have shape: "same_sq_shape (s\<lparr>sqEntered := 1\<rparr>) s'" "rel_option same_cq_shape (Some c) c'"
    unfolding keeps_shape_def by blast+
  from shape(2) obtain d where d: "c' = Some d" "same_cq_shape c d" by (cases c') auto
  have "sq_wf ks (enterUnlock s')" "sqWrites (enterUnlock s') = 0" "sqEntered (enterUnlock s') = 0"
    using shape(1) r(2,4) by (auto simp: enterUnlock_def same_sq_shape_def sq_wf_def)
  then have "ring_ok ks kc (r\<lparr>ringSq := Some (enterUnlock s'), ringCq := c'\<rparr>)"
    using same_cq_shape_wf [OF d(2)] r(6) d(1) by (simp add: ring_ok_def)
  moreover have "Ring_Enter sys n least flags sigset r k =
      Some (Enter_result res errno, r\<lparr>ringSq := Some (enterUnlock s'), ringCq := c'\<rparr>, k')"
    using sys r by (simp add: Ring_Enter_def enterLock_free Enter_def fl_def [symmetric])
  ultimately show ?thesis by simp
qed

section \<open>Calls that wait\<close>

text \<open>What a call makes of the ring: it does not return, or it returns without a panic and the ring is still in use.\<close>

definition safe :: "('s \<Rightarrow> Ring) \<Rightarrow> nat \<Rightarrow> nat \<Rightarrow> ('a go \<times> 's \<times> 'k) option \<Rightarrow> bool" where
  "safe ring ks kc out \<longleftrightarrow> (case out of None \<Rightarrow> True | Some (res, s, k) \<Rightarrow> \<not> panics res \<and> ring_ok ks kc (ring s))"

lemma safe_simps [simp]:
  "safe ring ks kc None" "safe ring ks kc (Some (res, s, k)) \<longleftrightarrow> \<not> panics res \<and> ring_ok ks kc (ring s)"
  by (simp_all add: safe_def)

lemma safe_eof_if_zero [simp]:
  "safe ring ks kc (map_option (\<lambda>(res, y). (eof_if_zero res, y)) out) = safe ring ks kc out"
  by (simp add: safe_def split: option.split prod.split)

lemma safe_with_file: "safe fioR ks kc (f (i\<lparr>fioR := r\<rparr>) k) \<Longrightarrow> safe id ks kc (with_file f i r k)"
  by (simp add: safe_def with_file_def split: option.splits prod.splits)

lemma safe_with_conn: "safe rcR ks kc (f (c\<lparr>rcR := r\<rparr>) k) \<Longrightarrow> safe id ks kc (with_conn f c r k)"
  by (simp add: safe_def with_conn_def split: option.splits prod.splits)

lemma fio_first_safe: "fio_first es u last' x \<noteq> FioPanic"
  by (simp add: fio_first_eq split: option.split)

lemma fio_second_safe: "last' \<le> length es \<Longrightarrow> fio_second es u last' x \<noteq> FioPanic"
  by (simp add: fio_second_eq split: option.split)

lemma fio_find_safe:
  assumes "\<And>m. cq_wf k (obs m)" "fio_find obs n u = Some res"
  shows "\<not> panics res"
proof -
  have len: "unat (cqTail c AND cqMask c) \<le> length (cqEntries c)" if "cq_wf k c" for c
    using cq_ring.slot_less [OF that, of "cqTail c"] by simp
  have "(\<forall>m. cq_wf k (obs m)) \<longrightarrow> \<not> panics res"
    by (rule fio_find.raw_induct [where P = "\<lambda>obs n u res. (\<forall>m. cq_wf k (obs m)) \<longrightarrow> \<not> panics res", OF _ assms(2)])
      (auto simp: Let_def fio_first_safe fio_second_safe len split: fio_poll.splits)
  with assms(1) show ?thesis by blast
qed

lemma fio_hit_safe: "ring_ok ks kc (fioR i) \<Longrightarrow> fio_hit x cqe i = Some (res, i') \<Longrightarrow> \<not> panics res \<and> ring_ok ks kc (fioR i')"
  by (auto simp: fio_hit_def completer_complete_def Let_def split: if_splits)

lemma fio_getCqe_safe:
  assumes sys: "keeps_shape sys" and obs: "observes_shape kc obs" and ring: "ring_ok ks kc (fioR i)"
  shows "safe fioR ks kc (fio_getCqe sys obs u 1 1 i k)"
proof -
  obtain res r k' where enter: "Ring_Enter sys 1 1 EnterGetEvents 0 (fioR i) k = Some (res, r, k')"
      and "\<not> panics res" and r: "ring_ok ks kc r"
    using Ring_Enter_safe [OF sys ring] by metis
  from r obtain c where c: "ringCq r = Some c" "cq_wf kc c" by (rule ring_okE)
  have find: "\<not> panics out" if "fio_find (obs c) 0 u = Some out" for out
    using fio_find_safe [OF _ that] obs c(2) unfolding observes_shape_def by blast
  have hit: "safe fioR ks kc (case fio_hit x cqe (i\<lparr>fioR := r\<rparr>) of None \<Rightarrow> None | Some (res, i) \<Rightarrow> Some (res, i, k'))" for x cqe
    using fio_hit_safe [of ks kc "i\<lparr>fioR := r\<rparr>" x cqe] r by (auto split: option.splits)
  show ?thesis
    using \<open>\<not> panics res\<close> r
    by (cases res) (auto simp: fio_getCqe_def enter c(1) hit Let_def dest!: find split: option.split go.split)
qed

lemma fio_call_safe:
  assumes "keeps_shape sys" "observes_shape kc obs" "ring_ok ks kc (fioR i)" "sliceLen b \<noteq> 0"
  shows "safe fioR ks kc (fio_call sys obs (fio_prepare (fill_fio code (fioFd i) b 0 off) (fioR i)) i k)"
    and "safe fioR ks kc (fio_at sys obs (fill_fio code (fioFd i) b 0 off) i k)"
proof -
  obtain s where s: "ringSq (fioR i) = Some s" "sq_wf ks s" "sqEntered s = 0" "sqWrites s = 0"
    using assms(3) by (rule ring_okE)
  then have "sqWrites s + 1 \<noteq> 0" by simp
  note eqs = fio_call_eq [OF s(1-3) this assms(4)] fio_at_eq [OF s(1-3) this assms(4)]
  have "ring_ok ks kc (fio_ring code b off i s)"
    using ring_ok_prepared(1) [OF assms(3) s(1)] by (simp add: fio_ring_def)
  then show "safe fioR ks kc (fio_call sys obs (fio_prepare (fill_fio code (fioFd i) b 0 off) (fioR i)) i k)"
    "safe fioR ks kc (fio_at sys obs (fill_fio code (fioFd i) b 0 off) i k)"
    unfolding eqs by (intro fio_getCqe_safe [OF assms(1,2)]; simp)+
qed

lemma dispatch_safe:
  assumes "ring_ok ks kc r" "call_ok cl"
  shows "\<exists>r'. dispatch cl r = Some (Ok (ringIdx r + 1), r') \<and> ring_ok ks kc r'"
proof -
  obtain s where s: "ringSq r = Some s" "sq_wf ks s" "sqEntered s = 0" "sqWrites s = 0"
    using assms(1) by (rule ring_okE)
  then show ?thesis
    using preps.call_prepared [OF s(1-3) _ assms(2)] ring_ok_prepared(1) [OF assms(1) s(1)] by auto
qed

lemma fio_Close_safe:
  assumes "keeps_shape sys" "observes_shape kc obs" "ring_ok ks kc (fioR i)"
  shows "safe fioR ks kc (fio_Close sys obs i k)"
proof -
  obtain r' where prep: "PrepareClose (scast (fioFd i)) (fioR i) = Some (Ok (ringIdx (fioR i) + 1), r')"
      and "ring_ok ks kc r'"
    using dispatch_safe [OF assms(3), of "CallClose (scast (fioFd i))"] by (auto simp: call_ok_def)
  with fio_getCqe_safe [OF assms(1,2), of ks "i\<lparr>fioR := r'\<rparr>" "ringIdx (fioR i) + 1" k]
  show ?thesis by (auto simp: fio_Close_def prep safe_def split: option.splits go.splits)
qed

section \<open>Connections\<close>

lemma EntryBy_safe:
  assumes "cq_wf k c" "EntryBy u c = (res, c')"
  shows "\<not> panics res \<and> cq_wf k c'"
proof (cases "cqHead c AND cqMask c = cqTail c AND cqMask c")
  case True
  then show ?thesis using assms by (auto simp: EntryBy_def)
next
  case False
  have "\<not> panics (fst (entryBy_hit i x c))" "cq_wf k (snd (entryBy_hit i x c))" for i x
    using assms(1) by (simp_all add: entryBy_hit_def Let_def cq_wf_def)
  then show ?thesis
    using assms(1,2) by (auto simp: EntryBy_eq [OF assms(1) False] split: option.splits) (metis fst_conv snd_conv)+
qed

lemma conn_result_safe: "\<not> panics (conn_result cqe)"
  by (simp add: conn_result_def Let_def)

lemma conn_getCqe_safe:
  assumes "keeps_shape sys" "ring_ok ks kc (rcR c)"
  shows "safe rcR ks kc (conn_getCqe sys False u c k)"
proof -
  obtain res r k' where enter: "Ring_Enter sys 1024 1 EnterGetEvents 0 (rcR c) k = Some (res, r, k')"
      and "\<not> panics res" and r: "ring_ok ks kc r"
    using Ring_Enter_safe [OF assms] by metis
  from r obtain cq where cq: "ringCq r = Some cq" "cq_wf kc cq" by (rule ring_okE)
  have "safe rcR ks kc (case conn_poll False u cq of
      None \<Rightarrow> None
    | Some (Ok cqe, cq) \<Rightarrow> Some (conn_result cqe, d\<lparr>rcR := r\<lparr>ringCq := Some cq\<rparr>\<rparr>, k')
    | Some (Err e, cq) \<Rightarrow> Some (Err e, d\<lparr>rcR := r\<lparr>ringCq := Some cq\<rparr>\<rparr>, k')
    | Some (Panic p, cq) \<Rightarrow> Some (Panic p, d\<lparr>rcR := r\<lparr>ringCq := Some cq\<rparr>\<rparr>, k'))" for d
    using EntryBy_safe [OF cq(2), of u]
    by (auto simp: conn_poll_eq ring_ok_cq [OF r] conn_result_safe split: prod.split go.split)
  then show ?thesis
    using \<open>\<not> panics res\<close> r cq(1)
    by (cases res) (auto simp: conn_getCqe_def enter send_stop_def)
qed

lemma conn_io_safe:
  assumes "keeps_shape sys" "ring_ok ks kc (rcR c)" "\<And>e. \<exists>f. fill e = (None, f)"
  shows "safe rcR ks kc (conn_io sys fill c k)"
proof -
  obtain s where s: "ringSq (rcR c) = Some s" "sq_wf ks s" "sqEntered s = 0" "sqWrites s = 0"
    using assms(2) by (rule ring_okE)
  obtain e where "fill (SubmitEntry_Reset (sqEntries s ! next_slot s)) = (None, e)"
    using assms(3) by blast
  note eq = conn_io_eq [where fill = fill and sys = sys and w = k, OF s(1-3) _ this]
  show ?thesis
    using eq s(4) by (simp add: conn_getCqe_safe [OF assms(1)] ring_ok_prepared(1) [OF assms(2) s(1)])
qed

lemma rePoll_safe:
  assumes "keeps_shape sys" "ring_ok ks kc (rcR c)"
  shows "\<exists>c' k'. rePoll sys c k = Some (Ok (), c', k') \<and> ring_ok ks kc (rcR c') \<and> rcFd c' = rcFd c"
proof -
  obtain s where s: "ringSq (rcR c) = Some s" "sq_wf ks s" "sqEntered s = 0" "sqWrites s = 0"
    using assms(2) by (rule ring_okE)
  define e where "e = snd (poll_entry PollAdd (rcFd c) POLLIN (ringIdx (rcR c) + 1) (SubmitEntry_Reset (sqEntries s ! next_slot s)))"
  let ?r = "(rcR c)\<lparr>ringIdx := ringIdx (rcR c) + 1\<rparr>"
  have sub: "submit_entry (poll_entry PollAdd (rcFd c) POLLIN (ringIdx (rcR c) + 1)) ?r =
      Some (Ok (), ?r\<lparr>ringSq := Some (prepared s e)\<rparr>)"
    using s by (intro submit_entry_eq) (simp_all add: e_def poll_entry_def)
  have "ring_ok ks kc (?r\<lparr>ringSq := Some (prepared s e)\<rparr>)"
    using ring_ok_prepared(1) [OF assms(2) s(1)] by simp
  from Ring_Enter_safe [OF assms(1) this, of 1024 1 EnterGetEvents 0 k]
  obtain res r' k' where "Ring_Enter sys 1024 1 EnterGetEvents 0 (?r\<lparr>ringSq := Some (prepared s e)\<rparr>) k = Some (res, r', k')"
      "\<not> panics res" "ring_ok ks kc r'"
    by blast
  then show ?thesis using sub by (cases res) (simp_all add: rePoll_def Ring_ID_def Let_def)
qed

section \<open>Every operation\<close>

lemma safe_with_cq:
  assumes "ring_ok ks kc r" "\<And>c res c'. cq_wf kc c \<Longrightarrow> f c = (res, c') \<Longrightarrow> \<not> panics res \<and> cq_wf kc c'"
  shows "safe id ks kc (with_cq f r k) \<and> with_cq f r k \<noteq> None"
proof -
  obtain c where c: "ringCq r = Some c" "cq_wf kc c" using assms(1) by (rule ring_okE)
  obtain res c' where "f c = (res, c')" by (cases "f c")
  then show ?thesis using assms(2) [OF c(2)] ring_ok_cq [OF assms(1)] c(1) by (simp add: with_cq_def)
qed

lemma conn_entry_ok: "sliceLen b \<noteq> 0 \<Longrightarrow> \<exists>f. conn_entry code fd b e = (None, f)"
  "sliceLen b \<noteq> 0 \<Longrightarrow> \<exists>f. conn_write_entry fd b e = (None, f)"
  by (simp_all add: conn_entry_def conn_write_entry_def set_addr_def firstAddr_def)

lemma conn_Read_safe:
  assumes "keeps_shape sys" "ring_ok ks kc (rcR c)" "sliceLen b \<noteq> 0"
  shows "safe rcR ks kc (conn_Read sys b c k)"
proof -
  obtain c' k' where "rePoll sys c k = Some (Ok (), c', k')" "ring_ok ks kc (rcR c')"
    using rePoll_safe [OF assms(1,2)] by blast
  then show ?thesis
    using conn_io_safe [OF assms(1)] conn_entry_ok(1) [OF assms(3)] by (simp add: conn_Read_def)
qed

lemma onEntry_safe: "cq_wf k c \<Longrightarrow> onEntry m c = (res, m', done, c') \<Longrightarrow> \<not> panics res \<and> cq_wf k c'"
  by (auto simp: onEntry_eq cq_wf_def)

lemma completer_on_seen_wf: "cq_wf k (snd (completer_on_seen i (unacked, c))) = cq_wf k c"
  by (simp add: completer_on_seen_def cq_wf_def Let_def split: prod.split)

lemma file_safe:
  assumes "keeps_shape sys" "observes_shape kc obs" "ring_ok ks kc (fioR i)" "sliceLen b \<noteq> 0"
  shows "safe fioR ks kc (fio_Read sys obs b i k)" "safe fioR ks kc (fio_Write sys obs b i k)"
    "safe fioR ks kc (fio_ReadAt sys obs b off i k)" "safe fioR ks kc (fio_WriteAt sys obs b off i k)"
  by (simp_all add: fio_Read_def fio_Write_def fio_ReadAt_def fio_WriteAt_def fio_PrepareRead_def fio_PrepareWrite_def
      fio_call_safe [OF assms])

lemma run_op_safe:
  assumes sys: "keeps_shape sys" and obs: "observes_shape kc obs" and ring: "ring_ok ks kc r" and ok: "op_ok op"
  shows "safe id ks kc (run_op sys obs op r k)" "run_op sys obs op r k = None \<Longrightarrow> waits op"
proof -
  have "safe id ks kc (run_op sys obs op r k) \<and> (run_op sys obs op r k = None \<longrightarrow> waits op)"
  proof (cases op)
    case (OpPrepare cl)
    then show ?thesis using dispatch_safe [OF ring, of cl] ok by auto
  next
    case (OpEnter n least flags sigset)
    then show ?thesis using Ring_Enter_safe [OF sys ring, of n least flags sigset k] by auto
  next
    case (OpScan inflight)
    have "safe id ks kc (run_op sys obs op r k) \<and> run_op sys obs op r k \<noteq> None"
      unfolding OpScan run_op.simps by (rule safe_with_cq [OF ring]) (auto dest: onEntry_safe split: prod.splits)
    then show ?thesis by blast
  next
    case (OpSeen unacked i)
    have "safe id ks kc (run_op sys obs op r k) \<and> run_op sys obs op r k \<noteq> None"
      unfolding OpSeen run_op.simps by (rule safe_with_cq [OF ring]) (auto simp: completer_on_seen_wf)
    then show ?thesis by blast
  next
    case (OpFind uid)
    have "safe id ks kc (run_op sys obs op r k) \<and> run_op sys obs op r k \<noteq> None"
      unfolding OpFind run_op.simps by (rule safe_with_cq [OF ring]) (auto dest: EntryBy_safe split: prod.splits)
    then show ?thesis by blast
  next
    case (OpRePoll c)
    then show ?thesis using rePoll_safe [OF sys, of ks kc "c\<lparr>rcR := r\<rparr>" k] ring by (auto simp: with_conn_def)
  next
    case (OpConnRead b c)
    then show ?thesis using ok ring by (auto intro!: safe_with_conn conn_Read_safe [OF sys])
  next
    case (OpConnWrite b c)
    then show ?thesis
      using ok ring by (auto simp: conn_Write_def intro!: safe_with_conn conn_io_safe [OF sys] conn_entry_ok)
  qed (use ok ring in \<open>auto intro!: safe_with_file file_safe [OF sys obs] fio_Close_safe [OF sys obs]\<close>)
  then show "safe id ks kc (run_op sys obs op r k)" "run_op sys obs op r k = None \<Longrightarrow> waits op" by auto
qed

section \<open>Properties\<close>


lemma serving_kernel_keeps_shape: "keeps_shape (serving_kernel exec)"
  by (auto simp: keeps_shape_def serving_kernel_def same_sq_shape_def same_cq_shape_def option.rel_refl
      split: prod.splits option.splits)


end
