(* ===== verification/Request_Service.thy ===== *)
theory Request_Service
  imports Completion "HOL-Library.Multiset"
begin

text \<open>
  What the completion goroutine of \<open>ring.go\<close> promises its callers, as an abstract service, and the
  proof that \<open>run\<close> with its channel, its map of requests in flight and its scans of the completion
  ring gives that service: every request is answered at most once, by a completion that the kernel
  posted for it, and none gets lost on the way.
\<close>

section \<open>The service\<close>

text \<open>
  Callers ask with fresh ids, the kernel posts completions, and a waiting request is answered with
  the result of a completion that carries its id.
\<close>

record service =
  srvAsked :: "u64 list"
  srvPosted :: "CompletionEntry set"
  srvWaiting :: "u64 multiset"
  srvAnswered :: "completionRequest list"

definition answer :: "CompletionEntry \<Rightarrow> completionRequest" where
  "answer e = \<lparr>crId = cqeUserData e, crRes = cqeRes e, crFlags = cqeFlags e\<rparr>"

inductive service_step :: "service \<Rightarrow> service \<Rightarrow> bool" where
  service_ask:
    "u \<notin> set (srvAsked s) \<Longrightarrow>
     service_step s (s\<lparr>srvAsked := srvAsked s @ [u], srvWaiting := add_mset u (srvWaiting s)\<rparr>)"
| service_post: "service_step s (s\<lparr>srvPosted := srvPosted s \<union> es\<rparr>)"
| service_answer:
    "e \<in> srvPosted s \<Longrightarrow> cqeUserData e \<in># srvWaiting s \<Longrightarrow>
     service_step s (s\<lparr>srvWaiting := srvWaiting s - {#cqeUserData e#}, srvAnswered := srvAnswered s @ [answer e]\<rparr>)"

definition service_init :: "service \<Rightarrow> bool" where
  "service_init s \<longleftrightarrow> srvAsked s = [] \<and> srvWaiting s = {#} \<and> srvAnswered s = []"

text \<open>Every request asked is waiting or was answered, and answers are those of the kernel.\<close>

definition service_inv :: "service \<Rightarrow> bool" where
  "service_inv s \<longleftrightarrow> distinct (srvAsked s)
     \<and> mset (srvAsked s) = srvWaiting s + mset (map crId (srvAnswered s))
     \<and> set (srvAnswered s) \<subseteq> answer ` srvPosted s"

lemma service_inv_step: "service_step s t \<Longrightarrow> service_inv s \<Longrightarrow> service_inv t"
  by (induction rule: service_step.induct) (auto simp: service_inv_def answer_def)

interpretation service: invariant_system service_init service_step service_inv
  by unfold_locales (simp add: service_init_def service_inv_def, rule service_inv_step)

section \<open>The goroutine with its history\<close>

text \<open>
  The goroutine, the requests that arrived in its channel so far, and every completion that was in
  the ring when it looked. Callers draw their ids with \<open>ID\<close>, so an id arrives once.
\<close>

record 'k history =
  hyRun :: "'k run_state"
  hyAsked :: "completionRequest list"
  hyPosted :: "CompletionEntry set"

definition posted_in :: "'k run_state \<Rightarrow> CompletionEntry set" where
  "posted_in st = (case ringCq (rnRing st) of None \<Rightarrow> {} | Some c \<Rightarrow> set (cqEntries c))"

definition asks :: "completionRequest \<Rightarrow> 'k run_state \<Rightarrow> 'k run_state" where
  "asks cr st = st\<lparr>rnRing := (rnRing st)\<lparr>ringCompletions := ringCompletions (rnRing st) @ [cr]\<rparr>\<rparr>"

inductive history_step :: "'k ring_mem kernel6 \<Rightarrow> 'k history \<Rightarrow> 'k history \<Rightarrow> bool"
  for sys :: "'k ring_mem kernel6" where
  history_asks:
    "run_step sys (hyRun h) (asks cr (hyRun h)) \<Longrightarrow> crId cr \<notin> crId ` set (hyAsked h) \<Longrightarrow>
     history_step sys h (h\<lparr>hyRun := asks cr (hyRun h), hyAsked := hyAsked h @ [cr]\<rparr>)"
| history_runs:
    "run_step sys (hyRun h) st \<Longrightarrow> length (ringCompletions (rnRing st)) \<le> length (ringCompletions (rnRing (hyRun h))) \<Longrightarrow>
     history_step sys h (h\<lparr>hyRun := st, hyPosted := hyPosted h \<union> posted_in st\<rparr>)"

definition history_init :: "'k history \<Rightarrow> bool" where
  "history_init h \<longleftrightarrow> run_init (hyRun h) \<and> ringCompletions (rnRing (hyRun h)) = [] \<and> hyAsked h = []
     \<and> hyPosted h = posted_in (hyRun h)"

definition history_inv :: "'k history \<Rightarrow> bool" where
  "history_inv h \<longleftrightarrow> run_inv (hyRun h) \<and> posted_in (hyRun h) \<subseteq> hyPosted h"

lemma posted_in_asks [simp]: "posted_in (asks cr st) = posted_in st"
  by (simp add: posted_in_def asks_def)

lemma history_inv_step: "history_step sys h h' \<Longrightarrow> history_inv h \<Longrightarrow> history_inv h'"
  by (induction rule: history_step.induct) (auto simp: history_inv_def dest: run_inv_step)

text \<open>What the state of the goroutine means for its callers.\<close>

definition served :: "u64 list \<Rightarrow> CompletionEntry set \<Rightarrow> 'k run_state \<Rightarrow> service" where
  "served asked posted st = \<lparr>srvAsked = asked, srvPosted = posted,
     srvWaiting = mset (map crId (ringCompletions (rnRing st))) + mset_set (fset (fmdom (rnInflight st))),
     srvAnswered = rnDone st\<rparr>"

definition service_of :: "'k history \<Rightarrow> service" where
  "service_of h = served (map crId (hyAsked h)) (hyPosted h) (hyRun h)"

section \<open>A scan answers requests\<close>

definition scan_service :: "service \<Rightarrow> entry_scan \<Rightarrow> service" where
  "scan_service s st = s\<lparr>srvWaiting := srvWaiting s + mset_set (fset (fmdom (esInflight st))),
     srvAnswered := srvAnswered s @ esDone st\<rparr>"

lemma on_cqe_answers:
  assumes "e \<in> srvPosted s" "keyed (esInflight st)"
  shows "service_step\<^sup>*\<^sup>* (scan_service s st) (scan_service s (on_cqe e st))"
proof (cases "fmlookup (esInflight st) (cqeUserData e)")
  case None
  then show ?thesis by (simp add: on_cqe_def scan_service_def)
next
  case (Some cr)
  let ?D = "fset (fmdom (esInflight st))"
  from Some have u: "crId cr = cqeUserData e" "cqeUserData e \<in> ?D"
    using assms(2) by (auto simp: keyed_def fmdomI)
  have "mset_set ?D = add_mset (cqeUserData e) (mset_set (?D - {cqeUserData e}))"
    using u(2) by (intro mset_set.remove) simp_all
  moreover have "cr\<lparr>crRes := cqeRes e, crFlags := cqeFlags e\<rparr> = answer e"
    using u(1) by (simp add: answer_def)
  ultimately have "scan_service s (on_cqe e st) =
      (scan_service s st)\<lparr>srvWaiting := srvWaiting (scan_service s st) - {#cqeUserData e#},
        srvAnswered := srvAnswered (scan_service s st) @ [answer e]\<rparr>"
    using Some u(1) by (simp add: on_cqe_def scan_service_def)
  moreover have "cqeUserData e \<in># srvWaiting (scan_service s st)" "e \<in> srvPosted (scan_service s st)"
    using u(2) assms(1) by (simp_all add: scan_service_def)
  ultimately have "service_step (scan_service s st) (scan_service s (on_cqe e st))" by (simp only: service_answer)
  then show ?thesis by (rule r_into_rtranclp)
qed

lemma onEntry_first_answers:
  "set es \<subseteq> srvPosted s \<Longrightarrow> keyed (esInflight st) \<Longrightarrow> onEntry_first es t i st = (b, st') \<Longrightarrow>
   service_step\<^sup>*\<^sup>* (scan_service s st) (scan_service s st')"
proof (induction es t i st rule: onEntry_first.induct)
  case (1 es t i st)
  show ?case
  proof (cases "i < length es")
    case True
    then have "service_step\<^sup>*\<^sup>* (scan_service s st) (scan_service s (on_cqe (es ! i) st))"
      using 1(2,3) by (intro on_cqe_answers) (auto dest: nth_mem)
    moreover have "service_step\<^sup>*\<^sup>* (scan_service s (on_cqe (es ! i) st)) (scan_service s st')"
      using 1(1) [OF True refl] 1(2-4) keyed_on_cqe [of st "es ! i"] True
      by (auto simp: onEntry_first.simps [of es t i] Let_def split: if_splits)
    ultimately show ?thesis by (rule rtranclp_trans)
  qed (use 1(4) in \<open>simp add: onEntry_first.simps [of es t i]\<close>)
qed

lemma onEntry_second_answers:
  "set es \<subseteq> srvPosted s \<Longrightarrow> keyed (esInflight st) \<Longrightarrow> onEntry_second es t i st = (b, st') \<Longrightarrow>
   service_step\<^sup>*\<^sup>* (scan_service s st) (scan_service s st')"
proof (induction es t i st rule: onEntry_second.induct)
  case (1 es t i st)
  show ?case
  proof (cases "i < t \<and> i < length es")
    case True
    then have "service_step\<^sup>*\<^sup>* (scan_service s st) (scan_service s (on_cqe (es ! i) st))"
      using 1(2,3) by (intro on_cqe_answers) (auto dest: nth_mem)
    moreover have "service_step\<^sup>*\<^sup>* (scan_service s (on_cqe (es ! i) st)) (scan_service s st')"
      using 1(1) 1(2-4) keyed_on_cqe [of st "es ! i"] True
      by (simp add: onEntry_second.simps [of es t i])
    ultimately show ?thesis by (rule rtranclp_trans)
  qed (use 1(4) in \<open>auto simp: onEntry_second.simps [of es t i] split: if_splits\<close>)
qed

lemma onEntry_answers:
  assumes posted: "set (cqEntries c) \<subseteq> srvPosted s" and keyed: "keyed m" and run: "onEntry m c = (res, m', done, c')"
  shows "service_step\<^sup>*\<^sup>* (s\<lparr>srvWaiting := srvWaiting s + mset_set (fset (fmdom m))\<rparr>)
      (s\<lparr>srvWaiting := srvWaiting s + mset_set (fset (fmdom m')), srvAnswered := srvAnswered s @ done\<rparr>)"
    and "cqEntries c' = cqEntries c"
proof -
  let ?st = "\<lparr>esSeen = True, esSeenIdx = 0, esInflight = m, esDone = []\<rparr>"
  obtain b st1 where first: "onEntry_first (cqEntries c) (unat (cqTail c AND cqMask c)) (unat (cqHead c AND cqMask c)) ?st = (b, st1)"
    by (metis prod.exhaust)
  obtain out st2 where second: "onEntry_second (cqEntries c) (unat (cqTail c AND cqMask c)) 0 (st1\<lparr>esSeen := True\<rparr>) = (out, st2)"
    by (metis prod.exhaust)
  have one: "service_step\<^sup>*\<^sup>* (scan_service s ?st) (scan_service s st1)"
    using onEntry_first_answers [OF posted _ first] keyed by simp
  have "keyed (esInflight st1)" using keyed_onEntry_first [OF _ first] keyed by simp
  then have two: "service_step\<^sup>*\<^sup>* (scan_service s st1) (scan_service s st2)"
    using onEntry_second_answers [OF posted _ second] by (simp add: scan_service_def)
  have "(m', done) = (esInflight st1, esDone st1) \<or> (m', done) = (esInflight st2, esDone st2)"
    using run by (auto simp: onEntry_def Let_def first second split: bool.splits go.splits)
  with one rtranclp_trans [OF one two]
  show "service_step\<^sup>*\<^sup>* (s\<lparr>srvWaiting := srvWaiting s + mset_set (fset (fmdom m))\<rparr>)
      (s\<lparr>srvWaiting := srvWaiting s + mset_set (fset (fmdom m')), srvAnswered := srvAnswered s @ done\<rparr>)"
    by (auto simp: scan_service_def)
  show "cqEntries c' = cqEntries c"
    using run by (auto simp: onEntry_def Let_def first second split: bool.splits go.splits)
qed

section \<open>A turn of the goroutine\<close>

lemma run_onEntry_serves:
  assumes "keyed (rnInflight st)" "posted_in st \<subseteq> P"
  shows "service_step\<^sup>*\<^sup>* (served a P st) (served a P (run_onEntry st))"
    and "posted_in (run_onEntry st) = posted_in st"
proof -
  have "service_step\<^sup>*\<^sup>* (served a P st) (served a P (run_onEntry st)) \<and> posted_in (run_onEntry st) = posted_in st"
  proof (cases "ringCq (rnRing st)")
    case (Some c)
    obtain res m ds c' where run: "onEntry (rnInflight st) c = (res, m, ds, c')" by (metis prod.exhaust)
    let ?s = "\<lparr>srvAsked = a, srvPosted = P, srvWaiting = mset (map crId (ringCompletions (rnRing st))), srvAnswered = rnDone st\<rparr>"
    from Some assms(2) have "set (cqEntries c) \<subseteq> srvPosted ?s" by (simp add: posted_in_def)
    from onEntry_answers [OF this assms(1) run] show ?thesis
      using Some run by (simp add: served_def run_onEntry_def posted_in_def)
  qed (simp add: served_def run_onEntry_def posted_in_def)
  then show "service_step\<^sup>*\<^sup>* (served a P st) (served a P (run_onEntry st))" "posted_in (run_onEntry st) = posted_in st"
    by auto
qed

lemma run_after_serves:
  assumes "keyed (rnInflight st)" "posted_in st \<subseteq> P"
  shows "service_step\<^sup>*\<^sup>* (served a P st) (served a P (run_after st))" "posted_in (run_after st) = posted_in st"
  using run_onEntry_serves [OF assms] by (simp_all add: run_after_def)

text \<open>Receiving a request moves it from the channel to the requests in flight.\<close>

lemma run_receive_moves:
  assumes "run_receive sys cr (pop_completion st) = Some st'"
  shows "ringCompletions (rnRing st') = tl (ringCompletions (rnRing st))"
    and "rnInflight st' = fmupd (crId cr) cr (rnInflight st)" "rnDone st' = rnDone st"
proof -
  have "ringCompletions r' = ringCompletions r"
    if "Ring_Enter sys n 0 EnterGetEvents 0 r k = Some (res, r', k')" for n r k res r' k'
    using that by (auto simp: Ring_Enter_def Let_def split: option.splits prod.splits)
  then show "ringCompletions (rnRing st') = tl (ringCompletions (rnRing st))"
    using assms by (auto simp: run_receive_def pop_completion_def Let_def split: option.splits)
  show "rnInflight st' = fmupd (crId cr) cr (rnInflight st)" "rnDone st' = rnDone st"
    using assms by (auto simp: run_receive_def pop_completion_def Let_def split: option.splits)
qed

lemma run_receive_serves:
  assumes "run_receive sys cr (pop_completion st) = Some st'" "ringCompletions (rnRing st) = cr # crs"
    and "crId cr \<notin> fset (fmdom (rnInflight st))"
  shows "served a P st' = served a P st"
  using run_receive_moves [OF assms(1)] assms(2,3) by (simp add: served_def)

lemma run_after_queue: "ringCompletions (rnRing (run_after st)) = ringCompletions (rnRing st)"
  by (simp add: run_after_def run_onEntry_def split: option.split prod.split)

lemma served_post: "P \<subseteq> P' \<Longrightarrow> service_step\<^sup>*\<^sup>* (served a P st) (served a P' st)"
  using service_post [of "served a P st" P'] by (simp add: served_def Un_absorb1)

lemma run_turn_serves:
  assumes "run_receive sys cr (pop_completion st) = Some st'" "ringCompletions (rnRing st) = cr # crs"
    and "crId cr \<notin> fset (fmdom (rnInflight st))" "keyed (rnInflight st)"
  shows "service_step\<^sup>*\<^sup>* (served a P st) (served a (P \<union> posted_in (run_after st')) (run_after st'))"
proof -
  let ?P = "P \<union> posted_in st'"
  have "keyed (rnInflight st')" using keyed_run_receive [OF assms(1)] assms(4) by (simp add: pop_completion_def)
  then have turn: "service_step\<^sup>*\<^sup>* (served a ?P st') (served a ?P (run_after st'))"
      and "posted_in (run_after st') = posted_in st'"
    using run_after_serves [where st = st' and P = ?P] by auto
  have "served a P st' = served a P st" by (rule run_receive_serves [OF assms(1-3)])
  with served_post [of P ?P a st'] turn \<open>posted_in (run_after st') = posted_in st'\<close> show ?thesis
    by (auto intro: rtranclp_trans)
qed

text \<open>A request in the channel is not in flight as well, since ids are asked once.\<close>

lemma waiting_not_in_flight:
  assumes "service_inv (served a P st)" "ringCompletions (rnRing st) = cr # crs"
  shows "crId cr \<notin> fset (fmdom (rnInflight st))"
proof
  assume "crId cr \<in> fset (fmdom (rnInflight st))"
  then have "1 \<le> count (mset_set (fset (fmdom (rnInflight st)))) (crId cr)" by simp
  moreover have "mset a = add_mset (crId cr) (mset (map crId crs)) + mset_set (fset (fmdom (rnInflight st))) + mset (map crId (rnDone st))"
    using assms by (simp add: service_inv_def served_def)
  ultimately have "2 \<le> count (mset a) (crId cr)" by simp
  moreover have "distinct a" using assms(1) by (simp add: service_inv_def served_def)
  ultimately show False by (simp add: distinct_count_atmost_1 split: if_splits)
qed

lemma served_retry [simp]: "served a P (st\<lparr>rnRetry := n\<rparr>) = served a P st" "posted_in (st\<lparr>rnRetry := n\<rparr>) = posted_in st"
  by (simp_all add: served_def posted_in_def)

lemma run_step_serves:
  assumes "run_step sys st st'" "run_inv st" "service_inv (served a P st)" "posted_in st \<subseteq> P"
    and "length (ringCompletions (rnRing st')) \<le> length (ringCompletions (rnRing st))"
  shows "service_step\<^sup>*\<^sup>* (served a P st) (served a (P \<union> posted_in st') st')"
  using assms
proof (induction rule: run_step.induct)
  case (run_completion st cr crs st')
  then show ?case by (intro run_turn_serves waiting_not_in_flight) (auto simp: run_inv_def)
next
  case (run_retry_receive st cr crs st')
  let ?st = "st\<lparr>rnRetry := rnRetry st - 1\<rparr>"
  have "service_step\<^sup>*\<^sup>* (served a P ?st) (served a (P \<union> posted_in (run_after st')) (run_after st'))"
    using run_retry_receive waiting_not_in_flight [of a P ?st cr crs]
    by (intro run_turn_serves [OF run_retry_receive(4)]) (auto simp: run_inv_def)
  then show ?case by simp
next
  case (run_retry_default st)
  then show ?case
    using run_onEntry_serves [where st = "st\<lparr>rnRetry := rnRetry st - 1\<rparr>" and P = P]
    by (simp add: run_inv_def Un_absorb2)
next
  case (run_kernel_posts st c es k tl')
  let ?st = "st\<lparr>rnRing := (rnRing st)\<lparr>ringCq := Some (c\<lparr>cqTail := tl', cqEntries := es\<rparr>)\<rparr>, rnKernel := k\<rparr>"
  have "served a P ?st = served a P st" by (simp add: served_def)
  then show ?case using served_post [of P "P \<union> posted_in ?st" a ?st] by simp
qed (auto simp: served_def posted_in_def Un_absorb2)

lemma history_step_serves:
  assumes "history_step sys h h'" "history_inv h" "service_inv (service_of h)"
  shows "service_step\<^sup>*\<^sup>* (service_of h) (service_of h')"
  using assms
proof (induction rule: history_step.induct)
  case (history_asks h cr)
  let ?s = "service_of h"
  have "service_step ?s (?s\<lparr>srvAsked := srvAsked ?s @ [crId cr], srvWaiting := add_mset (crId cr) (srvWaiting ?s)\<rparr>)"
    using history_asks(2) by (intro service_ask) (simp add: service_of_def served_def)
  then show ?case by (intro r_into_rtranclp) (simp add: service_of_def served_def asks_def)
next
  case (history_runs h st)
  then show ?case using run_step_serves [of sys "hyRun h" st "map crId (hyAsked h)" "hyPosted h"]
    by (simp add: history_inv_def service_of_def)
qed

interpretation run_service: refinement history_init "history_step sys" history_inv service_init service_step service_inv service_of
  for sys
proof unfold_locales
  show "history_inv h" if "history_init h" for h :: "'a history"
    using that by (simp add: history_init_def history_inv_def run_init_def run_inv_def keyed_def)
  show "service_init (service_of h)" if "history_init h" for h :: "'a history"
    using that by (simp add: history_init_def service_init_def service_of_def served_def run_init_def)
qed (auto intro: history_inv_step history_step_serves)

text \<open>The histories leave no step of the goroutine out, but for a caller that uses an id again.\<close>

lemma run_step_queue:
  assumes "run_step sys st st'"
  shows "length (ringCompletions (rnRing st')) \<le> length (ringCompletions (rnRing st)) \<or> (\<exists>cr. st' = asks cr st)"
  using assms
proof (induction rule: run_step.induct)
  case (run_request_arrives st c cr)
  then show ?case by (intro disjI2 exI [of _ cr]) (simp add: asks_def)
qed (auto simp: run_after_queue run_onEntry_def dest!: run_receive_moves(1) split: option.splits prod.splits)

lemma history_covers:
  assumes "run_step sys (hyRun h) st" "\<And>cr. st = asks cr (hyRun h) \<Longrightarrow> crId cr \<notin> crId ` set (hyAsked h)"
  shows "\<exists>h'. history_step sys h h' \<and> hyRun h' = st"
  using run_step_queue [OF assms(1)]
proof
  assume "\<exists>cr. st = asks cr (hyRun h)"
  then obtain cr where st: "st = asks cr (hyRun h)" by blast
  from history_asks [OF assms(1) [unfolded st] assms(2) [OF st]] show ?thesis
    by (intro exI conjI) (assumption, simp add: st)
next
  assume "length (ringCompletions (rnRing st)) \<le> length (ringCompletions (rnRing (hyRun h)))"
  from history_runs [OF assms(1) this] show ?thesis by (intro exI conjI) (assumption, simp)
qed

lemma distinct_part: "distinct xs \<Longrightarrow> mset xs = M + mset ys \<Longrightarrow> distinct ys"
proof -
  assume "distinct xs" and eq: "mset xs = M + mset ys"
  obtain zs where "mset zs = M" using ex_mset by blast
  with eq have "mset xs = mset (zs @ ys)" by simp
  then have "distinct (zs @ ys)" using \<open>distinct xs\<close> mset_eq_imp_distinct_iff by blast
  then show "distinct ys" by simp
qed

section \<open>Properties\<close>

text \<open>
  C5: The completion goroutine refines the service: whatever the kernel posts and in whatever order
  requests arrive, retries are taken and scans run, what its state stands for is a state the service
  can reach. So every request that arrived is still in the channel, in flight, or was answered,
  none twice, and every answer carries the result of a completion that was in the ring.
\<close>

theorem run_refines_service:
  assumes "reach history_init (history_step sys) h"
  shows "reach service_init service_step (service_of h)
    \<and> distinct (map crId (rnDone (hyRun h)))
    \<and> mset (map crId (hyAsked h)) = mset (map crId (ringCompletions (rnRing (hyRun h))))
        + mset_set (fset (fmdom (rnInflight (hyRun h)))) + mset (map crId (rnDone (hyRun h)))
    \<and> set (rnDone (hyRun h)) \<subseteq> answer ` hyPosted h"
proof -
  have "service_inv (service_of h)" by (rule run_service.reach_abs_inv [OF assms])
  then have inv: "distinct (map crId (hyAsked h))" "mset (map crId (hyAsked h)) = mset (map crId (ringCompletions (rnRing (hyRun h))))
        + mset_set (fset (fmdom (rnInflight (hyRun h)))) + mset (map crId (rnDone (hyRun h)))"
      "set (rnDone (hyRun h)) \<subseteq> answer ` hyPosted h"
    by (simp_all add: service_inv_def service_of_def served_def)
  have "distinct (map crId (rnDone (hyRun h)))"
    by (rule distinct_part [OF inv(1,2)])
  with inv(2,3) run_service.reach_abs [OF assms] show ?thesis by simp
qed

text \<open>A goroutine on a ring with one completion posted, and its turn on the request for it.\<close>

definition answered_run :: "completionRequest list \<Rightarrow> unit run_state" where
  "answered_run crs = \<lparr>rnPc = AtSelect, rnRing = (sample_ring (sample_sq 2 0 0))\<lparr>ringCompletions := crs,
       ringCq := Some (sample_cq 0 1 [sample_cqe 7 42, sample_cqe 0 0, sample_cqe 0 0, sample_cqe 0 0])\<rparr>, rnKernel = (),
     rnInflight = fmempty, rnRetry = 0, rnDone = [], rnErrs = []\<rparr>"

lemma answered_turn:
  "\<exists>st. run_receive idle_kernel (sample_request 7) (pop_completion (answered_run [sample_request 7])) = Some st
     \<and> rnDone (run_after st) = [answer (sample_cqe 7 42)] \<and> ringCompletions (rnRing (run_after st)) = []
     \<and> posted_in (run_after st) = {sample_cqe 7 42, sample_cqe 0 0}"
  by (simp add: run_receive_def pop_completion_def answered_run_def sample_ring_def sample_sq_def Ring_Enter_def enterLock_free
      enterUnlock_def Enter_def idle_kernel_def Enter_result_def NeedWakeup_def run_after_def run_onEntry_def onEntry_def sample_cq_def
      onEntry_first.simps on_cqe_def sample_cqe_def sample_request_def answer_def posted_in_def Let_def insert_commute)

theorem run_refines_service_witness:
  "\<exists>h :: unit history. reach history_init (history_step idle_kernel) h
     \<and> rnDone (hyRun h) = [\<lparr>crId = 7, crRes = 42, crFlags = 0\<rparr>]
     \<and> reach service_init service_step (service_of h)"
proof -
  let ?P = "{sample_cqe 7 42, sample_cqe 0 0}"
  let ?h = "\<lparr>hyRun = answered_run [], hyAsked = [], hyPosted = ?P\<rparr>"
  let ?h1 = "\<lparr>hyRun = answered_run [sample_request 7], hyAsked = [sample_request 7], hyPosted = ?P\<rparr>"
  have asks: "asks (sample_request 7) (answered_run []) = answered_run [sample_request 7]"
    by (simp add: asks_def answered_run_def)
  have "history_init ?h"
    by (simp add: history_init_def run_init_def posted_in_def answered_run_def sample_cq_def insert_commute)
  then have r0: "reach history_init (history_step idle_kernel) ?h" by (rule reach_init)
  have "run_step idle_kernel (answered_run []) (asks (sample_request 7) (answered_run []))"
    unfolding asks_def
    by (rule run_request_arrives [where c = "sample_cq 0 1 [sample_cqe 7 42, sample_cqe 0 0, sample_cqe 0 0, sample_cqe 0 0]"])
      (simp_all add: answered_run_def sample_cq_def)
  then have "history_step idle_kernel ?h ?h1"
    using history_asks [of idle_kernel ?h "sample_request 7"] by (simp add: asks)
  with r0 have r1: "reach history_init (history_step idle_kernel) ?h1" by (rule reach_step)
  obtain st where st: "run_receive idle_kernel (sample_request 7) (pop_completion (answered_run [sample_request 7])) = Some st"
      "rnDone (run_after st) = [answer (sample_cqe 7 42)]" "ringCompletions (rnRing (run_after st)) = []"
    using answered_turn by blast
  have "run_step idle_kernel (hyRun ?h1) (run_after st)"
    using st(1) run_completion [of "answered_run [sample_request 7]" "sample_request 7" "[]" idle_kernel st]
    by (simp add: answered_run_def)
  from history_runs [OF this] st(3)
  have "history_step idle_kernel ?h1 (?h1\<lparr>hyRun := run_after st, hyPosted := hyPosted ?h1 \<union> posted_in (run_after st)\<rparr>)" by simp
  with r1 have r2: "reach history_init (history_step idle_kernel)
      (?h1\<lparr>hyRun := run_after st, hyPosted := hyPosted ?h1 \<union> posted_in (run_after st)\<rparr>)" by (rule reach_step)
  from run_refines_service [OF r2] r2 st(2) show ?thesis
    by (intro exI conjI) (assumption, auto simp: answer_def sample_cqe_def)
qed

end
