(* ===== verification/Standalone.thy ===== *)
theory Standalone
  imports Uring_Setup
begin

text \<open>
  \<open>examples/standalone/main.go\<close>: a program with its own small ring that reads a file in two
  halves. The names of its types and functions carry the prefix \<open>sa\<close>. The temporary file, the
  allocator's addresses and the kernel are parameters; \<open>log.Fatal\<close> is the error it reports.
\<close>

section \<open>Constants and data\<close>

definition sa_SetupSyscall :: u64 where "sa_SetupSyscall = 425"
definition sa_EnterSyscall :: u64 where "sa_EnterSyscall = 426"
definition sa_RegisterSyscall :: u64 where "sa_RegisterSyscall = 427"
definition sa_SqRingOffset :: u64 where "sa_SqRingOffset = 0"
definition sa_CqRingOffset :: u64 where "sa_CqRingOffset = 0x8000000"
definition sa_SqeRingOffset :: u64 where "sa_SqeRingOffset = 0x10000000"
definition sa_EnterGetEvents :: u64 where "sa_EnterGetEvents = push_bit 0 1"
definition sa_Read :: u8 where "sa_Read = 22"

record Sqe =
  seOpcode :: u8
  seFlags :: u8
  seIoprio :: u16
  seFd :: i32
  seOff :: u64
  seAddr :: u64
  seLen :: u32
  seRw_flags :: i32
  seUser_data :: u64
  seAnon0 :: "u8 list"

record Cqe =
  ceData :: u64
  ceRes :: i32
  ceFlags :: u32

definition sa_uint32Size :: nat where "sa_uint32Size = 4"
definition sa_cqeSize :: nat where "sa_cqeSize = struct_size [(8, 8), (4, 4), (4, 4)]"
definition sa_sqeSize :: nat where
  "sa_sqeSize = struct_size
     [(1, 1), (1, 1), (2, 2), (4, 4), (8, 8), (8, 8), (4, 4), (4, 4), (8, 8), (24, 1)]"

record sa_SqOffset =
  sfHead :: u32
  sfTail :: u32
  sfMask :: u32
  sfEntries :: u32
  sfFlags :: u32
  sfDropped :: u32
  sfArray :: u32
  sfResv1 :: u32
  sfResv2 :: u64

record sa_CqOffset =
  cfHead :: u32
  cfTail :: u32
  cfMask :: u32
  cfEntries :: u32
  cfOverflow :: u32
  cfCqes :: u32
  cfResv :: "u64 list"

record sa_Params =
  spSq_entries :: u32
  spCq_entries :: u32
  spFlags :: u32
  spSq_thread_cpu :: u32
  spSq_thread_idle :: u32
  spFeatures :: u32
  spWq_fd :: u32
  spResv :: "u32 list"
  spSq_off :: sa_SqOffset
  spCq_off :: sa_CqOffset

definition sa_zero_Params :: sa_Params where
  "sa_zero_Params = \<lparr>spSq_entries = 0, spCq_entries = 0, spFlags = 0, spSq_thread_cpu = 0,
     spSq_thread_idle = 0, spFeatures = 0, spWq_fd = 0, spResv = [0, 0, 0],
     spSq_off = \<lparr>sfHead = 0, sfTail = 0, sfMask = 0, sfEntries = 0, sfFlags = 0, sfDropped = 0,
       sfArray = 0, sfResv1 = 0, sfResv2 = 0\<rparr>,
     spCq_off = \<lparr>cfHead = 0, cfTail = 0, cfMask = 0, cfEntries = 0, cfOverflow = 0, cfCqes = 0,
       cfResv = [0, 0]\<rparr>\<rparr>"

text \<open>The queues as the addresses that \<open>MmapRing\<close> stores in them.\<close>

record sa_SqLayout =
  sqlSize :: u32
  sqlHead :: u64
  sqlTail :: u64
  sqlMask :: u64
  sqlFlags :: u64
  sqlDropped :: u64
  sqlEntries :: SliceHeader
  sqlArray :: SliceHeader

record sa_CqLayout =
  cqlSize :: u32
  cqlHead :: u64
  cqlTail :: u64
  cqlMask :: u64
  cqlOverflow :: u64
  cqlEntries :: SliceHeader

section \<open>System calls\<close>

definition sa_Setup ::
  "(u64 \<Rightarrow> u64 \<Rightarrow> sa_Params \<Rightarrow> sa_Params \<times> u64 \<times> u64) \<Rightarrow> u64 \<Rightarrow> sa_Params \<Rightarrow> goint go \<times> sa_Params" where
  "sa_Setup sys entries params =
     (let (params, fd, errno) = sys sa_SetupSyscall entries params
      in if errno \<noteq> 0 then (Err (Errno errno), params) else (Ok fd, params))"

definition sa_sq_size :: "sa_Params \<Rightarrow> u32" where
  "sa_sq_size p = ucast (ucast (sfArray (spSq_off p)) + ucast (spSq_entries p) * of_nat sa_uint32Size :: u64)"

definition sa_cq_size :: "sa_Params \<Rightarrow> u32" where
  "sa_cq_size p = ucast (ucast (cfCqes (spCq_off p)) + ucast (spCq_entries p) * of_nat sa_cqeSize :: u64)"

definition sa_MmapRing :: "syscall6 \<Rightarrow> goint \<Rightarrow> sa_Params \<Rightarrow> (sa_SqLayout \<times> sa_CqLayout) go" where
  "sa_MmapRing sys fd p =
     (let so = spSq_off p; co = spCq_off p;
          (sqPtr, errno) = mmap_shared sys (ucast (sa_sq_size p)) fd sa_SqRingOffset
      in if errno \<noteq> 0 then Err (Errno errno)
         else
           let (sqePtr, errno) = mmap_shared sys (ucast (spSq_entries p) * of_nat sa_sqeSize) fd sa_SqeRingOffset
           in if errno \<noteq> 0 then Err (Errno errno)
              else
                let (cqPtr, errno) = mmap_shared sys (ucast (sa_cq_size p)) fd sa_CqRingOffset
                in if errno \<noteq> 0 then Err (Errno errno)
                   else Ok
                     (\<lparr>sqlSize = sa_sq_size p, sqlHead = sqPtr + ucast (sfHead so), sqlTail = sqPtr + ucast (sfTail so),
                       sqlMask = sqPtr + ucast (sfMask so), sqlFlags = sqPtr + ucast (sfFlags so),
                       sqlDropped = sqPtr + ucast (sfDropped so),
                       sqlEntries = \<lparr>shData = sqePtr, shLen = ucast (spSq_entries p), shCap = ucast (spSq_entries p)\<rparr>,
                       sqlArray = \<lparr>shData = sqPtr + ucast (sfArray so), shLen = ucast (spSq_entries p),
                                   shCap = ucast (spSq_entries p)\<rparr>\<rparr>,
                      \<lparr>cqlSize = sa_cq_size p, cqlHead = cqPtr + ucast (cfHead co), cqlTail = cqPtr + ucast (cfTail co),
                       cqlMask = cqPtr + ucast (cfMask co), cqlOverflow = cqPtr + ucast (cfOverflow co),
                       cqlEntries = \<lparr>shData = cqPtr + ucast (cfCqes co), shLen = ucast (spCq_entries p),
                                     shCap = ucast (spCq_entries p)\<rparr>\<rparr>))"

definition sa_Enter :: "'w kernel6 \<Rightarrow> goint \<Rightarrow> u64 \<Rightarrow> u64 \<Rightarrow> u64 \<Rightarrow> 'w \<Rightarrow> goint go \<times> 'w" where
  "sa_Enter sys fd toSubmit minComplete flags w =
     (let (w, res, errno) = sys sa_EnterSyscall fd toSubmit minComplete flags 0 0 w
      in (if errno \<noteq> 0 then Err (Errno errno) else Ok res, w))"

section \<open>The program\<close>

text \<open>
  The queues as their contents, the bytes of the process's memory that buffers live in, and the
  state of the kernel.
\<close>

record sa_SubmitQueue =
  svSize :: u32
  svHead :: u32
  svTail :: u32
  svMask :: u32
  svFlags :: u32
  svDropped :: u32
  svEntries :: "Sqe list"
  svArray :: "u32 list"

record sa_CompletionQueue =
  cvSize :: u32
  cvHead :: u32
  cvTail :: u32
  cvMask :: u32
  cvOverflow :: u32
  cvEntries :: "Cqe list"

type_synonym 'k sa_mem = "sa_SubmitQueue \<times> sa_CompletionQueue \<times> bytes \<times> 'k"

text \<open>The entry of turn \<open>i\<close>; the padding and the flags keep what they held.\<close>

definition sa_fill :: "goint \<Rightarrow> u64 \<Rightarrow> nat \<Rightarrow> u64 \<Rightarrow> nat \<Rightarrow> Sqe \<Rightarrow> Sqe" where
  "sa_fill fd offset n a i e =
     e\<lparr>seOpcode := sa_Read, seFd := ucast fd, seOff := offset, seLen := of_nat n,
       seUser_data := of_nat (i + 1), seAddr := a\<rparr>"

definition sa_prepare :: "goint \<Rightarrow> u64 \<Rightarrow> nat \<Rightarrow> u64 \<Rightarrow> nat \<Rightarrow> sa_SubmitQueue \<Rightarrow> sa_SubmitQueue go" where
  "sa_prepare fd offset n a i sq =
     (let sqIdx = unat (svTail sq AND svMask sq)
      in if length (svEntries sq) \<le> sqIdx then Panic IndexOutOfRange
         else if n = 0 then Panic IndexOutOfRange
         else if length (svArray sq) \<le> sqIdx then Panic IndexOutOfRange
         else if length (svEntries sq) < 2 then Panic SliceBoundsOutOfRange
         else Ok (sq\<lparr>svEntries := (svEntries sq)[sqIdx := sa_fill fd offset n a i (svEntries sq ! sqIdx)],
                     svArray := (svArray sq)[sqIdx := svHead sq AND svMask sq],
                     svTail := svTail sq + 1\<rparr>))"

text \<open>
  The search: \<open>cqIdx\<close> runs from the masked head up to the tail as it is; the content read and the
  offset are updated for every match.
\<close>

function sa_search ::
  "nat \<Rightarrow> nat \<Rightarrow> u64 \<Rightarrow> u8 list \<Rightarrow> sa_CompletionQueue \<Rightarrow> u8 list \<Rightarrow> u64 \<Rightarrow> (sa_CompletionQueue \<times> u8 list \<times> u64) go" where
  "sa_search cqIdx limit u readBuff cq exContent offset =
     (if cqIdx < limit then
        if length (cvEntries cq) \<le> cqIdx then Panic IndexOutOfRange
        else if ceData (cvEntries cq ! cqIdx) = u then
          sa_search (Suc cqIdx) limit u readBuff (cq\<lparr>cvHead := cvHead cq + 1\<rparr>) (exContent @ readBuff)
            (offset + scast (ceRes (cvEntries cq ! cqIdx)))
        else sa_search (Suc cqIdx) limit u readBuff cq exContent offset
      else Ok (cq, exContent, offset))"
  by pat_completeness auto
termination
  by (relation "measure (\<lambda>(cqIdx, limit, u, readBuff, cq, exContent, offset). limit - cqIdx)") auto

declare sa_search.simps [simp del]

definition sa_turn ::
  "'k sa_mem kernel6 \<Rightarrow> (nat \<Rightarrow> u64) \<Rightarrow> goint \<Rightarrow> goint \<Rightarrow> nat \<Rightarrow> nat \<Rightarrow> 'k sa_mem \<times> u64 \<times> u8 list
   \<Rightarrow> ('k sa_mem \<times> u64 \<times> u8 list) go" where
  "sa_turn sys alloc ringFd fd n i = (\<lambda>((sq, cq, mem, k), offset, exContent).
     let a = alloc i; mem = fill_bytes a (replicate n 0) mem
     in case sa_prepare fd offset n a i sq of
          Err e \<Rightarrow> Err e
        | Panic p \<Rightarrow> Panic p
        | Ok sq \<Rightarrow>
            (case sa_Enter sys ringFd 1 1 sa_EnterGetEvents (sq, cq, mem, k) of
               (Err e, _) \<Rightarrow> Err e
             | (Panic p, _) \<Rightarrow> Panic p
             | (Ok m, sq, cq, mem, k) \<Rightarrow>
                 if m \<noteq> 1 then Err (Errorf ''expected 1 completed entry, got: %v'' [m])
                 else if cvHead cq = cvTail cq then Err (ErrorString ''No entries'')
                 else if length (cvEntries cq) < 2 then Panic SliceBoundsOutOfRange
                 else
                   (case sa_search (unat (cvHead cq AND cvMask cq)) (unat (cvTail cq)) (of_nat (i + 1))
                           (buffer mem a n) cq exContent offset of
                      Err e \<Rightarrow> Err e
                    | Panic p \<Rightarrow> Panic p
                    | Ok (cq, exContent, offset) \<Rightarrow> Ok ((sq, cq, mem, k), offset, exContent))))"

definition sa_content :: "u8 list" where
  "sa_content = map (\<lambda>ch. of_nat (of_char ch)) ''testing  1,2,3''"

text \<open>The two turns and the comparison, from the mapped ring on.\<close>

definition sa_reads ::
  "'k sa_mem kernel6 \<Rightarrow> (nat \<Rightarrow> u64) \<Rightarrow> goint \<Rightarrow> goint \<Rightarrow> u8 list \<Rightarrow> 'k sa_mem \<Rightarrow> 'k sa_mem go" where
  "sa_reads sys alloc ringFd fd content st =
     (case sa_turn sys alloc ringFd fd (length content div 2) 0 (st, 0, []) of
        Err e \<Rightarrow> Err e
      | Panic p \<Rightarrow> Panic p
      | Ok st \<Rightarrow>
          (case sa_turn sys alloc ringFd fd (length content div 2) 1 st of
             Err e \<Rightarrow> Err e
           | Panic p \<Rightarrow> Panic p
           | Ok (st, offset, exContent) \<Rightarrow>
               if content \<noteq> exContent then Err (ErrorString ''Expected: %+v, got: %+v'') else Ok st))"

text \<open>
  \<open>main\<close>: creating, writing and rewinding the temporary file may fail; \<open>view\<close> reads the mapped
  queues at their addresses.
\<close>

definition sa_main ::
  "goerror + goint \<Rightarrow> goerror option \<Rightarrow> goerror option \<Rightarrow> (u64 \<Rightarrow> u64 \<Rightarrow> sa_Params \<Rightarrow> sa_Params \<times> u64 \<times> u64) \<Rightarrow> syscall6
   \<Rightarrow> (sa_SqLayout \<Rightarrow> sa_CqLayout \<Rightarrow> 'k sa_mem) \<Rightarrow> 'k sa_mem kernel6 \<Rightarrow> (nat \<Rightarrow> u64) \<Rightarrow> 'k sa_mem go" where
  "sa_main tmpFile written sought ksetup mmap view sys alloc =
     (case tmpFile of
        Inl e \<Rightarrow> Err e
      | Inr fd \<Rightarrow>
          (case written of Some e \<Rightarrow> Err e | None \<Rightarrow>
          (case sought of Some e \<Rightarrow> Err e | None \<Rightarrow>
          (case sa_Setup ksetup 8 sa_zero_Params of
             (Err e, _) \<Rightarrow> Err e
           | (Panic p, _) \<Rightarrow> Panic p
           | (Ok ringFd, p) \<Rightarrow>
               (case sa_MmapRing mmap ringFd p of
                  Err e \<Rightarrow> Err e
                | Panic p \<Rightarrow> Panic p
                | Ok (sq, cq) \<Rightarrow> sa_reads sys alloc ringFd fd sa_content (view sq cq))))))"

section \<open>A kernel that reads the file\<close>

text \<open>
  What io_uring documents for one submitted read of a file with the given content: the entry named
  by the index array at the head is consumed, the bytes of the file from its offset on, at most as
  many as asked for, are stored at its address, and a completion with its user data and the number
  of bytes is posted at the tail.
\<close>

definition sa_picked :: "sa_SubmitQueue \<Rightarrow> Sqe" where
  "sa_picked sq = svEntries sq ! unat (svArray sq ! unat (svHead sq AND svMask sq))"

definition sa_post :: "u64 \<Rightarrow> nat \<Rightarrow> sa_CompletionQueue \<Rightarrow> sa_CompletionQueue" where
  "sa_post u n cq = cq\<lparr>cvEntries := (cvEntries cq)[unat (cvTail cq AND cvMask cq) :=
       \<lparr>ceData = u, ceRes = of_nat n, ceFlags = 0\<rparr>], cvTail := cvTail cq + 1\<rparr>"

definition read_at :: "u8 list \<Rightarrow> Sqe \<Rightarrow> u8 list" where
  "read_at file e = take (unat (seLen e)) (drop (unat (seOff e)) file)"

definition sa_reads_file :: "goint \<Rightarrow> u8 list \<Rightarrow> 'k sa_mem kernel6 \<Rightarrow> bool" where
  "sa_reads_file fd file sys \<longleftrightarrow>
     (\<forall>ringFd sq cq mem k. seOpcode (sa_picked sq) = sa_Read \<longrightarrow> seFd (sa_picked sq) = ucast fd \<longrightarrow>
       (\<exists>k'. sys sa_EnterSyscall ringFd 1 1 sa_EnterGetEvents 0 0 (sq, cq, mem, k) =
          ((sq\<lparr>svHead := svHead sq + 1\<rparr>,
            sa_post (seUser_data (sa_picked sq)) (length (read_at file (sa_picked sq))) cq,
            fill_bytes (seAddr (sa_picked sq)) (read_at file (sa_picked sq)) mem, k'), 1, 0)))"

text \<open>The geometry of both queues, and queues whose head and tail agree at \<open>m\<close> requests.\<close>

definition sa_sq_ok :: "nat \<Rightarrow> sa_SubmitQueue \<Rightarrow> bool" where
  "sa_sq_ok k sq \<longleftrightarrow> 0 < k \<and> k < 32 \<and> svMask sq = mask k \<and> length (svEntries sq) = 2 ^ k \<and> length (svArray sq) = 2 ^ k"

definition sa_cq_ok :: "nat \<Rightarrow> sa_CompletionQueue \<Rightarrow> bool" where
  "sa_cq_ok k cq \<longleftrightarrow> 0 < k \<and> k < 32 \<and> cvMask cq = mask k \<and> length (cvEntries cq) = 2 ^ k"

definition sa_drained :: "nat \<Rightarrow> nat \<Rightarrow> nat \<Rightarrow> 'k sa_mem \<Rightarrow> bool" where
  "sa_drained ks kc m st \<longleftrightarrow> (case st of (sq, cq, mem, k) \<Rightarrow> sa_sq_ok ks sq \<and> sa_cq_ok kc cq
     \<and> svHead sq = svTail sq \<and> cvHead cq = of_nat m \<and> cvTail cq = of_nat m)"

lemma sa_prepare_eq:
  assumes "sa_sq_ok k sq" "svHead sq = svTail sq" "0 < n"
  shows "\<exists>sq'. sa_prepare fd offset n a i sq = Ok sq' \<and> sa_sq_ok k sq' \<and> svHead sq' = svTail sq
    \<and> svTail sq' = svTail sq + 1 \<and> (\<exists>e. sa_picked sq' = sa_fill fd offset n a i e)"
proof -
  let ?j = "unat (svTail sq AND svMask sq)"
  have j: "?j < 2 ^ k" using assms(1) by (simp add: sa_sq_ok_def unat_and_mask)
  have "(2 :: nat) \<le> 2 ^ k" using assms(1) power_increasing [of 1 k "2 :: nat"] by (simp add: sa_sq_ok_def)
  then show ?thesis
    using assms j by (auto simp: sa_prepare_def sa_sq_ok_def sa_picked_def Let_def)
qed

lemma sa_search_one:
  assumes "j < length (cvEntries cq)" "ceData (cvEntries cq ! j) = u"
  shows "sa_search j (Suc j) u bs cq ex offset =
    Ok (cq\<lparr>cvHead := cvHead cq + 1\<rparr>, ex @ bs, offset + scast (ceRes (cvEntries cq ! j)))"
  using assms by (simp add: sa_search.simps)

text \<open>One turn reads the next \<open>n\<close> bytes of the file.\<close>

lemma sa_turn_reads:
  assumes sys: "sa_reads_file fd file sys" and st: "sa_drained ks kc i st" and i: "i < 2"
    and n: "0 < n" "n < 2 ^ 31" "unat offset + n \<le> length file"
  shows "\<exists>st'. sa_turn sys alloc ringFd fd n i (st, offset, ex) =
      Ok (st', offset + of_nat n, ex @ take n (drop (unat offset) file)) \<and> sa_drained ks kc (Suc i) st'"
proof -
  obtain sq cq mem k where [simp]: "st = (sq, cq, mem, k)" by (cases st)
  let ?a = "alloc i" and ?bs = "take n (drop (unat offset) file)"
  from st have ok: "sa_sq_ok ks sq" "sa_cq_ok kc cq" "svHead sq = svTail sq" "cvHead cq = of_nat i" "cvTail cq = of_nat i"
    by (simp_all add: sa_drained_def)
  obtain sq' e where prep: "sa_prepare fd offset n ?a i sq = Ok sq'" and sq': "sa_sq_ok ks sq'" "svHead sq' = svTail sq"
      "svTail sq' = svTail sq + 1" and pick: "sa_picked sq' = sa_fill fd offset n ?a i e"
    using sa_prepare_eq [OF ok(1,3) n(1)] by metis
  have read: "read_at file (sa_picked sq') = ?bs"
    using n(2) by (simp add: read_at_def pick sa_fill_def unat_of_nat)
  have len: "length ?bs = n" using n(3) by simp
  let ?cq = "sa_post (of_nat (i + 1)) n cq" and ?m0 = "fill_bytes ?a (replicate n 0) mem"
  obtain k' where run: "sa_Enter sys ringFd 1 1 sa_EnterGetEvents (sq', cq, ?m0, k) =
      (Ok 1, sq'\<lparr>svHead := svHead sq' + 1\<rparr>, ?cq, fill_bytes ?a ?bs ?m0, k')"
    using sys [unfolded sa_reads_file_def, rule_format, of sq' ringFd cq ?m0 k]
    unfolding read len by (auto simp: sa_Enter_def pick sa_fill_def)
  have slot: "i < length (cvEntries cq)" "unat (of_nat i AND cvMask cq) = i"
    using ok(2) i power_increasing [of 1 kc "2 :: nat"] by (auto simp: sa_cq_ok_def unat_and_mask)
  have two: "2 \<le> length (cvEntries cq)"
    using ok(2) power_increasing [of 1 kc "2 :: nat"] by (simp add: sa_cq_ok_def)
  have cq: "cvHead ?cq = of_nat i" "cvMask ?cq = cvMask cq" "cvTail ?cq = of_nat (Suc i)"
      "length (cvEntries ?cq) = length (cvEntries cq)" "cvEntries ?cq ! i = \<lparr>ceData = of_nat (i + 1), ceRes = of_nat n, ceFlags = 0\<rparr>"
    using slot by (simp_all add: sa_post_def ok)
  have "unat (cvTail ?cq) = Suc i" using i by (simp only: cq(3) unat_of_nat_u32)
  moreover have "cvHead ?cq \<noteq> cvTail ?cq" using cq(1,3) by simp
  moreover have "buffer (fill_bytes ?a ?bs ?m0) ?a n = ?bs"
    using buffer_fill_bytes [of n ?bs] n(2) len by simp
  ultimately have "sa_turn sys alloc ringFd fd n i (st, offset, ex) = Ok
      ((sq'\<lparr>svHead := svHead sq' + 1\<rparr>, ?cq\<lparr>cvHead := cvHead ?cq + 1\<rparr>, fill_bytes ?a ?bs ?m0, k'), offset + of_nat n, ex @ ?bs)"
    using prep run two sa_search_one [of i ?cq] slot(1,2) cq scast_of_nat_i32 [OF n(2)]
    by (simp add: sa_turn_def Let_def)
  moreover have "sa_drained ks kc (Suc i) (sq'\<lparr>svHead := svHead sq' + 1\<rparr>, ?cq\<lparr>cvHead := cvHead ?cq + 1\<rparr>, fill_bytes ?a ?bs ?m0, k')"
    using sq' ok(2) cq by (simp add: sa_drained_def sa_sq_ok_def sa_cq_ok_def)
  ultimately show ?thesis by blast
qed

lemma sa_reads_Ok:
  assumes sys: "sa_reads_file fd file sys" and st: "sa_drained ks kc 0 st"
    and len: "even (length file)" "0 < length file" "length file < 2 ^ 31"
  shows "\<exists>st'. sa_reads sys alloc ringFd fd file st = Ok st' \<and> sa_drained ks kc 2 st'"
proof -
  let ?n = "length file div 2"
  have "?n + ?n = length file" using len(1) by (metis dvd_mult_div_cancel mult_2)
  with len(2,3) have n: "0 < ?n" "?n < 2 ^ 31" "?n + ?n = length file" by linarith+
  from sa_turn_reads [OF sys st _ n(1,2), of 0 alloc ringFd "[]"] n(3) obtain st1 where
    t1: "sa_turn sys alloc ringFd fd ?n 0 (st, 0, []) = Ok (st1, of_nat ?n, take ?n file)" and st1: "sa_drained ks kc 1 st1"
    by auto
  have off: "unat (of_nat ?n :: u64) = ?n" using n(2) by (simp add: unat_of_nat)
  from sa_turn_reads [OF sys st1 _ n(1,2), of "of_nat ?n" alloc ringFd "take ?n file"] n(3) off obtain st2 where
    t2: "sa_turn sys alloc ringFd fd ?n 1 (st1, of_nat ?n, take ?n file) =
      Ok (st2, of_nat ?n + of_nat ?n, take ?n file @ take ?n (drop ?n file))" and st2: "sa_drained ks kc 2 st2"
    by (auto simp: numeral_2_eq_2)
  have "take ?n file @ take ?n (drop ?n file) = file"
    by (simp add: n(3) take_add [symmetric])
  with t1 t2 st2 show ?thesis by (simp add: sa_reads_def)
qed

section \<open>Properties\<close>

text \<open>
  C22: The program succeeds: with a kernel that sets up and maps two fresh rings of at least two
  entries and reads the file as documented, \<open>main\<close> reads back both halves of what it wrote, finds
  them equal to it and leaves both queues drained after two requests. No index is out of range
  and no check of the program fails on the way.
\<close>

theorem standalone_reads_content:
  assumes "sa_Setup ksetup 8 sa_zero_Params = (Ok ringFd, p)" "sa_MmapRing mmap ringFd p = Ok (sq, cq)"
    and "sa_drained ks kc 0 (view sq cq)" "sa_reads_file fd sa_content sys"
  shows "\<exists>st. sa_main (Inr fd) None None ksetup mmap view sys alloc = Ok st \<and> sa_drained ks kc 2 st"
proof -
  have "\<exists>st. sa_reads sys alloc ringFd fd sa_content (view sq cq) = Ok st \<and> sa_drained ks kc 2 st"
    by (rule sa_reads_Ok [OF assms(4,3)]) (simp_all add: sa_content_def)
  with assms(1,2) show ?thesis by (simp add: sa_main_def)
qed

text \<open>A kernel for rings of eight and sixteen entries that reads the program's file.\<close>

definition sa_sample_kernel :: "unit sa_mem kernel6" where
  "sa_sample_kernel trap a1 a2 a3 a4 a5 a6 = (\<lambda>(sq, cq, mem, k).
     ((sq\<lparr>svHead := svHead sq + 1\<rparr>, sa_post (seUser_data (sa_picked sq)) (length (read_at sa_content (sa_picked sq))) cq,
       fill_bytes (seAddr (sa_picked sq)) (read_at sa_content (sa_picked sq)) mem, k), 1, 0))"

definition sa_sample_view :: "sa_SqLayout \<Rightarrow> sa_CqLayout \<Rightarrow> unit sa_mem" where
  "sa_sample_view l c =
     (\<lparr>svSize = 608, svHead = 0, svTail = 0, svMask = 7, svFlags = 0, svDropped = 0,
       svEntries = replicate 8 \<lparr>seOpcode = 0, seFlags = 0, seIoprio = 0, seFd = 0, seOff = 0, seAddr = 0, seLen = 0,
         seRw_flags = 0, seUser_data = 0, seAnon0 = replicate 24 0\<rparr>,
       svArray = replicate 8 0\<rparr>,
      \<lparr>cvSize = 576, cvHead = 0, cvTail = 0, cvMask = 15, cvOverflow = 0,
       cvEntries = replicate 16 \<lparr>ceData = 0, ceRes = 0, ceFlags = 0\<rparr>\<rparr>, \<lambda>_. 0, ())"

theorem standalone_reads_content_witness:
  "\<exists>st. sa_main (Inr 3) None None (\<lambda>trap n p. (p\<lparr>spSq_entries := 8, spCq_entries := 16\<rparr>, 5, 0)) sample_mmap
       sa_sample_view sa_sample_kernel (\<lambda>i. 4096) = Ok st"
proof -
  let ?kernel = "\<lambda>trap n p. (p\<lparr>spSq_entries := 8, spCq_entries := 16\<rparr>, 5, 0)"
  have "sa_Setup ?kernel 8 sa_zero_Params = (Ok 5, sa_zero_Params\<lparr>spSq_entries := 8, spCq_entries := 16\<rparr>)"
    by (simp add: sa_Setup_def)
  moreover obtain sq cq where "sa_MmapRing sample_mmap 5 (sa_zero_Params\<lparr>spSq_entries := 8, spCq_entries := 16\<rparr>) = Ok (sq, cq)"
    by (simp add: sa_MmapRing_def mmap_shared_def sample_mmap_def Let_def)
  moreover have "sa_drained 3 4 0 (sa_sample_view sq cq)"
    by (simp add: sa_drained_def sa_sample_view_def sa_sq_ok_def sa_cq_ok_def mask_eq_exp_minus_1)
  moreover have "sa_reads_file 3 sa_content sa_sample_kernel"
    by (simp add: sa_reads_file_def sa_sample_kernel_def)
  ultimately show ?thesis using standalone_reads_content by blast
qed

text \<open>
  Unlike the library, the program reports every failed mapping: \<open>MmapRing\<close> returns the errno of
  the first of its three calls of \<open>mmap\<close> that fails, and when none does the slices of the rings have
  the lengths the kernel gave.
\<close>

lemma standalone_MmapRing_errors:
  "case find (\<lambda>e. e \<noteq> 0)
      [snd (mmap_shared sys (ucast (sa_sq_size p)) fd sa_SqRingOffset),
       snd (mmap_shared sys (ucast (spSq_entries p) * of_nat sa_sqeSize) fd sa_SqeRingOffset),
       snd (mmap_shared sys (ucast (sa_cq_size p)) fd sa_CqRingOffset)] of
     Some e \<Rightarrow> sa_MmapRing sys fd p = Err (Errno e)
   | None \<Rightarrow> \<exists>l c. sa_MmapRing sys fd p = Ok (l, c) \<and> shLen (sqlEntries l) = ucast (spSq_entries p)
       \<and> shLen (sqlArray l) = ucast (spSq_entries p) \<and> shLen (cqlEntries c) = ucast (spCq_entries p)"
  by (simp add: sa_MmapRing_def Let_def split: prod.split option.split)

end
