(* ===== verification/Bulk_Send.thy ===== *)
theory Bulk_Send
  imports Ring_Conn
begin

text \<open>
  \<open>examples/bulk-socket/main.go\<close>: a program that writes one message to many sockets with one
  submission. The encoder of events is another package and a parameter, as is the address at which
  the bytes of the message lie. The web server that collects the sockets and the clients are not
  modelled. The function returns what \<open>Enter\<close> returns, which in this version of the library is a
  count and an error.
\<close>

section \<open>The message on the wire\<close>

text \<open>The verb \<open>%x\<close> of a length: lower case digits without leading zeros.\<close>

definition hex_digit :: "nat \<Rightarrow> u8" where
  "hex_digit d = (if d < 10 then 48 + of_nat d else 87 + of_nat d)"

fun hex :: "nat \<Rightarrow> u8 list" where
  "hex n = (if n < 16 then [hex_digit n] else hex (n div 16) @ [hex_digit (n mod 16)])"

declare hex.simps [simp del]

definition CRLF :: "u8 list" where "CRLF = [13, 10]"

text \<open>One chunk: the length of the data, the data, each with a line end.\<close>

definition wire :: "u8 list \<Rightarrow> u8 list" where
  "wire sdata = hex (length sdata) @ CRLF @ sdata @ CRLF"

section \<open>Sending one message to many sockets\<close>

definition send_entry :: "i32 \<Rightarrow> u64 \<Rightarrow> u32 \<Rightarrow> SubmitEntry \<Rightarrow> gopanic option \<times> SubmitEntry" where
  "send_entry fd addr len e = (None, e\<lparr>sqeOpcode := WriteFixed, sqeFd := fd, sqeAddr := addr, sqeLen := len\<rparr>)"

fun send_loop :: "u64 \<Rightarrow> u32 \<Rightarrow> i32 list \<Rightarrow> Ring \<Rightarrow> (unit go \<times> Ring) option" where
  "send_loop addr len [] r = Some (Ok (), r)"
| "send_loop addr len (fd # fds) r =
     (case submit_entry (send_entry fd addr len) r of
        Some (Ok _, r) \<Rightarrow> send_loop addr len fds r
      | stopped \<Rightarrow> stopped)"

definition send_raw :: "'k ring_mem kernel6 \<Rightarrow> i32 list \<Rightarrow> slice \<Rightarrow> Ring \<Rightarrow> 'k \<Rightarrow> (goint go \<times> Ring \<times> 'k) option" where
  "send_raw sys fds rawData r k =
     (case firstAddr rawData of
        Err e \<Rightarrow> Some (Err e, r, k)
      | Panic p \<Rightarrow> Some (Panic p, r, k)
      | Ok addr \<Rightarrow>
          (case send_loop addr (of_nat (sliceLen rawData)) fds r of
             None \<Rightarrow> None
           | Some (Err e, r) \<Rightarrow> Some (Err e, r, k)
           | Some (Panic p, r) \<Rightarrow> Some (Panic p, r, k)
           | Some (Ok _, r) \<Rightarrow>
               Ring_Enter sys (of_nat (length fds)) (of_nat (length fds)) EnterGetEvents 0 r k))"

definition send ::
  "(u8 list \<Rightarrow> u8 list go) \<Rightarrow> (u8 list \<Rightarrow> u64) \<Rightarrow> 'k ring_mem kernel6 \<Rightarrow> i32 list \<Rightarrow> u8 list \<Rightarrow> Ring \<Rightarrow> 'k
   \<Rightarrow> (goint go \<times> Ring \<times> 'k) option" where
  "send encode addr sys fds data r k =
     (case encode data of
        Err e \<Rightarrow> Some (Err e, r, k)
      | Panic p \<Rightarrow> Some (Panic p, r, k)
      | Ok sdata \<Rightarrow>
          (let rawData = wire sdata
           in send_raw sys fds \<lparr>sliceData = addr rawData, sliceLen = length rawData\<rparr> r k))"

text \<open>
  The goroutine \<open>sendMessage\<close>: every second the message goes to the sockets collected by then, \<open>fds n\<close>
  in round \<open>n\<close>, on the ring as the others left it. Only an error of \<open>send\<close> ends it.
\<close>

partial_function (option) sendMessage ::
  "(u8 list \<Rightarrow> u8 list go) \<Rightarrow> (u8 list \<Rightarrow> u64) \<Rightarrow> 'k ring_mem kernel6 \<Rightarrow> (Ring \<Rightarrow> Ring) \<Rightarrow> (nat \<Rightarrow> i32 list) \<Rightarrow> u8 list \<Rightarrow> nat
   \<Rightarrow> Ring \<Rightarrow> 'k \<Rightarrow> (goint go \<times> Ring \<times> 'k) option" where
  "sendMessage encode addr sys env fds message n r k =
     (case send encode addr sys (fds n) message (env r) k of
        None \<Rightarrow> None
      | Some (Ok _, r, k) \<Rightarrow> sendMessage encode addr sys env fds message (Suc n) r k
      | stopped \<Rightarrow> stopped)"

text \<open>A new client: its descriptor joins the sockets. The client stops at an event that is not the message, and never reconnects.\<close>

definition hijacked :: "i32 \<Rightarrow> i32 list \<Rightarrow> i32 list" where "hijacked fd fds = fds @ [fd]"

definition on_event :: "u8 list \<Rightarrow> u8 list \<Rightarrow> unit go" where
  "on_event message data =
     (if message \<noteq> data then Err (ErrorString ''Client received invalid response'') else Ok ())"

definition NextBackOff :: i64 where "NextBackOff = - 1"

lemma sendMessage_ends_with_error:
  assumes "sendMessage encode addr sys env fds message n r k = Some (res, r', k')"
  shows "\<nexists>m. res = Ok m"
proof -
  have "\<nexists>m. fst (res, r', k') = Ok m"
    by (rule sendMessage.raw_induct [where P = "\<lambda>encode addr sys env fds message n r k out. \<nexists>m. fst out = Ok m", OF _ assms])
      (auto split: option.splits prod.splits go.splits)
  then show ?thesis by simp
qed

section \<open>Reading a chunk back\<close>

text \<open>What the receiver of a chunk does: the digits up to the line end give the length of the data.\<close>

definition digit_value :: "u8 \<Rightarrow> nat" where
  "digit_value b = (if unat b < 58 then unat b - 48 else unat b - 87)"

definition hex_value :: "u8 list \<Rightarrow> nat" where
  "hex_value = foldl (\<lambda>n b. 16 * n + digit_value b) 0"

definition read_chunk :: "u8 list \<Rightarrow> (u8 list \<times> u8 list) option" where
  "read_chunk bs =
     (let digits = takeWhile (\<lambda>b. b \<noteq> 13) bs; n = hex_value digits; rest = drop (length digits + 2) bs
      in if take 2 (drop (length digits) bs) = CRLF \<and> take 2 (drop n rest) = CRLF
         then Some (take n rest, drop (n + 2) rest) else None)"

lemma unat_hex_digit: "d < 16 \<Longrightarrow> unat (hex_digit d) = (if d < 10 then 48 + d else 87 + d)"
  by (auto simp: hex_digit_def unat_word_ariths unat_of_nat)

lemma digit_value_hex_digit: "d < 16 \<Longrightarrow> digit_value (hex_digit d) = d"
  by (simp add: digit_value_def unat_hex_digit)

lemma hex_digit_no_CR: "d < 16 \<Longrightarrow> hex_digit d \<noteq> 13"
  by (drule unat_hex_digit) (auto split: if_splits)

lemma hex_value_hex: "hex_value (hex n) = n"
  by (induction n rule: hex.induct) (subst hex.simps, auto simp: hex_value_def digit_value_hex_digit)

lemma hex_no_CR: "b \<in> set (hex n) \<Longrightarrow> b \<noteq> 13"
  by (induction n rule: hex.induct) (subst (asm) (2) hex.simps, auto simp: hex_digit_no_CR split: if_splits)

lemma read_chunk_wire: "read_chunk (wire sdata @ rest) = Some (sdata, rest)"
proof -
  have "takeWhile (\<lambda>b. b \<noteq> 13) (wire sdata @ rest) = hex (length sdata)"
    using hex_no_CR by (simp add: wire_def CRLF_def takeWhile_append2)
  then show ?thesis by (simp add: read_chunk_def hex_value_hex wire_def CRLF_def)
qed

section \<open>What the kernel reads of a bulk submission\<close>

lemma send_loop_pending:
  assumes "ringSq r = Some s" "pending_from_head k m e s" "0 < m" "m + length fds \<le> 2 ^ k"
  shows "\<exists>r' t. send_loop addr len fds r = Some (Ok (), r') \<and> ringSq r' = Some t
    \<and> pending_from_head k (m + length fds) e t"
  using assms
proof (induction fds arbitrary: r s m)
  case (Cons fd fds)
  let ?f = "snd (send_entry fd addr len (SubmitEntry_Reset (sqEntries s ! next_slot s)))"
  have "submit_entry (send_entry fd addr len) r = Some (Ok (), r\<lparr>ringSq := Some (prepared s ?f)\<rparr>)"
    using submit_entry_eq [of r s k "send_entry fd addr len" ?f] Cons.prems
    by (simp add: pending_from_head_def send_entry_def)
  moreover have "pending_from_head k (Suc m) e (prepared s ?f)"
    using pending_step [OF Cons.prems(2,3)] Cons.prems(4) by simp
  ultimately show ?case
    using Cons.IH [of "r\<lparr>ringSq := Some (prepared s ?f)\<rparr>" "prepared s ?f" "Suc m"] Cons.prems(4) by simp
qed simp

section \<open>Properties\<close>

text \<open>
  The bulk submission writes to the first socket only: on a drained queue with room for all of
  them, the entries the kernel reads are, for every socket of the list, the entry of the first.
\<close>

lemma send_writes_first_socket:
  assumes "ringSq r = Some s" "sq_wf k s" "sqEntered s = 0" "sqWrites s + 1 \<noteq> 0"
    and "unat (sqHead s) mod 2 ^ k = unat (sqTail s) mod 2 ^ k" "length (fd # fds) \<le> 2 ^ k"
  shows "\<exists>r' t. send_loop addr len (fd # fds) r = Some (Ok (), r') \<and> ringSq r' = Some t
    \<and> map sqeFd (kernel_batch t (length (fd # fds))) = replicate (length (fd # fds)) fd"
proof -
  let ?f = "snd (send_entry fd addr len (SubmitEntry_Reset (sqEntries s ! next_slot s)))"
  have "next_slot s = head_slot s"
    using assms(5) next_slot_mod [OF assms(2)] head_slot_mod [OF assms(2)] by simp
  then have pend: "pending_from_head k 1 ?f (prepared s ?f)" by (rule pending_first [OF assms(2-4)])
  have run: "submit_entry (send_entry fd addr len) r = Some (Ok (), r\<lparr>ringSq := Some (prepared s ?f)\<rparr>)"
    by (rule submit_entry_eq [OF assms(1-4)]) (simp add: send_entry_def)
  obtain r' t where "send_loop addr len fds (r\<lparr>ringSq := Some (prepared s ?f)\<rparr>) = Some (Ok (), r')"
      "ringSq r' = Some t" "pending_from_head k (1 + length fds) ?f t"
    using send_loop_pending [of "r\<lparr>ringSq := Some (prepared s ?f)\<rparr>" "prepared s ?f" k 1 ?f fds addr len] pend assms(6)
    by auto
  then show ?thesis
    using run pending_batch [of k "1 + length fds" ?f t] by (simp add: send_entry_def)
qed

lemma send_writes_first_socket_example:
  "\<exists>r' t. send_loop 512 16 [7, 8, 9] (sample_ring (sample_sq 2 0 0)) = Some (Ok (), r') \<and> ringSq r' = Some t
     \<and> map sqeFd (kernel_batch t 3) = [7, 7, 7]"
  using send_writes_first_socket [of "sample_ring (sample_sq 2 0 0)" "sample_sq 2 0 0" 2 7 "[8, 9]" 512 16]
  by (simp add: sample_ring_def sample_sq_def sq_wf_def numeral_3_eq_3)

end
