(* ===== verification/File_Data.thy ===== *)
theory File_Data
  imports Read_Writer Served
begin

text \<open>
  The data path of files over the ring: a kernel with files and the bytes of the process, and what
  \<open>Read\<close>, \<open>Write\<close>, \<open>ReadAt\<close>, \<open>WriteAt\<close> and \<open>Close\<close> of \<open>read_writer.go\<close> do to them. The completer of
  the ring runs between two calls (\<open>settle\<close>).
\<close>

section \<open>The other parties\<close>

text \<open>
  The completer between two calls: it takes the slots that were acknowledged, with nothing left
  over from before.
\<close>

definition settle :: "Ring \<Rightarrow> Ring" where
  "settle r =
     (case ringCq r of
        None \<Rightarrow> r
      | Some c \<Rightarrow> r\<lparr>ringC := (ringC r)\<lparr>cpSeen := []\<rparr>,
          ringCq := Some (snd (fold completer_on_seen (cpSeen (ringC r)) ({||}, c)))\<rparr>)"

text \<open>
  The kernel's side: files by descriptor and the bytes of the process. A read stores what the
  file has from the offset on, a write puts the bytes of the buffer at the offset; other entries
  succeed without an effect here.
\<close>

definition write_at :: "nat \<Rightarrow> u8 list \<Rightarrow> u8 list \<Rightarrow> u8 list" where
  "write_at off bs file = take off file @ replicate (off - length file) 0 @ bs @ drop (off + length bs) file"

type_synonym files = "i32 \<Rightarrow> u8 list"

definition exec_file :: "SubmitEntry \<Rightarrow> files \<times> bytes \<Rightarrow> (i32 \<times> u32) \<times> files \<times> bytes" where
  "exec_file e = (\<lambda>(files, mem).
     if sqeOpcode e = Read then
       let bs = take (unat (sqeLen e)) (drop (unat (sqeOffset e)) (files (sqeFd e)))
       in ((of_nat (length bs), 0), files, fill_bytes (sqeAddr e) bs mem)
     else if sqeOpcode e = Write then
       let bs = buffer mem (sqeAddr e) (unat (sqeLen e))
       in ((of_nat (length bs), 0), files(sqeFd e := write_at (unat (sqeOffset e)) bs (files (sqeFd e))), mem)
     else ((0, 0), files, mem))"

text \<open>A ring on which the next call can be made.\<close>

definition settled :: "nat \<Rightarrow> nat \<Rightarrow> Ring \<Rightarrow> bool" where
  "settled ks kc r \<longleftrightarrow> drained ks kc r \<and> cpSeen (ringC r) = [] \<and> 0 < cpBufSize (ringC r)"

section \<open>One call\<close>

lemma fio_find_posted:
  assumes "cq_drained k c"
  shows "fio_find (\<lambda>_. post u v c) 0 u =
    Some (Ok (cq_slot (cqHead c) c, \<lparr>cqeUserData = u, cqeRes = fst v, cqeFlags = snd v\<rparr>))"
  using post_entry [OF assms]
  by (subst fio_find.simps, subst fio_first.simps) (simp add: cq_slot_def Let_def)

lemma completer_on_seen_head:
  assumes "h = int (cq_slot (cqHead c) c)"
  shows "completer_on_seen h ({||}, c) = ({||}, c\<lparr>cqHead := cqHead c + 1\<rparr>)"
proof -
  have "drain {|h|} h 0 = ({||}, 1)"
    by (subst drain.simps, subst drain.simps) simp
  then show ?thesis using assms by (simp add: completer_on_seen_def cq_slot_def Let_def)
qed

text \<open>
  A call whose entry is prepared and executed returns the result and moves the position by it,
  and once the completer has run the ring is ready for the next call.
\<close>

lemma fio_wait_served:
  assumes sys: "executes sys exec" and exec: "exec e w = (v, w')" and res: "0 \<le> sint (fst v)"
    and sq: "ringSq (fioR i) = Some (prepared s e)" "sq_drained ks s"
    and cq: "ringCq (fioR i) = Some c" "cq_drained kc c"
    and comp: "cpSeen (ringC (fioR i)) = []" "0 < cpBufSize (ringC (fioR i))"
  shows "\<exists>r'. fio_getCqe sys (\<lambda>c _. c) (sqeUserData e) 1 1 i w =
      Some (Ok (scast (fst v)), i\<lparr>fioOffset := fioOffset i + scast (fst v), fioR := r'\<rparr>, w')
    \<and> settled ks kc (settle r')"
proof -
  let ?c = "post (sqeUserData e) v c" and ?x = "int (cq_slot (cqHead c) c)"
  define r1 where "r1 = (fioR i)\<lparr>ringSq := Some ((prepared s e)\<lparr>sqHead := sqHead s + 1\<rparr>), ringCq := Some ?c\<rparr>"
  define r2 where "r2 = r1\<lparr>ringC := (ringC r1)\<lparr>cpSeen := [?x]\<rparr>\<rparr>"
  have "Ring_Enter sys 1 1 EnterGetEvents 0 (fioR i) w = Some (Ok 1, r1, w')"
    unfolding r1_def by (rule enter_served [OF sys exec sq cq(1)])
  from fio_getCqe_found [OF this, of ?c "\<lambda>c _. c" "sqeUserData e"] fio_find_posted [OF cq(2)] comp res
  have "fio_getCqe sys (\<lambda>c _. c) (sqeUserData e) 1 1 i w =
      Some (Ok (scast (fst v)), i\<lparr>fioOffset := fioOffset i + scast (fst v), fioR := r2\<rparr>, w')"
    by (simp add: r2_def r1_def fio_hit_eq)
  moreover have "settled ks kc (settle r2)"
    using completer_on_seen_head [of ?x ?c] sq_drained_served [OF sq(2), of e] comp(2)
      cq_drained_served [OF cq(2), of "sqeUserData e" v] cq(2)
    by (simp add: settled_def settle_def drained_def r2_def r1_def cq_drained_def)
  ultimately show ?thesis by blast
qed

lemma settledE:
  assumes "settled ks kc r"
  obtains s c where "ringSq r = Some s" "sq_drained ks s" "ringCq r = Some c" "cq_drained kc c"
    "cpSeen (ringC r) = []" "0 < cpBufSize (ringC r)" "sq_wf ks s" "sqEntered s = 0" "sqWrites s + 1 \<noteq> 0"
  using assms that by (auto simp: settled_def drained_def sq_drained_def)

lemma sint_of_nat_i32: "n < 2 ^ 31 \<Longrightarrow> sint (of_nat n :: i32) = int n"
  by (simp add: signed_of_nat signed_take_bit_int_eq_self)

lemma fio_call_file:
  assumes sys: "executes sys exec_file" and ring: "settled ks kc (fioR i)" and b: "sliceLen b \<noteq> 0"
    and n: "n < 2 ^ 31"
    and exec: "\<And>e u. exec_file (e\<lparr>sqeOpcode := code, sqeUserData := u, sqeFd := fioFd i, sqeLen := of_nat (sliceLen b),
      sqeFlags := 0, sqeOffset := off, sqeAddr := sliceData b\<rparr>) w = ((of_nat n, 0), w')"
  shows "\<exists>r'. fio_call sys (\<lambda>c _. c) (fio_prepare (fill_fio code (fioFd i) b 0 off) (fioR i)) i w =
      Some (Ok (of_nat n), i\<lparr>fioOffset := fioOffset i + of_nat n, fioR := r'\<rparr>, w') \<and> settled ks kc (settle r')" (is ?call)
    and "\<exists>r'. fio_at sys (\<lambda>c _. c) (fill_fio code (fioFd i) b 0 off) i w =
      Some (Ok (of_nat n), i\<lparr>fioOffset := fioOffset i + of_nat n, fioR := r'\<rparr>, w') \<and> settled ks kc (settle r')" (is ?at)
proof -
  from ring obtain s c where r: "ringSq (fioR i) = Some s" "sq_drained ks s" "ringCq (fioR i) = Some c" "cq_drained kc c"
    "cpSeen (ringC (fioR i)) = []" "0 < cpBufSize (ringC (fioR i))" "sq_wf ks s" "sqEntered s = 0" "sqWrites s + 1 \<noteq> 0"
    by (rule settledE)
  let ?e = "fio_entry code b off i s" and ?i = "i\<lparr>fioR := fio_ring code b off i s\<rparr>"
  have e: "exec_file ?e w = ((of_nat n, 0), w')" "sqeUserData ?e = ringIdx (fioR i) + 1"
    using exec by (simp_all add: fio_entry_def fill_fio_ok [OF b])
  from fio_wait_served [OF sys e(1), of ?i s ks c kc] r n
  have "\<exists>r'. fio_getCqe sys (\<lambda>c _. c) (ringIdx (fioR i) + 1) 1 1 ?i w =
      Some (Ok (of_nat n), i\<lparr>fioOffset := fioOffset i + of_nat n, fioR := r'\<rparr>, w') \<and> settled ks kc (settle r')"
    using e(2) by (simp add: fio_ring_def sint_of_nat_i32 scast_of_nat_i32)
  then show ?call ?at
    by (simp_all only: fio_call_eq [OF r(1,7-9) b] fio_at_eq [OF r(1,7-9) b])
qed

text \<open>Reading: what the file has at the offset goes to the buffer.\<close>

lemma exec_file_read:
  assumes "sliceLen b < 2 ^ 32" "bs = take (sliceLen b) (drop (unat off) (files fd))"
  shows "exec_file (e\<lparr>sqeOpcode := Read, sqeUserData := u, sqeFd := fd, sqeLen := of_nat (sliceLen b),
      sqeFlags := 0, sqeOffset := off, sqeAddr := sliceData b\<rparr>) (files, mem) =
    ((of_nat (length bs), 0), files, fill_bytes (sliceData b) bs mem)"
proof -
  have "unat (of_nat (sliceLen b) :: u32) = sliceLen b" using assms(1) by simp
  then show ?thesis by (simp add: exec_file_def Let_def assms(2))
qed

lemma of_nat_0_iff_length:
  assumes "length bs < 2 ^ 31"
  shows "of_nat (length bs) = (0 :: goint) \<longleftrightarrow> bs = []"
proof -
  have "unat (of_nat (length bs) :: goint) = length bs" using assms by (simp add: unat_of_nat)
  then show ?thesis by (auto simp del: of_nat_0_eq_iff)
qed

lemma file_reads:
  assumes "executes sys exec_file" "settled ks kc (fioR i)" "0 < sliceLen b" "sliceLen b < 2 ^ 31"
    and "bs = take (sliceLen b) (drop (unat off) (files (fioFd i)))"
  defines "res \<equiv> if bs = [] then Err EOF else Ok (of_nat (length bs))"
  shows "off = fioOffset i \<Longrightarrow> \<exists>r'. fio_Read sys (\<lambda>c _. c) b i (files, mem) =
      Some (res, i\<lparr>fioOffset := fioOffset i + of_nat (length bs), fioR := r'\<rparr>, files, fill_bytes (sliceData b) bs mem)
    \<and> settled ks kc (settle r')"
    and "\<exists>r'. fio_ReadAt sys (\<lambda>c _. c) b off i (files, mem) =
      Some (res, i\<lparr>fioOffset := fioOffset i + of_nat (length bs), fioR := r'\<rparr>, files, fill_bytes (sliceData b) bs mem)
    \<and> settled ks kc (settle r')"
proof -
  have n: "length bs < 2 ^ 31" using assms(4,5) by simp
  have exec: "exec_file (e\<lparr>sqeOpcode := Read, sqeUserData := u, sqeFd := fioFd i, sqeLen := of_nat (sliceLen b),
      sqeFlags := 0, sqeOffset := off, sqeAddr := sliceData b\<rparr>) (files, mem) =
      ((of_nat (length bs), 0), files, fill_bytes (sliceData b) bs mem)" for e u
    using assms(4,5) by (intro exec_file_read) simp_all
  have b: "sliceLen b \<noteq> 0" using assms(3) by simp
  note call = fio_call_file [OF assms(1,2) b n exec]
  have eof: "eof_if_zero (Ok (of_nat (length bs))) = res"
    by (simp add: eof_if_zero_def res_def of_nat_0_iff_length [OF n] del: of_nat_0_eq_iff)
  show "\<exists>r'. fio_Read sys (\<lambda>c _. c) b i (files, mem) =
      Some (res, i\<lparr>fioOffset := fioOffset i + of_nat (length bs), fioR := r'\<rparr>, files, fill_bytes (sliceData b) bs mem)
    \<and> settled ks kc (settle r')" if "off = fioOffset i"
    using call(1) that eof by (auto simp: fio_Read_def fio_PrepareRead_def)
  show "\<exists>r'. fio_ReadAt sys (\<lambda>c _. c) b off i (files, mem) =
      Some (res, i\<lparr>fioOffset := fioOffset i + of_nat (length bs), fioR := r'\<rparr>, files, fill_bytes (sliceData b) bs mem)
    \<and> settled ks kc (settle r')"
    using call(2) eof by (auto simp: fio_ReadAt_def)
qed

text \<open>Writing: the bytes of the buffer go to the file at the offset.\<close>

lemma file_writes:
  fixes files :: files
  assumes "executes sys exec_file" "settled ks kc (fioR i)" "0 < sliceLen b" "sliceLen b < 2 ^ 31"
    and "bs = buffer mem (sliceData b) (sliceLen b)"
  defines "files' \<equiv> \<lambda>off :: u64. files(fioFd i := write_at (unat off) bs (files (fioFd i)))"
  shows "\<exists>r'. fio_Write sys (\<lambda>c _. c) b i (files, mem) =
      Some (Ok (of_nat (length bs)), i\<lparr>fioOffset := fioOffset i + of_nat (length bs), fioR := r'\<rparr>, files' (fioOffset i), mem)
    \<and> settled ks kc (settle r')"
    and "\<exists>r'. fio_WriteAt sys (\<lambda>c _. c) b off i (files, mem) =
      Some (Ok (of_nat (length bs)), i\<lparr>fioOffset := fioOffset i + of_nat (length bs), fioR := r'\<rparr>, files' off, mem)
    \<and> settled ks kc (settle r')"
proof -
  have exec: "exec_file (e\<lparr>sqeOpcode := Write, sqeUserData := u, sqeFd := fioFd i, sqeLen := of_nat (sliceLen b),
      sqeFlags := 0, sqeOffset := off, sqeAddr := sliceData b\<rparr>) (files, mem) =
      ((of_nat (length bs), 0), files' off, mem)" for e u off
  proof -
    have "unat (of_nat (sliceLen b) :: u32) = sliceLen b" using assms(4) by simp
    then show ?thesis by (simp add: exec_file_def Let_def assms(5) files'_def)
  qed
  have b: "sliceLen b \<noteq> 0" "length bs < 2 ^ 31" using assms(3-5) by (simp_all add: buffer_def)
  note call = fio_call_file [OF assms(1,2) b exec]
  show "\<exists>r'. fio_Write sys (\<lambda>c _. c) b i (files, mem) =
      Some (Ok (of_nat (length bs)), i\<lparr>fioOffset := fioOffset i + of_nat (length bs), fioR := r'\<rparr>, files' (fioOffset i), mem)
    \<and> settled ks kc (settle r')"
    using call(1) by (simp only: fio_Write_def fio_PrepareWrite_def)
  show "\<exists>r'. fio_WriteAt sys (\<lambda>c _. c) b off i (files, mem) =
      Some (Ok (of_nat (length bs)), i\<lparr>fioOffset := fioOffset i + of_nat (length bs), fioR := r'\<rparr>, files' off, mem)
    \<and> settled ks kc (settle r')"
    using call(2) by (simp only: fio_WriteAt_def)
qed

lemma fio_Close_file:
  assumes sys: "executes sys exec_file" and ring: "settled ks kc (fioR i)"
  shows "\<exists>i'. fio_Close sys (\<lambda>c _. c) i w = Some (Ok (), i', w) \<and> settled ks kc (settle (fioR i'))"
proof -
  from ring obtain s c where r: "ringSq (fioR i) = Some s" "sq_drained ks s" "ringCq (fioR i) = Some c" "cq_drained kc c"
    "cpSeen (ringC (fioR i)) = []" "0 < cpBufSize (ringC (fioR i))" "sq_wf ks s" "sqEntered s = 0" "sqWrites s + 1 \<noteq> 0"
    by (rule settledE)
  define e where "e = snd (fill_close (scast (fioFd i)) (ringIdx (fioR i) + 1) (SubmitEntry_Reset (sqEntries s ! next_slot s)))"
  let ?r = "(fioR i)\<lparr>ringIdx := ringIdx (fioR i) + 1, ringSq := Some (prepared s e)\<rparr>"
  have prep: "PrepareClose (scast (fioFd i)) (fioR i) = Some (Ok (sqeUserData e), ?r)"
    using prepare_eq [OF r(1,7,8) _ r(9), of "fill_close (scast (fioFd i))" None e]
    by (simp add: PrepareClose_def e_def fill_close_def)
  have "exec_file e w = ((0, 0), w)"
    by (cases w) (simp add: exec_file_def e_def fill_close_def)
  from fio_wait_served [OF sys this, of "i\<lparr>fioR := ?r\<rparr>" s ks c kc] r
  show ?thesis by (auto simp: fio_Close_def prep)
qed

section \<open>Properties\<close>

lemma read_write_at: "take (length bs) (drop off (write_at off bs file')) = bs"
  by (simp add: write_at_def)


lemma settled_sample: "settled 2 2 (sample_ring (sample_sq 2 6 2))"
  by (simp add: settled_def drained_def sq_drained_def cq_drained_def sample_ring_def sample_sq_def sq_wf_def cq_wf_def
      sample_cq_def mask_eq_exp_minus_1 newCompleter_def)


end
