(* ===== verification/Copy_File.thy ===== *)
theory Copy_File
  imports File_Data Ring_New
begin

text \<open>
  \<open>examples/cp/iouring.go\<close>: a program that copies a file through a reader and a writer on one ring.
  The flags, the number of arguments and the outcomes of opening the files are arguments. Between two calls the other goroutines of the ring run: \<open>env\<close> is
  what they make of it. \<open>examples/cp/stdio.go\<close>, the same program over the operating system's
  files, is the reference it is compared with.
\<close>

section \<open>The program\<close>

partial_function (option) cp_loop ::
  "'k ring_mem kernel6 \<Rightarrow> (CompletionQueue \<Rightarrow> nat \<Rightarrow> CompletionQueue) \<Rightarrow> (Ring \<Rightarrow> Ring) \<Rightarrow> slice \<Rightarrow> ringFIO \<Rightarrow> ringFIO \<Rightarrow> 'k
   \<Rightarrow> (unit go \<times> ringFIO \<times> ringFIO \<times> 'k) option" where
  "cp_loop sys obs env buf r w k =
     (case fio_Read sys obs buf r k of
        None \<Rightarrow> None
      | Some (Panic p, r, k) \<Rightarrow> Some (Panic p, r, w, k)
      | Some (Err e, r, k) \<Rightarrow> Some (if e = EOF then Ok () else Err e, r, w, k)
      | Some (Ok n, r, k) \<Rightarrow>
          if n = 0 then Some (Ok (), r, w, k)
          else if sliceLen buf < unat n then Some (Panic SliceBoundsOutOfRange, r, w, k)
          else
            (case fio_Write sys obs (buf\<lparr>sliceLen := unat n\<rparr>) (w\<lparr>fioR := env (fioR r)\<rparr>) k of
               None \<Rightarrow> None
             | Some (Panic p, w, k) \<Rightarrow> Some (Panic p, r, w, k)
             | Some (Err e, w, k) \<Rightarrow> Some (Err e, r, w, k)
             | Some (Ok _, w, k) \<Rightarrow> cp_loop sys obs env buf (r\<lparr>fioR := env (fioR w)\<rparr>) w k))"

text \<open>After the loop both ends are closed, the reader first.\<close>

definition cp ::
  "'k ring_mem kernel6 \<Rightarrow> (CompletionQueue \<Rightarrow> nat \<Rightarrow> CompletionQueue) \<Rightarrow> (Ring \<Rightarrow> Ring) \<Rightarrow> slice \<Rightarrow> ringFIO \<Rightarrow> ringFIO \<Rightarrow> 'k
   \<Rightarrow> (unit go \<times> ringFIO \<times> ringFIO \<times> 'k) option" where
  "cp sys obs env buf r w k =
     (case cp_loop sys obs env buf r w k of
        None \<Rightarrow> None
      | Some (Err e, r, w, k) \<Rightarrow> Some (Err e, r, w, k)
      | Some (Panic p, r, w, k) \<Rightarrow> Some (Panic p, r, w, k)
      | Some (Ok _, r, w, k) \<Rightarrow>
          (case fio_Close sys obs (r\<lparr>fioR := env (fioR r)\<rparr>) k of
             None \<Rightarrow> None
           | Some (Err e, r, k) \<Rightarrow> Some (Err e, r, w, k)
           | Some (Panic p, r, k) \<Rightarrow> Some (Panic p, r, w, k)
           | Some (Ok _, r, k) \<Rightarrow>
               (case fio_Close sys obs (w\<lparr>fioR := env (fioR r)\<rparr>) k of
                  None \<Rightarrow> None
                | Some (res, w, k) \<Rightarrow> Some (res, r, w, k))))"

text \<open>
  \<open>main\<close>: the ring, the arguments, the files and their readers. The kernel of the file registry and
  the address of its table are those of \<open>FileReadWriter\<close>; \<open>log.Fatal\<close> ends the program with the error.
\<close>

definition cp_main ::
  "setup_call \<Rightarrow> syscall6 \<Rightarrow> mapped \<Rightarrow> 'k ring_mem kernel6 \<Rightarrow> (CompletionQueue \<Rightarrow> nat \<Rightarrow> CompletionQueue) \<Rightarrow> (Ring \<Rightarrow> Ring)
   \<Rightarrow> 'k kernel6 \<Rightarrow> (goint list \<Rightarrow> u64) \<Rightarrow> nat \<Rightarrow> (u64 \<times> i64 go) go \<Rightarrow> (u64 \<times> i64 go) go \<Rightarrow> slice \<Rightarrow> 'k
   \<Rightarrow> (unit go \<times> 'k) option" where
  "cp_main ksetup mmap mapped sys obs env reg addr nargs src dst buf k =
     (case New ksetup mmap mapped 4096 (Some (zero_Params\<lparr>pFeatures := FeatNoDrop\<rparr>)) [] k of
        (Err e, k) \<Rightarrow> Some (Err e, k)
      | (Panic p, k) \<Rightarrow> Some (Panic p, k)
      | (Ok ring, k) \<Rightarrow>
          if nargs \<noteq> 2 then Some (Err (ErrorString ''expected src dst''), k)
          else
            (case (src, dst) of
               (Ok (srcFd, srcSeek), Ok (dstFd, dstSeek)) \<Rightarrow>
                 (case FileReadWriter reg addr srcSeek srcFd ring k of
                    ((Some r, Ok _), ring, k) \<Rightarrow>
                      (case FileReadWriter reg addr dstSeek dstFd ring k of
                         ((Some w, Ok _), ring, k) \<Rightarrow>
                           map_option (\<lambda>(res, _, _, k). (res, k))
                             (cp sys obs env buf (r\<lparr>fioR := ring\<rparr>) (w\<lparr>fioR := ring\<rparr>) k)
                       | ((_, res), ring, k) \<Rightarrow> Some (res, k))
                  | ((_, res), ring, k) \<Rightarrow> Some (res, k))
             | (Ok _, res) \<Rightarrow> Some (map_go (\<lambda>_. ()) res, k)
             | (res, _) \<Rightarrow> Some (map_go (\<lambda>_. ()) res, k)))"

text \<open>
  The program of \<open>stdio.go\<close>, with the calls \<open>Read\<close>, \<open>Write\<close> and \<open>Close\<close> of a file as arguments. An
  empty read without an error does not end its loop.
\<close>

record osFile =
  ofFd :: i32
  ofPos :: nat

partial_function (option) stdio_loop ::
  "(slice \<Rightarrow> osFile \<Rightarrow> 'k \<Rightarrow> nat go \<times> osFile \<times> 'k) \<Rightarrow> (slice \<Rightarrow> osFile \<Rightarrow> 'k \<Rightarrow> nat go \<times> osFile \<times> 'k) \<Rightarrow> slice
   \<Rightarrow> osFile \<Rightarrow> osFile \<Rightarrow> 'k \<Rightarrow> (unit go \<times> osFile \<times> osFile \<times> 'k) option" where
  "stdio_loop rd wr buf src dst k =
     (case rd buf src k of
        (Panic p, src, k) \<Rightarrow> Some (Panic p, src, dst, k)
      | (Err e, src, k) \<Rightarrow> Some (if e = EOF then Ok () else Err e, src, dst, k)
      | (Ok n, src, k) \<Rightarrow>
          if sliceLen buf < n then Some (Panic SliceBoundsOutOfRange, src, dst, k)
          else
            (case wr (buf\<lparr>sliceLen := n\<rparr>) dst k of
               (Panic p, dst, k) \<Rightarrow> Some (Panic p, src, dst, k)
             | (Err e, dst, k) \<Rightarrow> Some (Err e, src, dst, k)
             | (Ok _, dst, k) \<Rightarrow> stdio_loop rd wr buf src dst k))"

definition stdio_cp ::
  "(slice \<Rightarrow> osFile \<Rightarrow> 'k \<Rightarrow> nat go \<times> osFile \<times> 'k) \<Rightarrow> (slice \<Rightarrow> osFile \<Rightarrow> 'k \<Rightarrow> nat go \<times> osFile \<times> 'k)
   \<Rightarrow> (osFile \<Rightarrow> 'k \<Rightarrow> unit go \<times> 'k) \<Rightarrow> slice \<Rightarrow> osFile \<Rightarrow> osFile \<Rightarrow> 'k \<Rightarrow> (unit go \<times> osFile \<times> osFile \<times> 'k) option" where
  "stdio_cp rd wr cl buf src dst k =
     (case stdio_loop rd wr buf src dst k of
        None \<Rightarrow> None
      | Some (Ok _, src, dst, k) \<Rightarrow>
          (case cl src k of
             (Ok _, k) \<Rightarrow> (case cl dst k of (res, k) \<Rightarrow> Some (res, src, dst, k))
           | (res, k) \<Rightarrow> Some (res, src, dst, k))
      | Some (res, src, dst, k) \<Rightarrow> Some (res, src, dst, k))"

definition stdio_main ::
  "(slice \<Rightarrow> osFile \<Rightarrow> 'k \<Rightarrow> nat go \<times> osFile \<times> 'k) \<Rightarrow> (slice \<Rightarrow> osFile \<Rightarrow> 'k \<Rightarrow> nat go \<times> osFile \<times> 'k)
   \<Rightarrow> (osFile \<Rightarrow> 'k \<Rightarrow> unit go \<times> 'k) \<Rightarrow> nat \<Rightarrow> osFile go \<Rightarrow> osFile go \<Rightarrow> unit go \<Rightarrow> slice \<Rightarrow> 'k \<Rightarrow> (unit go \<times> 'k) option" where
  "stdio_main rd wr cl nargs src dst fadvise buf k =
     (if nargs \<noteq> 2 then Some (Err (ErrorString ''expected src dst''), k)
      else
        (case (src, dst, fadvise) of
           (Ok src, Ok dst, Ok _) \<Rightarrow> map_option (\<lambda>(res, _, _, k). (res, k)) (stdio_cp rd wr cl buf src dst k)
         | (Ok _, Ok _, res) \<Rightarrow> Some (res, k)
         | (Ok _, res, _) \<Rightarrow> Some (map_go (\<lambda>_. ()) res, k)
         | (res, _, _) \<Rightarrow> Some (map_go (\<lambda>_. ()) res, k)))"

section \<open>Files of the operating system\<close>

text \<open>The same files through the operating system: a read at the end is \<open>io.EOF\<close>, a write stores all it was given.\<close>

definition os_Read :: "slice \<Rightarrow> osFile \<Rightarrow> files \<times> bytes \<Rightarrow> nat go \<times> osFile \<times> files \<times> bytes" where
  "os_Read b f = (\<lambda>(files, mem).
     let bs = take (sliceLen b) (drop (ofPos f) (files (ofFd f)))
     in (if bs = [] \<and> sliceLen b \<noteq> 0 then Err EOF else Ok (length bs), f\<lparr>ofPos := ofPos f + length bs\<rparr>,
         files, fill_bytes (sliceData b) bs mem))"

definition os_Write :: "slice \<Rightarrow> osFile \<Rightarrow> files \<times> bytes \<Rightarrow> nat go \<times> osFile \<times> files \<times> bytes" where
  "os_Write b f = (\<lambda>(files, mem).
     let bs = buffer mem (sliceData b) (sliceLen b)
     in (Ok (length bs), f\<lparr>ofPos := ofPos f + length bs\<rparr>,
         files(ofFd f := write_at (ofPos f) bs (files (ofFd f))), mem))"

section \<open>The loop\<close>

lemma write_at_chunk:
  assumes "p \<le> length xs" "bs = take m (drop p xs)"
  shows "write_at p bs (take p xs) = take (p + length bs) xs"
proof -
  have "take (length bs) (drop p xs) = bs" by (simp add: assms(2) min_def)
  then show ?thesis using assms(1) by (simp add: write_at_def take_add)
qed

lemma cp_loop_copies:
  assumes sys: "executes sys exec_file" and buf: "0 < sliceLen buf" "sliceLen buf < 2 ^ 31"
    and fds: "fioFd r \<noteq> fioFd w" and size: "length file < 2 ^ 63"
    and ring: "settled ks kc (fioR r)" and src: "files (fioFd r) = file"
    and pos: "p \<le> length file" "fioOffset r = of_nat p" "fioOffset w = of_nat p" "files (fioFd w) = take p file"
  shows "\<exists>r' w' mem'. cp_loop sys (\<lambda>c _. c) settle buf r w (files, mem) = Some (Ok (), r', w', files(fioFd w := file), mem')
    \<and> settled ks kc (settle (fioR r'))"
  using fds ring src pos
proof (induction "length file - p" arbitrary: p r w files mem rule: less_induct)
  case less
  obtain bs where bs: "bs = take (sliceLen buf) (drop p file)" by blast
  let ?mem = "fill_bytes (sliceData buf) bs mem"
  have p: "unat (of_nat p :: u64) = p" using less.prems(4) size by (simp add: unat_of_nat)
  obtain rr where read: "fio_Read sys (\<lambda>c _. c) buf r (files, mem) =
      Some (if bs = [] then Err EOF else Ok (of_nat (length bs)),
        r\<lparr>fioOffset := fioOffset r + of_nat (length bs), fioR := rr\<rparr>, files, ?mem)" and rr: "settled ks kc (settle rr)"
    using file_reads(1) [OF sys less.prems(2) buf _ refl, of bs files mem] less.prems(3,5) p bs by auto
  show ?case
  proof (cases "bs = []")
    case True
    then have "p = length file" using less.prems(4) buf(1) bs by simp
    then have "files(fioFd w := file) = files" using less.prems(7) by auto
    with read rr True show ?thesis by (subst cp_loop.simps) simp
  next
    case False
    let ?n = "length bs" and ?b = "buf\<lparr>sliceLen := length bs\<rparr>"
    let ?r = "r\<lparr>fioOffset := fioOffset r + of_nat ?n, fioR := rr\<rparr>" and ?w = "w\<lparr>fioR := settle rr\<rparr>"
    have n: "0 < ?n" "?n \<le> sliceLen buf" "?n < 2 ^ 31" "p + ?n \<le> length file"
      using False less.prems(4) buf(2) bs by (auto simp: min_def)
    have left: "length file - (p + ?n) < length file - p" using n(1,4) by linarith
    have un: "unat (of_nat ?n :: u64) = ?n" using n(3) by (simp only: unat_of_nat) (simp add: take_bit_nat_eq_self)
    have nz: "of_nat ?n \<noteq> (0 :: u64)" using un n(1) by (auto simp del: of_nat_0_eq_iff)
    have mem: "buffer ?mem (sliceData buf) ?n = bs"
      using buffer_fill_bytes [of ?n bs] n(3) by simp
    have more: "write_at p bs (take p file) = take (p + ?n) file"
      using less.prems(4) bs by (rule write_at_chunk)
    obtain wr where wrote: "fio_Write sys (\<lambda>c _. c) ?b ?w (files, ?mem) =
        Some (Ok (of_nat ?n), ?w\<lparr>fioOffset := fioOffset w + of_nat ?n, fioR := wr\<rparr>,
          files(fioFd w := take (p + ?n) file), ?mem)" and wr: "settled ks kc (settle wr)"
      using file_writes(1) [OF sys, of ks kc ?w ?b bs ?mem files] rr n mem more less.prems(6,7) p by auto
    let ?r2 = "?r\<lparr>fioR := settle wr\<rparr>" and ?w2 = "?w\<lparr>fioOffset := fioOffset w + of_nat ?n, fioR := wr\<rparr>"
    have "\<exists>r' w' mem'. cp_loop sys (\<lambda>c _. c) settle buf ?r2 ?w2 (files(fioFd w := take (p + ?n) file), ?mem) =
        Some (Ok (), r', w', (files(fioFd w := take (p + ?n) file))(fioFd ?w2 := file), mem') \<and> settled ks kc (settle (fioR r'))"
      using left n(4) less.prems wr by (intro less.hyps [of "p + ?n"]) auto
    then show ?thesis
      using read wrote n(2) un nz False by (subst cp_loop.simps) simp
  qed
qed

lemma stdio_loop_copies:
  assumes buf: "0 < sliceLen buf" "sliceLen buf < 2 ^ 31" and fds: "ofFd src \<noteq> ofFd dst" and content: "files (ofFd src) = xs"
    and pos: "ofPos src \<le> length xs" "ofPos dst = ofPos src" "files (ofFd dst) = take (ofPos src) xs"
  shows "\<exists>src' dst' mem'. stdio_loop os_Read os_Write buf src dst (files, mem) = Some (Ok (), src', dst', files(ofFd dst := xs), mem')"
  using fds content pos
proof (induction "length xs - ofPos src" arbitrary: src dst files mem rule: less_induct)
  case less
  obtain bs where bs: "bs = take (sliceLen buf) (drop (ofPos src) xs)" by blast
  show ?case
  proof (cases "bs = []")
    case True
    then have "ofPos src = length xs" using less.prems(3) buf(1) bs by simp
    then have "files(ofFd dst := xs) = files" using less.prems(5) by auto
    with True bs less.prems(2) show ?thesis using buf(1) by (subst stdio_loop.simps) (simp add: os_Read_def)
  next
    case False
    let ?n = "length bs" and ?mem = "fill_bytes (sliceData buf) bs mem"
    have n: "0 < ?n" "?n \<le> sliceLen buf" "?n < 2 ^ 31" "ofPos src + ?n \<le> length xs"
      using False less.prems(3) buf(2) bs by (auto simp: min_def)
    let ?src = "src\<lparr>ofPos := ofPos src + ?n\<rparr>" and ?dst = "dst\<lparr>ofPos := ofPos src + ?n\<rparr>"
      and ?files = "files(ofFd dst := take (ofPos src + ?n) xs)"
    have mem: "buffer ?mem (sliceData buf) ?n = bs" using buffer_fill_bytes [of ?n bs] n(3) by simp
    have read: "os_Read buf src (files, mem) = (Ok ?n, ?src, files, ?mem)"
      using False less.prems(2) bs by (simp add: os_Read_def Let_def)
    have wrote: "os_Write (buf\<lparr>sliceLen := ?n\<rparr>) dst (files, ?mem) = (Ok ?n, ?dst, ?files, ?mem)"
      using mem write_at_chunk [OF less.prems(3) bs] less.prems(4,5) by (simp add: os_Write_def)
    have left: "length xs - ofPos ?src < length xs - ofPos src" using n(1,4) by (simp, linarith)
    have "\<exists>src' dst' mem'. stdio_loop os_Read os_Write buf ?src ?dst (?files, ?mem) =
        Some (Ok (), src', dst', ?files(ofFd ?dst := xs), mem')"
      using less.prems(1,2) n(4) by (intro less.hyps [OF left]) auto
    then show ?thesis using n(2) read wrote by (subst stdio_loop.simps) simp
  qed
qed

lemma cp_result:
  assumes "executes sys exec_file" "settled ks kc (fioR r)" "0 < sliceLen buf" "sliceLen buf < 2 ^ 31"
    and "fioFd r \<noteq> fioFd w" "fioOffset r = 0" "fioOffset w = 0"
    and "length (files (fioFd r)) < 2 ^ 63" "files (fioFd w) = []"
  shows "\<exists>r' w' mem'. cp sys (\<lambda>c _. c) settle buf r w (files, mem) =
      Some (Ok (), r', w', files(fioFd w := files (fioFd r)), mem') \<and> settled ks kc (settle (fioR w'))"
proof -
  obtain r1 w1 mem1 where loop: "cp_loop sys (\<lambda>c _. c) settle buf r w (files, mem) =
      Some (Ok (), r1, w1, files(fioFd w := files (fioFd r)), mem1)" and r1: "settled ks kc (settle (fioR r1))"
    using cp_loop_copies [OF assms(1,3,4,5,8,2), where files = files and p = 0 and mem = mem] assms(6,7,9) by auto
  let ?k = "(files(fioFd w := files (fioFd r)), mem1)"
  obtain r2 where "fio_Close sys (\<lambda>c _. c) (r1\<lparr>fioR := settle (fioR r1)\<rparr>) ?k = Some (Ok (), r2, ?k)"
      and r2: "settled ks kc (settle (fioR r2))"
    using fio_Close_file [OF assms(1), of ks kc "r1\<lparr>fioR := settle (fioR r1)\<rparr>" ?k] r1 by auto
  moreover obtain w2 where "fio_Close sys (\<lambda>c _. c) (w1\<lparr>fioR := settle (fioR r2)\<rparr>) ?k = Some (Ok (), w2, ?k)"
      and "settled ks kc (settle (fioR w2))"
    using fio_Close_file [OF assms(1), of ks kc "w1\<lparr>fioR := settle (fioR r2)\<rparr>" ?k] r2 by auto
  ultimately show ?thesis using loop by (simp add: cp_def)
qed

text \<open>A new ring is settled when the kernel starts both rings empty.\<close>

lemma New_settled:
  assumes "MmapRing mmap fd p' zero_SqLayout zero_CqLayout = (Ok (), l, c)"
    and "sq_geometry mapped ks p' l" "cq_geometry mapped kc p' c"
    and "mem32 mapped (lsHead l) = mem32 mapped (lsTail l)" "mem32 mapped (lcHead c) = mem32 mapped (lcTail c)"
  shows "settled ks kc (fresh_ring fd p' (view_sq mapped l) (view_cq mapped c))"
proof -
  have "sq_drained ks (view_sq mapped l)"
    using view_sq_wf [OF assms(1,2)] assms(4) by (simp add: sq_drained_def) (simp add: view_sq_def)
  moreover have "cq_drained kc (view_cq mapped c)"
    using view_cq_wf [OF assms(1,3)] assms(5) by (simp add: cq_drained_def) (simp add: view_cq_def)
  ultimately show ?thesis by (simp add: settled_def drained_def fresh_ring_def newCompleter_def)
qed



end
