(* ===== verification/Conn.thy ===== *)
theory Conn
  imports Ring_Conn
begin

text \<open>
  \<open>conn.go\<close>: listeners over a ring. The socket calls, the resolver and the file system are a
  record of functions; a call returns its result and the new state of the system. The channel
  \<open>newConn\<close> is the list of the connections in it, \<open>stop\<close> whether it was closed, the open file
  \<open>f\<close> its descriptor; \<open>connGet\<close> and \<open>connInfo.sqeIds\<close> are never used and left out.
\<close>

section \<open>Constants and addresses\<close>

definition POLLPRI :: i32 where "POLLPRI = 2"
definition POLLOUT :: i32 where "POLLOUT = 4"
definition POLLERR :: i32 where "POLLERR = 8"
definition POLLHUP :: i32 where "POLLHUP = 16"
definition POLLNVAL :: i32 where "POLLNVAL = 32"
definition SOReuseport :: goint where "SOReuseport = 15"
definition TCPFastopen :: goint where "TCPFastopen = 23"

definition AF_UNIX :: goint where "AF_UNIX = 1"
definition AF_INET :: goint where "AF_INET = 2"
definition AF_INET6 :: goint where "AF_INET6 = 10"
definition SOCK_STREAM :: goint where "SOCK_STREAM = 1"
definition SOCK_DGRAM :: goint where "SOCK_DGRAM = 2"
definition SOCK_NONBLOCK :: goint where "SOCK_NONBLOCK = 2048"
definition SOL_SOCKET :: goint where "SOL_SOCKET = 1"
definition SOL_TCP :: goint where "SOL_TCP = 6"
definition SOMAXCONN :: goint where "SOMAXCONN = 128"

text \<open>The implementations of \<open>syscall.Sockaddr\<close>: port and address bytes, or a path.\<close>

datatype Sockaddr = SockaddrInet4 goint "u8 list" | SockaddrInet6 goint "u8 list"
  | SockaddrUnix string | SockaddrOther

text \<open>A \<open>net.TCPAddr\<close> or \<open>net.UDPAddr\<close>, with what its two methods return.\<close>

record netAddr =
  naNetwork :: string
  naString :: string
  naIP :: "u8 list"
  naPort :: goint

record 'k netcalls =
  nSocket :: "goint \<Rightarrow> goint \<Rightarrow> goint \<Rightarrow> 'k \<Rightarrow> (goint \<times> goerror option) \<times> 'k"
  nResolveTCP :: "string \<Rightarrow> string \<Rightarrow> goerror + netAddr"
  nResolveUDP :: "string \<Rightarrow> string \<Rightarrow> goerror + netAddr"
  nSetsockopt :: "goint \<Rightarrow> goint \<Rightarrow> goint \<Rightarrow> goint \<Rightarrow> 'k \<Rightarrow> goerror option \<times> 'k"
  nBind :: "goint \<Rightarrow> Sockaddr \<Rightarrow> 'k \<Rightarrow> goerror option \<times> 'k"
  nListen :: "goint \<Rightarrow> goint \<Rightarrow> 'k \<Rightarrow> goerror option \<times> 'k"
  nClose :: "goint \<Rightarrow> 'k \<Rightarrow> goerror option \<times> 'k"
  nReadFile :: "string \<Rightarrow> goerror + string"

section \<open>Numbers as text\<close>

text \<open>The verb \<open>%d\<close> on an integer, and \<open>strconv.Atoi\<close> with its two errors.\<close>

definition digit :: "nat \<Rightarrow> char" where "digit n = char_of (48 + n)"

fun dec :: "nat \<Rightarrow> string" where
  "dec n = (if n < 10 then [digit n] else dec (n div 10) @ [digit (n mod 10)])"

declare dec.simps [simp del]

definition dec_int :: "goint \<Rightarrow> string" where
  "dec_int n = (if sint n < 0 then ''-'' @ dec (nat (- sint n)) else dec (nat (sint n)))"

definition NumError :: "string \<Rightarrow> string \<Rightarrow> goerror" where
  "NumError num err = Wrapped (ErrorString err) num"

fun parse_uint :: "string \<Rightarrow> string \<Rightarrow> nat \<Rightarrow> nat go" where
  "parse_uint num [] n = Ok n"
| "parse_uint num (ch # cs) n =
     (if of_char ch < (48 :: nat) \<or> 57 < (of_char ch :: nat) then Err (NumError num ''invalid syntax'')
      else let n = n * 10 + (of_char ch - 48)
           in if 2 ^ 64 \<le> n then Err (NumError num ''value out of range'') else parse_uint num cs n)"

definition Atoi :: "string \<Rightarrow> int go" where
  "Atoi s =
     (let (neg, ds) =
        (case s of [] \<Rightarrow> (False, [])
         | ch # cs \<Rightarrow> if ch = CHR ''-'' then (True, cs) else if ch = CHR ''+'' then (False, cs) else (False, s))
      in if ds = [] then Err (NumError s ''invalid syntax'')
         else case parse_uint s ds 0 of
                Err e \<Rightarrow> Err e
              | Panic p \<Rightarrow> Panic p
              | Ok n \<Rightarrow>
                  if \<not> neg \<and> 2 ^ 63 \<le> n \<or> neg \<and> 2 ^ 63 < n then Err (NumError s ''value out of range'')
                  else Ok (if neg then - int n else int n))"

definition FastOpenAllowed :: "'k netcalls \<Rightarrow> unit go" where
  "FastOpenAllowed N =
     (case nReadFile N ''/proc/sys/net/ipv4/tcp_fack'' of
        Inl e \<Rightarrow> Err e
      | Inr b \<Rightarrow>
          (case Atoi (filter (\<lambda>ch. ch \<noteq> CHR 0x0A) b) of
             Err e \<Rightarrow> Err e
           | Panic p \<Rightarrow> Panic p
           | Ok allowed \<Rightarrow>
               if allowed \<noteq> 3 then Err (ErrorString ''set /proc/sys/net/ipv4/tcp_fastopen to 3'') else Ok ()))"

section \<open>Listeners\<close>

record connInfo =
  ciFd :: goint
  ciId :: u64

definition zero_connInfo :: connInfo where "zero_connInfo = \<lparr>ciFd = 0, ciId = 0\<rparr>"

record ringListener =
  lDebug :: bool
  lR :: Ring
  lF :: "goint option"
  lA :: addr
  lStopped :: bool
  lErrHandler :: bool
  lErrs :: "goerror list"
  lNewConn :: "ringConn list"

definition newConn_cap :: nat where "newConn_cap = 1024"

text \<open>\<open>Fd\<close> of a nil file and of a closed one is -1.\<close>

definition listener_Fd :: "ringListener \<Rightarrow> goint" where
  "listener_Fd l = (case lF l of None \<Rightarrow> - 1 | Some fd \<Rightarrow> fd)"

definition listener_Addr :: "ringListener \<Rightarrow> addr" where "listener_Addr l = lA l"

text \<open>\<open>None\<close> blocks.\<close>

definition Accept :: "ringListener \<Rightarrow> (ringConn go \<times> ringListener) option" where
  "Accept l = (case lNewConn l of [] \<Rightarrow> None | c # cs \<Rightarrow> Some (Ok c, l\<lparr>lNewConn := cs\<rparr>))"

definition listener_Close :: "'k netcalls \<Rightarrow> ringListener \<Rightarrow> 'k \<Rightarrow> unit go \<times> ringListener \<times> 'k" where
  "listener_Close N l k =
     (if lStopped l then (Panic (PanicMessage ''close of closed channel''), l, k)
      else
        let l = l\<lparr>lStopped := True\<rparr>
        in case lF l of
             None \<Rightarrow> (Err (ErrorString ''invalid argument''), l, k)
           | Some fd \<Rightarrow>
               (case nClose N fd k of
                  (None, k) \<Rightarrow> (Ok (), l\<lparr>lF := Some (- 1)\<rparr>, k)
                | (Some e, k) \<Rightarrow> (Err e, l\<lparr>lF := Some (- 1)\<rparr>, k)))"

section \<open>Accepting a connection\<close>

text \<open>
  The remote address: \<open>%s\<close> on an array of bytes prints the bytes themselves. \<open>Accept4\<close> is a
  parameter; its failure is the text of the error, its \<open>None\<close> a call that blocks.
\<close>

definition remote_addr :: "Sockaddr \<Rightarrow> string" where
  "remote_addr sa =
     (case sa of
        SockaddrInet4 port bs \<Rightarrow> map (char_of \<circ> unat) bs @ '':'' @ dec_int port
      | SockaddrInet6 port bs \<Rightarrow> map (char_of \<circ> unat) bs @ '':'' @ dec_int port
      | SockaddrUnix name \<Rightarrow> name
      | SockaddrOther \<Rightarrow> [])"

type_synonym 'k accept4 = "goint \<Rightarrow> goint \<Rightarrow> 'k \<Rightarrow> ((string + goint \<times> Sockaddr) \<times> 'k) option"

definition accepted_conn :: "goint \<Rightarrow> Sockaddr \<Rightarrow> ringListener \<Rightarrow> ringConn" where
  "accepted_conn newFd sa l =
     \<lparr>rcFd = newFd, rcLaddr = lA l, rcRaddr = \<lparr>addrNet = addrNet (lA l), addrS = remote_addr sa\<rparr>,
      rcR = lR l, rcOffset = 0, rcStop = 0, rcPollReady = 1, rcDeadline = 0, rcReadDeadline = 0,
      rcWriteDeadline = 0\<rparr>"

definition send_newConn :: "ringConn \<Rightarrow> ringListener \<Rightarrow> ringListener option" where
  "send_newConn c l = (if length (lNewConn l) < newConn_cap then Some (l\<lparr>lNewConn := lNewConn l @ [c]\<rparr>) else None)"

definition onListen ::
  "'k accept4 \<Rightarrow> connInfo \<Rightarrow> ringListener \<Rightarrow> 'k \<Rightarrow> (unit go \<times> ringListener \<times> 'k) option" where
  "onListen accept4 cInfo l k =
     (case accept4 (ciFd cInfo) SOCK_NONBLOCK k of
        None \<Rightarrow> None
      | Some (Inl text, k) \<Rightarrow> Some (Panic (PanicMessage text), l, k)
      | Some (Inr (newFd, sa), k) \<Rightarrow>
          (case submit_entry (poll_entry PollAdd newFd POLLIN (ciId zero_connInfo)) (lR l) of
             None \<Rightarrow> None
           | Some (Panic p, r) \<Rightarrow> Some (Panic p, l\<lparr>lR := r\<rparr>, k)
           | Some (_, r) \<Rightarrow>
               (case submit_entry (poll_entry PollAdd (ciFd cInfo) POLLIN (ciFd cInfo)) r of
                  None \<Rightarrow> None
                | Some (Panic p, r) \<Rightarrow> Some (Panic p, l\<lparr>lR := r\<rparr>, k)
                | Some (_, r) \<Rightarrow>
                    (let l = l\<lparr>lR := r\<rparr>
                     in case send_newConn (accepted_conn newFd sa l) l of
                          None \<Rightarrow> None
                        | Some l \<Rightarrow> Some (Ok (), l, k)))))"

section \<open>Walking the completions\<close>

text \<open>One loop of \<open>walkCq\<close> over \<open>i \<le> lim\<close>: the first entry whose user data is watched.\<close>

function walk_loop ::
  "(u64 \<rightharpoonup> connInfo) \<Rightarrow> CompletionEntry list \<Rightarrow> nat \<Rightarrow> nat \<Rightarrow> u32 \<Rightarrow> bool \<Rightarrow> scan_result" where
  "walk_loop conns es lim i seenIdx seenEnd =
     (if lim < i then Exhausted
      else if length es \<le> i then OutOfRange
      else
        let cqe = es ! i;
            (seenIdx, seenEnd) = (if cqe_seen cqe \<and> \<not> seenEnd then (of_nat i, seenEnd) else (seenIdx, True))
        in case conns (cqeUserData cqe) of
             None \<Rightarrow> walk_loop conns es lim (Suc i) seenIdx seenEnd
           | Some cInfo \<Rightarrow> Found i seenIdx)"
  by pat_completeness auto
termination
  by (relation "measure (\<lambda>(conns, es, lim, i, seenIdx, seenEnd). Suc lim - i)") auto

declare walk_loop.simps [simp del]

definition walk_hit :: "nat \<Rightarrow> u32 \<Rightarrow> CompletionQueue \<Rightarrow> CompletionQueue" where
  "walk_hit i seenIdx c =
     (let e = cqEntries c ! i;
          c = c\<lparr>cqEntries := (cqEntries c)[i := e\<lparr>cqeFlags := cqeFlags e OR CqSeenFlag\<rparr>]\<rparr>;
          head = cqHead c
      in if head < seenIdx then c\<lparr>cqHead := seenIdx\<rparr> else c)"

definition walk_search :: "(u64 \<rightharpoonup> connInfo) \<Rightarrow> CompletionQueue \<Rightarrow> scan_result" where
  "walk_search conns c =
     (let head = cqHead c; tail = cqTail c; msk = cqMask c; seenIdx = head AND msk
      in case walk_loop conns (cqEntries c) (unat (tail AND msk)) (unat seenIdx) seenIdx False of
           Exhausted \<Rightarrow> walk_loop conns (cqEntries c) (unat (tail AND msk)) 0 0 False
         | res \<Rightarrow> res)"

text \<open>The debugging output slices both rings to nine entries.\<close>

definition walk_debug :: "ringListener \<Rightarrow> CompletionQueue \<Rightarrow> unit go" where
  "walk_debug l c =
     (case ringSq (lR l) of
        None \<Rightarrow> Panic NilDereference
      | Some s \<Rightarrow>
          if length (sqEntries s) < 9 \<or> length (cqEntries c) < 9 then Panic SliceBoundsOutOfRange else Ok ())"

definition walkCq ::
  "'k accept4 \<Rightarrow> (u64 \<rightharpoonup> connInfo) \<Rightarrow> ringListener \<Rightarrow> 'k \<Rightarrow> (unit go \<times> ringListener \<times> 'k) option" where
  "walkCq accept4 conns l k =
     (case ringCq (lR l) of
        None \<Rightarrow> Some (Panic NilDereference, l, k)
      | Some c \<Rightarrow>
          if cqHead c AND cqMask c = cqTail c AND cqMask c then Some (Ok (), l, k)
          else
            case (if lDebug l then walk_debug l c else Ok ()) of
              Panic p \<Rightarrow> Some (Panic p, l, k)
            | _ \<Rightarrow>
                (case walk_search conns c of
                   OutOfRange \<Rightarrow> Some (Panic IndexOutOfRange, l, k)
                 | Exhausted \<Rightarrow> Some (Ok (), l, k)
                 | Found i seenIdx \<Rightarrow>
                     (case conns (cqeUserData (cqEntries c ! i)) of
                        None \<Rightarrow> Some (Ok (), l, k)
                      | Some cInfo \<Rightarrow>
                          onListen accept4 cInfo (l\<lparr>lR := (lR l)\<lparr>ringCq := Some (walk_hit i seenIdx c)\<rparr>\<rparr>) k)))"

section \<open>The goroutine\<close>

text \<open>What \<open>run\<close> does before its loop, and the default case of its \<open>select\<close>.\<close>

definition listener_start :: "ringListener \<Rightarrow> (unit go \<times> (u64 \<rightharpoonup> connInfo) \<times> ringListener) option" where
  "listener_start l =
     (let (uid, r) = Ring_ID (lR l); fd = listener_Fd l
      in case submit_entry (poll_entry PollAdd fd POLLIN uid) r of
           None \<Rightarrow> None
         | Some (res, r) \<Rightarrow> Some (res, [uid \<mapsto> \<lparr>ciFd = fd, ciId = uid\<rparr>], l\<lparr>lR := r\<rparr>))"

definition listener_turn ::
  "'k ring_mem kernel6 \<Rightarrow> 'k accept4 \<Rightarrow> (u64 \<rightharpoonup> connInfo) \<Rightarrow> ringListener \<Rightarrow> 'k
   \<Rightarrow> (unit go \<times> ringListener \<times> 'k) option" where
  "listener_turn sys accept4 conns l k =
     (case Ring_Enter sys 1024 1 EnterGetEvents 0 (lR l) k of
        None \<Rightarrow> None
      | Some (Panic p, r, k) \<Rightarrow> Some (Panic p, l\<lparr>lR := r\<rparr>, k)
      | Some (Err e, r, k) \<Rightarrow>
          Some (Ok (), l\<lparr>lR := r, lErrs := (if lErrHandler l then lErrs l @ [e] else lErrs l)\<rparr>, k)
      | Some (Ok _, r, k) \<Rightarrow> walkCq accept4 conns (l\<lparr>lR := r\<rparr>) k)"

text \<open>
  The listener with its users: \<open>Accept\<close> takes connections out, \<open>Close\<close> closes the channel, and
  the kernel and the other users of the ring change its queues and counter.
\<close>

datatype lis_pc = LisStart | LisLoop | LisReturned | LisPanicked gopanic

record 'k lis_sys =
  lyPc :: lis_pc
  lyConns :: "u64 \<rightharpoonup> connInfo"
  lyL :: ringListener
  lyK :: 'k

definition lis_after :: "unit go \<Rightarrow> lis_pc" where
  "lis_after res = (case res of Panic p \<Rightarrow> LisPanicked p | _ \<Rightarrow> LisLoop)"

inductive lis_step :: "'k ring_mem kernel6 \<Rightarrow> 'k accept4 \<Rightarrow> 'k netcalls \<Rightarrow> 'k lis_sys \<Rightarrow> 'k lis_sys \<Rightarrow> bool"
  for sys :: "'k ring_mem kernel6" and accept4 :: "'k accept4" and N :: "'k netcalls" where
  lis_start:
    "lyPc s = LisStart \<Longrightarrow> listener_start (lyL s) = Some (res, conns, l) \<Longrightarrow>
     lis_step sys accept4 N s (s\<lparr>lyPc := lis_after res, lyConns := conns, lyL := l\<rparr>)"
| lis_return: "lyPc s = LisLoop \<Longrightarrow> lStopped (lyL s) \<Longrightarrow> lis_step sys accept4 N s (s\<lparr>lyPc := LisReturned\<rparr>)"
| lis_turn:
    "lyPc s = LisLoop \<Longrightarrow> \<not> lStopped (lyL s) \<Longrightarrow>
     listener_turn sys accept4 (lyConns s) (lyL s) (lyK s) = Some (res, l, k) \<Longrightarrow>
     lis_step sys accept4 N s (s\<lparr>lyPc := lis_after res, lyL := l, lyK := k\<rparr>)"
| lis_accept: "Accept (lyL s) = Some (c, l) \<Longrightarrow> lis_step sys accept4 N s (s\<lparr>lyL := l\<rparr>)"
| lis_close:
    "listener_Close N (lyL s) (lyK s) = (res, l, k) \<Longrightarrow> lis_step sys accept4 N s (s\<lparr>lyL := l, lyK := k\<rparr>)"
| lis_others: "lis_step sys accept4 N s (s\<lparr>lyL := (lyL s)\<lparr>lR := r\<rparr>, lyK := k\<rparr>)"

definition lis_init :: "'k lis_sys \<Rightarrow> bool" where
  "lis_init s \<longleftrightarrow> lyPc s = LisStart \<and> lyConns s = Map.empty \<and> \<not> lStopped (lyL s) \<and> lNewConn (lyL s) = []"

section \<open>Opening a listener\<close>

text \<open>\<open>copy\<close> into a zeroed array of \<open>n\<close> bytes.\<close>

definition copy_into :: "nat \<Rightarrow> u8 list \<Rightarrow> u8 list" where
  "copy_into n src = take n src @ replicate (n - length src) 0"

definition inet_socket ::
  "'k netcalls \<Rightarrow> goint \<Rightarrow> goint \<Rightarrow> goerror + netAddr \<Rightarrow> 'k \<Rightarrow> (goint \<times> netAddr) go \<times> 'k" where
  "inet_socket N domain typ resolved k =
     (case nSocket N domain typ 0 k of
        ((fd, Some e), k) \<Rightarrow> (Err (ErrorString ''could not open socket''), k)
      | ((fd, None), k) \<Rightarrow>
          (case resolved of
             Inl e \<Rightarrow> (Err (ErrorString ''could not open socket''), k)
           | Inr netAddr \<Rightarrow> (Ok (fd, netAddr), k)))"

definition addr_of :: "netAddr \<Rightarrow> addr" where
  "addr_of a = \<lparr>addrNet = naNetwork a, addrS = naString a\<rparr>"

text \<open>The switch on the network: the descriptor, the address to bind and the listener's address.\<close>

definition listener_socket ::
  "'k netcalls \<Rightarrow> string \<Rightarrow> string \<Rightarrow> 'k \<Rightarrow> (goint \<times> Sockaddr \<times> addr) go \<times> 'k" where
  "listener_socket N network address k =
     (let a = \<lparr>addrNet = network, addrS = []\<rparr>
      in if network = ''tcp'' \<or> network = ''tcp4'' then
           case inet_socket N AF_INET SOCK_STREAM (nResolveTCP N network address) k of
             (Ok (fd, n), k) \<Rightarrow> (Ok (fd, SockaddrInet4 (naPort n) (copy_into 4 (naIP n)), addr_of n), k)
           | (Err e, k) \<Rightarrow> (Err e, k) | (Panic p, k) \<Rightarrow> (Panic p, k)
         else if network = ''tcp6'' then
           case inet_socket N AF_INET6 SOCK_STREAM (nResolveTCP N network address) k of
             (Ok (fd, n), k) \<Rightarrow> (Ok (fd, SockaddrInet6 (naPort n) (copy_into 16 (naIP n)), addr_of n), k)
           | (Err e, k) \<Rightarrow> (Err e, k) | (Panic p, k) \<Rightarrow> (Panic p, k)
         else if network = ''unix'' then
           case nSocket N AF_UNIX SOCK_STREAM 0 k of
             ((fd, None), k) \<Rightarrow> (Ok (fd, SockaddrUnix address, a), k)
           | ((fd, Some e), k) \<Rightarrow> (Err e, snd (nClose N fd k))
         else if network = ''udp'' \<or> network = ''udp4'' then
           case inet_socket N AF_INET SOCK_DGRAM (nResolveUDP N network address) k of
             (Ok (fd, n), k) \<Rightarrow> (Ok (fd, SockaddrInet4 (naPort n) (copy_into 4 (naIP n)), a), k)
           | (Err e, k) \<Rightarrow> (Err e, k) | (Panic p, k) \<Rightarrow> (Panic p, k)
         else if network = ''udp6'' then
           case inet_socket N AF_INET SOCK_DGRAM (nResolveUDP N network address) k of
             (Ok (fd, n), k) \<Rightarrow> (Ok (fd, SockaddrInet6 (naPort n) (copy_into 16 (naIP n)), addr_of n), k)
           | (Err e, k) \<Rightarrow> (Err e, k) | (Panic p, k) \<Rightarrow> (Panic p, k)
         else (Err (ErrorString (''unknown network family: '' @ network)), k))"

fun set_sockopts :: "'k netcalls \<Rightarrow> goint \<Rightarrow> goint list \<Rightarrow> 'k \<Rightarrow> unit go \<times> 'k" where
  "set_sockopts N fd [] k = (Ok (), k)"
| "set_sockopts N fd (opt # opts) k =
     (if opt = SOReuseport then
        case nSetsockopt N fd SOL_SOCKET opt 1 k of
          (Some e, k) \<Rightarrow> (Err e, snd (nClose N fd k))
        | (None, k) \<Rightarrow> set_sockopts N fd opts k
      else if opt = TCPFastopen then
        case FastOpenAllowed N of
          Err e \<Rightarrow> (Err e, k)
        | Panic p \<Rightarrow> (Panic p, k)
        | Ok _ \<Rightarrow>
            (case nSetsockopt N fd SOL_TCP opt 1 k of
               (Some e, k) \<Rightarrow> (Err e, snd (nClose N fd k))
             | (None, k) \<Rightarrow> set_sockopts N fd opts k)
      else set_sockopts N fd opts k)"

definition NewFile :: "goint \<Rightarrow> goint option" where
  "NewFile fd = (if sint fd < 0 then None else Some fd)"

definition bind_listen :: "'k netcalls \<Rightarrow> goint \<Rightarrow> Sockaddr \<Rightarrow> 'k \<Rightarrow> unit go \<times> 'k" where
  "bind_listen N fd sa k =
     (case nBind N fd sa k of
        (Some e, k) \<Rightarrow> (Err e, snd (nClose N fd k))
      | (None, k) \<Rightarrow>
          (case nListen N fd SOMAXCONN k of
             (Some e, k) \<Rightarrow> (Err e, snd (nClose N fd k))
           | (None, k) \<Rightarrow> (Ok (), k)))"

definition SockoptListener ::
  "'k netcalls \<Rightarrow> string \<Rightarrow> string \<Rightarrow> bool \<Rightarrow> goint list \<Rightarrow> Ring \<Rightarrow> 'k \<Rightarrow> ringListener go \<times> 'k" where
  "SockoptListener N network address errHandler sockopts r k =
     (case listener_socket N network address k of
        (Err e, k) \<Rightarrow> (Err e, k)
      | (Panic p, k) \<Rightarrow> (Panic p, k)
      | (Ok (fd, sa, a), k) \<Rightarrow>
          (case set_sockopts N fd sockopts k of
             (Err e, k) \<Rightarrow> (Err e, k)
           | (Panic p, k) \<Rightarrow> (Panic p, k)
           | (Ok _, k) \<Rightarrow>
               (case bind_listen N fd sa k of
                  (Err e, k) \<Rightarrow> (Err e, k)
                | (Panic p, k) \<Rightarrow> (Panic p, k)
                | (Ok _, k) \<Rightarrow>
                    (Ok \<lparr>lDebug = ringDebug r, lR = r, lF = NewFile fd, lA = a, lStopped = False,
                         lErrHandler = errHandler, lErrs = [], lNewConn = []\<rparr>, k))))"

section \<open>The search of the completions\<close>

text \<open>
  The slots in the order \<open>walkCq\<close> visits them, and the head it stores: the last slot of the
  leading run of seen entries.
\<close>

definition walk_order :: "CompletionQueue \<Rightarrow> nat list" where
  "walk_order c =
     [unat (cqHead c AND cqMask c) ..< Suc (unat (cqTail c AND cqMask c))]
     @ [0 ..< Suc (unat (cqTail c AND cqMask c))]"

abbreviation watched :: "(u64 \<rightharpoonup> connInfo) \<Rightarrow> CompletionQueue \<Rightarrow> nat \<Rightarrow> bool" where
  "watched conns c j \<equiv> cqeUserData (cqEntries c ! j) \<in> dom conns"

definition walk_head :: "CompletionEntry list \<Rightarrow> nat \<Rightarrow> nat \<Rightarrow> nat" where
  "walk_head es start i = seen_head es start i - (if seen_head es start i = start then 0 else 1)"

lemma walk_head_bounds: "start \<le> i \<Longrightarrow> start \<le> walk_head es start i \<and> walk_head es start i \<le> i"
proof -
  assume "start \<le> i"
  have "length (takeWhile cqe_seen (window es start (Suc i))) \<le> Suc i - start"
    using length_takeWhile_le [of cqe_seen "window es start (Suc i)"] by (auto intro: order_trans)
  then show ?thesis using \<open>start \<le> i\<close> by (cases "takeWhile cqe_seen (window es start (Suc i))") (auto simp: walk_head_def seen_head_def)
qed

lemma walk_loop_after_end:
  assumes "lim < length es"
  shows "walk_loop conns es lim i sx True =
    (case find (\<lambda>j. cqeUserData (es ! j) \<in> dom conns) [i ..< Suc lim] of
       None \<Rightarrow> Exhausted | Some j \<Rightarrow> Found j sx)"
  using assms
proof (induction "Suc lim - i" arbitrary: i)
  case 0
  then show ?case by (simp add: walk_loop.simps)
next
  case (Suc n)
  then have "i \<le> lim" "[i ..< Suc lim] = i # [Suc i ..< Suc lim]"
    by (simp_all add: upt_rec)
  with Suc.hyps(1) [of "Suc i"] Suc.hyps(2) Suc.prems show ?case
    by (subst walk_loop.simps) (auto simp: Let_def simp del: upt_Suc split: option.split)
qed

lemma walk_loop_correct:
  assumes "lim < length es"
  shows "walk_loop conns es lim i sx False =
    (case find (\<lambda>j. cqeUserData (es ! j) \<in> dom conns) [i ..< Suc lim] of
       None \<Rightarrow> Exhausted
     | Some j \<Rightarrow> Found j (if seen_head es i j = i then sx else of_nat (walk_head es i j)))"
  using assms
proof (induction "Suc lim - i" arbitrary: i sx)
  case 0
  then show ?case by (simp add: walk_loop.simps)
next
  case (Suc n)
  let ?hit = "\<lambda>j. cqeUserData (es ! j) \<in> dom conns"
  from Suc have i: "i \<le> lim" "i < length es" and upt: "[i ..< Suc lim] = i # [Suc i ..< Suc lim]"
    by (simp_all add: upt_rec)
  have mem: "Suc i \<le> j" if "find ?hit [Suc i ..< Suc lim] = Some j" for j
    using find_upt_Some [OF that] by simp
  show ?case
  proof (cases "cqe_seen (es ! i)")
    case True
    have win: "seen_head es i j = (if j = i then Suc i else seen_head es (Suc i) j)" if "i \<le> j" for j
      using that True i by (simp add: seen_head_def window_step)
    have ge: "seen_head es (Suc i) j \<noteq> i" for j by (simp add: seen_head_def)
    show ?thesis
      using True i mem Suc.hyps(1) [of "Suc i" "of_nat i"] Suc.hyps(2) Suc.prems ge
      by (subst walk_loop.simps)
        (auto simp: Let_def upt win walk_head_def domIff Suc_le_eq simp del: upt_Suc split: option.splits)
  next
    case False
    have win: "seen_head es i j = i" if "i \<le> j" for j
      using that False i by (simp add: seen_head_def window_step)
    show ?thesis
      using False i mem Suc.prems
      by (subst walk_loop.simps)
        (auto simp: Let_def upt win walk_loop_after_end domIff simp del: upt_Suc split: option.splits)
  qed
qed

lemma walk_loop_from:
  "lim < length es \<Longrightarrow> walk_loop conns es lim i (of_nat i) False =
    (case find (\<lambda>j. cqeUserData (es ! j) \<in> dom conns) [i ..< Suc lim] of
       None \<Rightarrow> Exhausted | Some j \<Rightarrow> Found j (of_nat (walk_head es i j)))"
  by (auto simp: walk_loop_correct walk_head_def simp del: upt_Suc split: option.split)

lemma walk_search_eq:
  assumes "cq_wf k c"
  shows "walk_search conns c =
    (let hs = unat (cqHead c AND cqMask c); ts = unat (cqTail c AND cqMask c)
     in case find (watched conns c) [hs ..< Suc ts] of
          Some i \<Rightarrow> Found i (of_nat (walk_head (cqEntries c) hs i))
        | None \<Rightarrow>
            (case find (watched conns c) [0 ..< Suc ts] of
               Some i \<Rightarrow> Found i (of_nat (walk_head (cqEntries c) 0 i))
             | None \<Rightarrow> Exhausted))"
proof -
  have lim: "unat (cqTail c AND cqMask c) < length (cqEntries c)"
    using assms by (rule cq_ring.slot_less)
  from walk_loop_from [OF lim, of conns "unat (cqHead c AND cqMask c)"] walk_loop_from [OF lim, of conns 0]
  show ?thesis
    by (simp add: walk_search_def Let_def del: upt_Suc split: option.split)
qed

lemma find_upt_later:
  assumes "find P [i ..< n] = Some j" "i \<le> i'" "i' \<le> j"
  shows "find P [i' ..< n] = Some j"
proof -
  have "[i ..< n] = [i ..< i'] @ [i' ..< n]"
    using upt_add_eq_append [of i i' "n - i'"] assms find_upt_Some [OF assms(1)] by simp
  moreover have "find P [i ..< i'] = None"
  proof (rule ccontr)
    assume "find P [i ..< i'] \<noteq> None"
    then obtain m where m: "find P [i ..< i'] = Some m" by auto
    then have "find P [i ..< n] = Some m" using calculation by (simp add: find_append)
    then show False using assms(1,3) find_upt_Some [OF m] by simp
  qed
  ultimately show ?thesis using assms(1) by (simp add: find_append)
qed

lemma walk_hit_userData:
  "cqeUserData (cqEntries (walk_hit i sx c) ! x) = cqeUserData (cqEntries c ! x)"
  by (cases "i < length (cqEntries c)") (simp_all add: walk_hit_def Let_def nth_list_update list_update_beyond)

lemma walk_hit_same:
  "cqTail (walk_hit i sx c) = cqTail c" "cqMask (walk_hit i sx c) = cqMask c"
  "cq_wf k (walk_hit i sx c) = cq_wf k c"
  by (simp_all add: walk_hit_def Let_def cq_wf_def)

section \<open>Properties\<close>



lemma walk_again_before:
  assumes wf: "cq_wf k c" and some: "find P [unat (cqHead c AND cqMask c) ..< Suc (unat (cqTail c AND cqMask c))] = Some i"
  defines "w \<equiv> walk_head (cqEntries c) (unat (cqHead c AND cqMask c)) i"
  shows "unat (of_nat w AND cqMask c) = w" "find P [w ..< Suc (unat (cqTail c AND cqMask c))] = Some i"
proof -
  have b: "unat (cqHead c AND cqMask c) \<le> w" "w \<le> i" "i \<le> unat (cqTail c AND cqMask c)"
    using find_upt_Some [OF some] walk_head_bounds [of "unat (cqHead c AND cqMask c)" i "cqEntries c"] by (auto simp: w_def)
  have k: "k < 32" using wf by (simp add: cq_wf_def)
  have "w < 2 ^ k" using b(2,3) cq_ring.slot_less [OF wf, of "cqTail c"] wf by (simp add: cq_wf_def)
  then have "unat (of_nat w :: u32) mod 2 ^ k = w" using pow2_less_u32 [OF k] by simp
  then show "unat (of_nat w AND cqMask c) = w"
    using cq_ring.unat_slot [OF wf, of "of_nat w"] wf by (simp only: cq_wf_def)
  show "find P [w ..< Suc (unat (cqTail c AND cqMask c))] = Some i"
    using find_upt_later [OF some b(1)] b(2) by simp
qed

text \<open>
  C39: Handling a completion does not consume it: the head is stored at most at its slot, and the
  search does not skip entries marked as seen, so the next walk finds the same completion again
  and accepts once more, unless the ring looks empty.
\<close>

theorem walkCq_handles_again:
  assumes wf: "cq_wf k c" and found: "walk_search conns c = Found i sx"
  shows "\<exists>sx'. walk_search conns (walk_hit i sx c) = Found i sx'"
proof -
  let ?c = "walk_hit i sx c" and ?hs = "unat (cqHead c AND cqMask c)" and ?ts = "unat (cqTail c AND cqMask c)"
  let ?P = "watched conns c"
  note same = walk_hit_userData walk_hit_same
  have wf': "cq_wf k ?c" using wf by (simp add: same)
  show ?thesis
  proof (cases "cqHead ?c = cqHead c")
    case True
    with found show ?thesis
      by (auto simp: walk_search_eq [OF wf] walk_search_eq [OF wf'] Let_def same simp del: upt_Suc split: option.splits)
  next
    case False
    then have moved: "cqHead c < sx" "cqHead ?c = sx" by (auto simp: walk_hit_def Let_def split: if_splits)
    have ts: "?ts < 2 ^ k" "k < 32" using cq_ring.slot_less [OF wf] wf by (auto simp: cq_wf_def)
    have slot: "unat (x AND cqMask c) = unat x mod 2 ^ k" for x
      using cq_ring.unat_slot [OF wf] wf by (simp add: cq_wf_def)
    show ?thesis
    proof (cases "find ?P [?hs ..< Suc ?ts]")
      case (Some j)
      with found have i: "j = i" "sx = of_nat (walk_head (cqEntries c) ?hs i)"
        by (auto simp: walk_search_eq [OF wf] Let_def simp del: upt_Suc)
      with walk_again_before [OF wf, of ?P i] Some
      have "find ?P [unat (sx AND cqMask c) ..< Suc ?ts] = Some i" by simp
      with moved(2) show ?thesis by (simp add: walk_search_eq [OF wf'] Let_def same del: upt_Suc)
    next
      case None
      then have i: "find ?P [0 ..< Suc ?ts] = Some i" "sx = of_nat (walk_head (cqEntries c) 0 i)"
        using found by (auto simp: walk_search_eq [OF wf] Let_def simp del: upt_Suc split: option.splits)
      with find_upt_Some [OF i(1)] walk_head_bounds [of 0 i "cqEntries c"] ts pow2_less_u32 [OF ts(2)]
      have "unat sx \<le> i" "i \<le> ?ts" "?P i" by auto
      moreover from this moved(1) have "?hs \<le> i"
        using mod_less_eq_dividend [of "unat (cqHead c)" "2 ^ k"] by (simp only: slot word_less_nat_alt)
      ultimately show ?thesis using None by (auto simp: find_None_iff simp del: upt_Suc)
    qed
  qed
qed

theorem walkCq_handles_again_witness:
  "\<exists>sx sx'. walk_search [1 \<mapsto> zero_connInfo] answered_cq = Found 0 sx
     \<and> walk_search [1 \<mapsto> zero_connInfo] (walk_hit 0 sx answered_cq) = Found 0 sx'"
proof -
  have wf: "cq_wf 2 answered_cq"
    by (simp add: answered_cq_def cq_wf_def sample_cq_def mask_eq_exp_minus_1)
  have "\<exists>sx. walk_search [1 \<mapsto> zero_connInfo] answered_cq = Found 0 sx"
    unfolding walk_search_eq [OF wf] by (simp add: answered_cq_def sample_cq_def sample_cqe_def upt_rec)
  with walkCq_handles_again [OF wf] show ?thesis by blast
qed

text \<open>
  C21: Accepting a connection hands it to \<open>Accept\<close> and prepares two polls in the next two slots,
  one for the new connection under user data 0 and one for the listening socket under the
  socket's descriptor, not under the id the listener watches.
\<close>

theorem onListen_accepts:
  assumes "accept4 (ciFd ci) SOCK_NONBLOCK w = Some (Inr (newFd, sa), w')" and "length (lNewConn l) < 1024"
    and s: "ringSq (lR l) = Some s" "sq_wf k s" "sqEntered s = 0" "sqWrites s + 1 \<noteq> 0"
  shows "\<exists>l' e1 e2. onListen accept4 ci l w = Some (Ok (), l', w')
    \<and> lNewConn l' = lNewConn l @ [accepted_conn newFd sa l']
    \<and> ringSq (lR l') = Some (prepared (prepared s e1) e2)
    \<and> (sqeOpcode e1, sqeFd e1, sqeUFlags e1, sqeUserData e1) = (PollAdd, ucast newFd, POLLIN, 0)
    \<and> (sqeOpcode e2, sqeFd e2, sqeUFlags e2, sqeUserData e2) = (PollAdd, ucast (ciFd ci), POLLIN, ciFd ci)"
proof -
  let ?fill1 = "poll_entry PollAdd newFd POLLIN 0" and ?fill2 = "poll_entry PollAdd (ciFd ci) POLLIN (ciFd ci)"
  let ?e1 = "snd (?fill1 (SubmitEntry_Reset (sqEntries s ! next_slot s)))"
  let ?s1 = "prepared s ?e1"
  let ?e2 = "snd (?fill2 (SubmitEntry_Reset (sqEntries ?s1 ! next_slot ?s1)))"
  have "submit_entry ?fill1 (lR l) = Some (Ok (), (lR l)\<lparr>ringSq := Some ?s1\<rparr>)"
    by (rule submit_entry_eq [OF s]) (simp add: poll_entry_def)
  moreover have "submit_entry ?fill2 ((lR l)\<lparr>ringSq := Some ?s1\<rparr>) =
      Some (Ok (), (lR l)\<lparr>ringSq := Some (prepared ?s1 ?e2)\<rparr>)"
    using submit_entry_eq [where fill = ?fill2 and r = "(lR l)\<lparr>ringSq := Some ?s1\<rparr>" and s = ?s1 and k = k and e = ?e2] s
    by (simp add: poll_entry_def)
  moreover define l1 where "l1 = l\<lparr>lR := (lR l)\<lparr>ringSq := Some (prepared ?s1 ?e2)\<rparr>\<rparr>"
  ultimately have run: "onListen accept4 ci l w =
      Some (Ok (), l1\<lparr>lNewConn := lNewConn l @ [accepted_conn newFd sa l1]\<rparr>, w')"
    using assms(1,2) by (simp add: onListen_def send_newConn_def newConn_cap_def zero_connInfo_def Let_def)
  show ?thesis
    unfolding run
    by (rule exI [of _ "l1\<lparr>lNewConn := lNewConn l @ [accepted_conn newFd sa l1]\<rparr>"], rule exI [of _ ?e1],
        rule exI [of _ ?e2]) (simp add: accepted_conn_def poll_entry_def l1_def)
qed

text \<open>A listening socket 7 that accepts connection 9.\<close>

definition sample_listener :: ringListener where
  "sample_listener = \<lparr>lDebug = False, lR = (sample_ring (sample_sq 2 0 0))\<lparr>ringCq := Some answered_cq\<rparr>, lF = Some 7,
     lA = \<lparr>addrNet = ''tcp'', addrS = []\<rparr>, lStopped = False, lErrHandler = False, lErrs = [], lNewConn = []\<rparr>"

definition sample_accept4 :: "unit accept4" where
  "sample_accept4 fd flags w = Some (Inr (9, SockaddrInet4 80 [127, 0, 0, 1]), w)"

theorem onListen_accepts_witness:
  "\<exists>l'. onListen sample_accept4 \<lparr>ciFd = 7, ciId = 1\<rparr> sample_listener () = Some (Ok (), l', ()) \<and> length (lNewConn l') = 1"
proof -
  have "ringSq (lR sample_listener) = Some (sample_sq 2 0 0)" "sq_wf 2 (sample_sq 2 0 0)"
      "sqEntered (sample_sq 2 0 0) = 0" "sqWrites (sample_sq 2 0 0) + 1 \<noteq> 0" "length (lNewConn sample_listener) < 1024"
    by (simp_all add: sample_listener_def sample_ring_def) (simp_all add: sample_sq_def)
  from onListen_accepts [of sample_accept4 "\<lparr>ciFd = 7, ciId = 1\<rparr>" "()", OF _ this(5,1-4)]
  show ?thesis by (auto simp: sample_accept4_def sample_listener_def)
qed

text \<open>
  The listener does not hear the polls it re-adds: when the ring holds only completions of
  such polls, whose user data are 0 and the descriptor of the socket, a walk leaves the listener
  as it was, unless the descriptor happens to be the id.
\<close>

lemma walkCq_deaf_to_repoll:
  assumes "ringCq (lR l) = Some c" "cq_wf k c" "\<not> lDebug l" "ciId ci \<notin> {0, ciFd ci}"
    and "cqeUserData ` set (cqEntries c) \<subseteq> {0, ciFd ci}"
  shows "walkCq accept4 [ciId ci \<mapsto> ci] l w = Some (Ok (), l, w)"
proof -
  have lim: "unat (cqTail c AND cqMask c) < length (cqEntries c)"
    using assms(2) by (rule cq_ring.slot_less)
  have "\<not> watched [ciId ci \<mapsto> ci] c j" if "j < length (cqEntries c)" for j
    using assms(4,5) nth_mem [OF that] by auto
  with lim have "find (watched [ciId ci \<mapsto> ci] c) [i ..< Suc (unat (cqTail c AND cqMask c))] = None" for i
    by (simp add: find_None_iff less_Suc_eq_le le_less_trans del: upt_Suc)
  then have "walk_search [ciId ci \<mapsto> ci] c = Exhausted"
    by (simp add: walk_search_eq [OF assms(2)] Let_def del: upt_Suc)
  then show ?thesis using assms(1,3) by (simp add: walkCq_def)
qed

lemma walkCq_deaf_to_repoll_example:
  "walkCq sample_accept4 [1 \<mapsto> \<lparr>ciFd = 7, ciId = 1\<rparr>]
     (sample_listener\<lparr>lR := (lR sample_listener)\<lparr>ringCq := Some (sample_cq 0 1 (sample_cqe 7 1 # replicate 3 (sample_cqe 0 0)))\<rparr>\<rparr>) ()
   = Some (Ok (), sample_listener\<lparr>lR := (lR sample_listener)\<lparr>ringCq := Some (sample_cq 0 1 (sample_cqe 7 1 # replicate 3 (sample_cqe 0 0)))\<rparr>\<rparr>, ())"
  using walkCq_deaf_to_repoll [of _ _ 2 "\<lparr>ciFd = 7, ciId = 1\<rparr>" sample_accept4 "()"]
  by (simp add: sample_listener_def cq_wf_def sample_cq_def sample_cqe_def mask_eq_exp_minus_1)

section \<open>The goroutine and its users\<close>

text \<open>
  What a turn of the goroutine keeps: the stop channel and the file, and at most 1024 waiting
  connections.
\<close>

lemma send_newConn_Some:
  "send_newConn c l = Some l' \<longleftrightarrow> length (lNewConn l) < newConn_cap \<and> l' = l\<lparr>lNewConn := lNewConn l @ [c]\<rparr>"
  by (auto simp: send_newConn_def)

lemma onListen_keeps:
  "onListen accept4 ci l w = Some (res, l', w') \<Longrightarrow> length (lNewConn l) \<le> newConn_cap \<Longrightarrow>
   lStopped l' = lStopped l \<and> lF l' = lF l \<and> length (lNewConn l') \<le> newConn_cap"
  by (auto simp: onListen_def Let_def send_newConn_Some split: option.splits prod.splits sum.splits go.splits)

lemma walkCq_keeps:
  "walkCq accept4 conns l w = Some (res, l', w') \<Longrightarrow> length (lNewConn l) \<le> newConn_cap \<Longrightarrow>
   lStopped l' = lStopped l \<and> lF l' = lF l \<and> length (lNewConn l') \<le> newConn_cap"
  by (auto simp: walkCq_def split: option.splits if_splits go.splits scan_result.splits dest!: onListen_keeps)

lemma listener_turn_keeps:
  "listener_turn sys accept4 conns l w = Some (res, l', w') \<Longrightarrow> length (lNewConn l) \<le> newConn_cap \<Longrightarrow>
   lStopped l' = lStopped l \<and> lF l' = lF l \<and> length (lNewConn l') \<le> newConn_cap"
  by (auto simp: listener_turn_def split: option.splits prod.splits go.splits dest!: walkCq_keeps)

lemma listener_start_conns:
  "listener_start l = Some (res, conns, l') \<Longrightarrow>
   (\<exists>ci. conns = [ciId ci \<mapsto> ci]) \<and> lStopped l' = lStopped l \<and> lNewConn l' = lNewConn l"
  by (auto simp: listener_start_def Let_def split: option.splits prod.splits)
    (rule exI [of _ "\<lparr>ciFd = _, ciId = _\<rparr>"], simp)

definition lis_inv :: "'k lis_sys \<Rightarrow> bool" where
  "lis_inv s \<longleftrightarrow> length (lNewConn (lyL s)) \<le> newConn_cap
     \<and> (case lyPc s of
          LisStart \<Rightarrow> lyConns s = Map.empty
        | LisReturned \<Rightarrow> lStopped (lyL s) \<and> (\<exists>ci. lyConns s = [ciId ci \<mapsto> ci])
        | _ \<Rightarrow> \<exists>ci. lyConns s = [ciId ci \<mapsto> ci])"

lemma lis_inv_step: "lis_step sys accept4 N s t \<Longrightarrow> lis_inv s \<Longrightarrow> lis_inv t"
proof (induction rule: lis_step.induct)
  case (lis_start s res conns l)
  with listener_start_conns [OF lis_start(2)] show ?case
    by (auto simp: lis_inv_def lis_after_def split: go.splits)
next
  case (lis_turn s res l k)
  with listener_turn_keeps [OF lis_turn(3)] show ?case
    by (auto simp: lis_inv_def lis_after_def split: go.splits)
next
  case (lis_accept s c l)
  then show ?case
    by (auto simp: lis_inv_def Accept_def split: list.splits lis_pc.splits)
next
  case (lis_close s res l k)
  then show ?case
    by (auto simp: lis_inv_def listener_Close_def Let_def split: if_splits option.splits prod.splits lis_pc.splits)
qed (auto simp: lis_inv_def split: lis_pc.splits)

interpretation lis_system: invariant_system lis_init "lis_step sys accept4 N" lis_inv
  for sys accept4 N
  by unfold_locales (simp add: lis_init_def lis_inv_def newConn_cap_def, rule lis_inv_step)


text \<open>Socket calls that succeed, with a resolver that returns 127.0.0.1 in its 16-byte form.\<close>

definition mapped_ip :: "u8 list \<Rightarrow> u8 list" where
  "mapped_ip ip = replicate 10 0 @ [255, 255] @ ip"

definition sample_net :: "unit netcalls" where
  "sample_net = \<lparr>nSocket = \<lambda>_ _ _ w. ((7, None), w),
     nResolveTCP = \<lambda>_ _. Inr \<lparr>naNetwork = ''tcp'', naString = ''127.0.0.1:80'', naIP = mapped_ip [127, 0, 0, 1], naPort = 80\<rparr>,
     nResolveUDP = \<lambda>_ _. Inl (ErrorString ''no such host''), nSetsockopt = \<lambda>_ _ _ _ w. (None, w), nBind = \<lambda>_ _ w. (None, w),
     nListen = \<lambda>_ _ w. (None, w), nClose = \<lambda>_ w. (None, w), nReadFile = \<lambda>_. Inr ''3''\<rparr>"


section \<open>Binding\<close>

text \<open>
  C40: The package \<open>net\<close> may return an IPv4 address in its 16-byte form, ten zero bytes, two
  bytes 255 and the address. \<open>SockoptListener\<close> copies the first four bytes of it, so that for
  \<open>tcp\<close> and \<open>udp\<close> it binds 0.0.0.0 and listens on every interface, whichever address was asked for.
\<close>

theorem SockoptListener_binds_any:
  assumes "nSocket N AF_INET SOCK_STREAM 0 w = ((fd, None), w')" "nResolveTCP N ''tcp'' address = Inr a"
    and "naIP a = mapped_ip ip"
  shows "SockoptListener N ''tcp'' address h [] r w =
    (case bind_listen N fd (SockaddrInet4 (naPort a) [0, 0, 0, 0]) w' of
       (Ok _, w'') \<Rightarrow>
         (Ok \<lparr>lDebug = ringDebug r, lR = r, lF = NewFile fd, lA = addr_of a, lStopped = False,
              lErrHandler = h, lErrs = [], lNewConn = []\<rparr>, w'')
     | (Err e, w'') \<Rightarrow> (Err e, w'')
     | (Panic p, w'') \<Rightarrow> (Panic p, w''))"
  using assms
  by (simp add: SockoptListener_def listener_socket_def inet_socket_def copy_into_def mapped_ip_def eval_nat_numeral)

theorem SockoptListener_binds_any_witness:
  "fst (SockoptListener sample_net ''tcp'' ''127.0.0.1:80'' False [] (lR sample_listener) ()) =
     Ok (sample_listener\<lparr>lA := \<lparr>addrNet = ''tcp'', addrS = ''127.0.0.1:80''\<rparr>\<rparr>)"
  using SockoptListener_binds_any [of sample_net "()" 7 "()" "''127.0.0.1:80''" _ "[127, 0, 0, 1]" False "lR sample_listener"]
  by (simp add: sample_net_def bind_listen_def addr_of_def sample_listener_def NewFile_def sample_ring_def)

end
