(* ===== verification/Net_Server.thy ===== *)
theory Net_Server
  imports Conn Ring_New
begin

text \<open>
  The sockets that \<open>SockoptListener\<close> of \<open>conn.go\<close> opens and closes, and
  \<open>examples/net/main.go\<close>, a web server on a ring. The web server of the standard library is the
  argument \<open>serve\<close>; the flags are arguments.
\<close>

section \<open>The program\<close>

definition net_options :: "bool \<Rightarrow> 'k RingOption list" where
  "net_options debug = [WithEnterErrHandler True] @ (if debug then [WithDebug] else [])"

text \<open>The handler: the root path has a page, every other path is not found.\<close>

definition net_handler :: "string \<Rightarrow> string option" where
  "net_handler path = (if path \<noteq> ''/'' then None else Some (''hello io_uring!'' @ [CHR 0x0A]))"

text \<open>\<open>log.Fatal\<close> ends the program before the deferred \<open>Close\<close> runs.\<close>

definition net_main ::
  "setup_call \<Rightarrow> syscall6 \<Rightarrow> mapped \<Rightarrow> 'k netcalls \<Rightarrow> ((string \<Rightarrow> string option) \<Rightarrow> ringListener \<Rightarrow> 'k \<Rightarrow> unit go \<times> ringListener \<times> 'k)
   \<Rightarrow> goint \<Rightarrow> bool \<Rightarrow> 'k \<Rightarrow> unit go \<times> 'k" where
  "net_main ksetup mmap mapped N serve port debug k =
     (case New ksetup mmap mapped 8192 (Some (zero_Params\<lparr>pFeatures := FeatNoDrop\<rparr>)) (net_options debug) k of
        (Err e, k) \<Rightarrow> (Err e, k)
      | (Panic p, k) \<Rightarrow> (Panic p, k)
      | (Ok r, k) \<Rightarrow>
          (case SockoptListener N ''tcp'' ('':'' @ dec_int port) True [SOReuseport] r k of
             (Err e, k) \<Rightarrow> (Err e, k)
           | (Panic p, k) \<Rightarrow> (Panic p, k)
           | (Ok l, k) \<Rightarrow>
               (case serve net_handler l k of
                  (Err e, l, k) \<Rightarrow> (Err e, k)
                | (res, l, k) \<Rightarrow>
                    (case listener_Close N l k of
                       (Panic p, l, k) \<Rightarrow> (Panic p, k)
                     | (_, l, k) \<Rightarrow> (res, k)))))"

section \<open>The sockets of a listener\<close>

text \<open>
  What the system promises of the socket calls, with the open descriptors of its state: \<open>socket\<close> opens
  a new one or none, \<open>close\<close> closes the one it is given, the other calls leave them alone.
\<close>

definition socket_calls :: "'k netcalls \<Rightarrow> ('k \<Rightarrow> goint set) \<Rightarrow> bool" where
  "socket_calls N opens \<longleftrightarrow>
     (\<forall>d t p k fd e k'. nSocket N d t p k = ((fd, e), k') \<longrightarrow>
        fd \<notin> opens k \<and> (e = None \<longrightarrow> 0 \<le> sint fd) \<and> opens k' = (if e = None then insert fd (opens k) else opens k))
     \<and> (\<forall>fd k. opens (snd (nClose N fd k)) = opens k - {fd})
     \<and> (\<forall>fd lvl opt v k. opens (snd (nSetsockopt N fd lvl opt v k)) = opens k)
     \<and> (\<forall>fd sa k. opens (snd (nBind N fd sa k)) = opens k)
     \<and> (\<forall>fd n k. opens (snd (nListen N fd n k)) = opens k)"

lemma socket_calls_keep:
  assumes "socket_calls N opens"
  shows "nSetsockopt N fd lvl opt v k = (e, k') \<Longrightarrow> opens k' = opens k"
    "nBind N fd sa k = (e, k') \<Longrightarrow> opens k' = opens k"
    "nListen N fd n k = (e, k') \<Longrightarrow> opens k' = opens k"
    "opens (snd (nClose N fd k)) = opens k - {fd}"
  using assms unfolding socket_calls_def by (metis snd_conv)+

lemma socket_calls_open:
  assumes "socket_calls N opens" "nSocket N d t p k = ((fd, e), k')"
  shows "fd \<notin> opens k" "e = None \<Longrightarrow> 0 \<le> sint fd \<and> opens k' = insert fd (opens k)" "e = Some err \<Longrightarrow> opens k' = opens k"
  using assms unfolding socket_calls_def by (auto split: if_splits)

text \<open>Whether the resolver knows the address; a path and an unknown network are not resolved.\<close>

definition resolves :: "'k netcalls \<Rightarrow> string \<Rightarrow> string \<Rightarrow> bool" where
  "resolves N network address \<longleftrightarrow>
     (if network \<in> {''tcp'', ''tcp4'', ''tcp6''} then \<exists>a. nResolveTCP N network address = Inr a
      else if network \<in> {''udp'', ''udp4'', ''udp6''} then \<exists>a. nResolveUDP N network address = Inr a
      else True)"

text \<open>What opening the socket leaves: a new descriptor on success, and after a failed resolution.\<close>

definition opened :: "('k \<Rightarrow> goint set) \<Rightarrow> goint \<Rightarrow> 'k \<Rightarrow> 'k \<Rightarrow> bool" where
  "opened opens fd k k' \<longleftrightarrow> 0 \<le> sint fd \<and> fd \<notin> opens k \<and> opens k' = insert fd (opens k)"

lemma inet_socket_opens:
  assumes "socket_calls N opens" "inet_socket N d t resolved k = (res, k')"
  shows "case res of
      Ok (fd, a) \<Rightarrow> resolved = Inr a \<and> opened opens fd k k'
    | Err e \<Rightarrow> opens k' = opens k \<or> (\<exists>err fd. resolved = Inl err \<and> opened opens fd k k')
    | Panic p \<Rightarrow> False"
proof -
  obtain fd e k1 where "nSocket N d t 0 k = ((fd, e), k1)" by (metis prod.exhaust)
  with socket_calls_open [OF assms(1) this] assms(2) show ?thesis
    by (cases e; cases resolved) (auto simp: inet_socket_def opened_def)
qed

text \<open>The four branches of the switch that resolve the address differ in how they store it.\<close>

abbreviation inet_branch ::
  "'k netcalls \<Rightarrow> goint \<Rightarrow> goint \<Rightarrow> goerror + netAddr \<Rightarrow> (netAddr \<Rightarrow> Sockaddr) \<Rightarrow> (netAddr \<Rightarrow> addr) \<Rightarrow> 'k
   \<Rightarrow> (goint \<times> Sockaddr \<times> addr) go \<times> 'k" where
  "inet_branch N d t resolved sa a k \<equiv>
     (case inet_socket N d t resolved k of
        (Ok (fd, n), k) \<Rightarrow> (Ok (fd, sa n, a n), k)
      | (Err e, k) \<Rightarrow> (Err e, k) | (Panic p, k) \<Rightarrow> (Panic p, k))"

definition socket_opened :: "bool \<Rightarrow> ('k \<Rightarrow> goint set) \<Rightarrow> (goint \<times> Sockaddr \<times> addr) go \<Rightarrow> 'k \<Rightarrow> 'k \<Rightarrow> bool" where
  "socket_opened resolved opens res k k' \<longleftrightarrow>
     (case res of
        Ok (fd, sa, a) \<Rightarrow> resolved \<and> opened opens fd k k'
      | Err e \<Rightarrow> opens k' = opens k \<or> (\<not> resolved \<and> (\<exists>fd. opened opens fd k k'))
      | Panic p \<Rightarrow> False)"

lemma inet_branch_opens:
  assumes "socket_calls N opens" "inet_branch N d t resolved sa a k = (res, k')"
  shows "socket_opened (\<exists>x. resolved = Inr x) opens res k k'"
proof -
  obtain out k1 where "inet_socket N d t resolved k = (out, k1)" by (metis prod.exhaust)
  with inet_socket_opens [OF assms(1) this] assms(2) show ?thesis
    by (cases out) (auto simp: socket_opened_def split: prod.splits)
qed

lemma unix_socket_opens:
  assumes "socket_calls N opens" "(case nSocket N AF_UNIX SOCK_STREAM 0 k of
      ((fd, None), k) \<Rightarrow> (Ok (fd, SockaddrUnix address, a), k)
    | ((fd, Some e), k) \<Rightarrow> (Err e, snd (nClose N fd k))) = (res, k')"
  shows "socket_opened True opens res k k'"
proof -
  obtain fd e k1 where sock: "nSocket N AF_UNIX SOCK_STREAM 0 k = ((fd, e), k1)" by (metis prod.exhaust)
  from socket_calls_open [OF assms(1) this] sock assms(2) show ?thesis
    by (cases e) (auto simp: socket_opened_def opened_def socket_calls_keep(4) [OF assms(1)])
qed

lemma listener_socket_opens:
  assumes calls: "socket_calls N opens" and run: "listener_socket N network address k = (res, k')"
  shows "socket_opened (resolves N network address) opens res k k'"
proof -
  note inet = inet_branch_opens [OF calls]
  consider (tcp) d sa a where "network \<in> {''tcp'', ''tcp4'', ''tcp6''}"
      "inet_branch N d SOCK_STREAM (nResolveTCP N network address) sa a k = (res, k')"
    | (udp) sa a where "network \<in> {''udp'', ''udp4'', ''udp6''}"
      "inet_branch N AF_INET SOCK_DGRAM (nResolveUDP N network address) sa a k = (res, k')"
    | (unix) "network = ''unix''" | (unknown) "network \<notin> {''tcp'', ''tcp4'', ''tcp6'', ''udp'', ''udp4'', ''udp6'', ''unix''}"
    using run unfolding listener_socket_def Let_def by (cases "network = ''tcp'' \<or> network = ''tcp4''"; 
      cases "network = ''tcp6''"; cases "network = ''unix''"; cases "network = ''udp'' \<or> network = ''udp4''"; cases "network = ''udp6''") auto
  then show ?thesis
  proof cases
    case (tcp d sa a)
    from inet [OF tcp(2)] tcp(1) show ?thesis by (simp add: resolves_def)
  next
    case (udp sa a)
    from inet [OF udp(2)] udp(1) show ?thesis by (auto simp: resolves_def)
  next
    case unix
    then show ?thesis using run unix_socket_opens [OF calls] by (simp add: listener_socket_def resolves_def)
  next
    case unknown
    then show ?thesis using run by (auto simp: listener_socket_def socket_opened_def)
  qed
qed

text \<open>A later call that fails closes the socket.\<close>

definition kept_or_closed :: "('k \<Rightarrow> goint set) \<Rightarrow> goint \<Rightarrow> unit go \<Rightarrow> 'k \<Rightarrow> 'k \<Rightarrow> bool" where
  "kept_or_closed opens fd res k k' \<longleftrightarrow>
     (case res of Ok _ \<Rightarrow> opens k' = opens k | Err e \<Rightarrow> opens k' = opens k - {fd} | Panic p \<Rightarrow> False)"

lemma set_sockopts_closes:
  assumes "socket_calls N opens" "TCPFastopen \<notin> set opts \<or> FastOpenAllowed N = Ok ()" "set_sockopts N fd opts k = (res, k')"
  shows "kept_or_closed opens fd res k k'"
  using assms(2,3)
proof (induction opts arbitrary: k)
  case (Cons opt opts)
  have IH: "kept_or_closed opens fd res k1 k'" if "set_sockopts N fd opts k1 = (res, k')" for k1
    using Cons.IH [OF _ that] Cons.prems(1) by auto
  have call: "kept_or_closed opens fd res k k'"
    if run: "(case nSetsockopt N fd lvl opt 1 k of (Some e, k) \<Rightarrow> (Err e, snd (nClose N fd k))
         | (None, k) \<Rightarrow> set_sockopts N fd opts k) = (res, k')" for lvl
  proof -
    obtain e k1 where set: "nSetsockopt N fd lvl opt 1 k = (e, k1)" by (metis prod.exhaust)
    then have k1: "opens k1 = opens k" by (rule socket_calls_keep(1) [OF assms(1)])
    show ?thesis
    proof (cases e)
      case None
      then show ?thesis using run set IH [of k1] k1 by (simp add: kept_or_closed_def split: go.splits)
    next
      case (Some err)
      then show ?thesis
        using run set k1 socket_calls_keep(4) [OF assms(1), of fd k1] by (auto simp: kept_or_closed_def)
    qed
  qed
  show ?case
  proof (cases "opt = SOReuseport \<or> opt = TCPFastopen")
    case True
    then show ?thesis using Cons.prems call [of SOL_SOCKET] call [of SOL_TCP] by (cases "opt = SOReuseport") simp_all
  next
    case False
    then show ?thesis using Cons.prems(2) IH [of k] by simp
  qed
qed (auto simp: kept_or_closed_def)

lemma bind_listen_closes:
  assumes "socket_calls N opens" "bind_listen N fd sa k = (res, k')"
  shows "kept_or_closed opens fd res k k'"
proof -
  obtain e k1 where bind: "nBind N fd sa k = (e, k1)" by (metis prod.exhaust)
  obtain e2 k2 where listen: "nListen N fd SOMAXCONN k1 = (e2, k2)" by (metis prod.exhaust)
  note keep = socket_calls_keep [OF assms(1)]
  show ?thesis
    using assms(2) keep(2) [OF bind] keep(3) [OF listen] keep(4) [of fd k1] keep(4) [of fd k2]
    by (cases e; cases e2) (auto simp: bind_listen_def bind listen kept_or_closed_def)
qed

section \<open>Properties\<close>


text \<open>The path that leaks: the socket is opened before the address is resolved and not closed when that fails.\<close>

lemma SockoptListener_leaks_unresolved:
  assumes "nSocket N AF_INET SOCK_STREAM 0 k = ((fd, None), k1)" "nResolveTCP N ''tcp'' address = Inl e"
  shows "SockoptListener N ''tcp'' address h opts r k = (Err (ErrorString ''could not open socket''), k1)"
  using assms by (simp add: SockoptListener_def listener_socket_def inet_socket_def)

text \<open>A system with one descriptor, whose state says whether it is open, and with the result of \<open>bind\<close> given.\<close>

definition one_socket :: "goerror option \<Rightarrow> bool netcalls" where
  "one_socket bound = \<lparr>nSocket = \<lambda>_ _ _ k. if k then ((- 1, Some (Errno 24)), k) else ((7, None), True),
     nResolveTCP = \<lambda>_ _. Inr \<lparr>naNetwork = ''tcp'', naString = '':9999'', naIP = [], naPort = 9999\<rparr>,
     nResolveUDP = \<lambda>_ _. Inl (ErrorString ''no such host''), nSetsockopt = \<lambda>_ _ _ _ k. (None, k), nBind = \<lambda>_ _ k. (bound, k),
     nListen = \<lambda>_ _ k. (None, k), nClose = \<lambda>fd k. (None, k \<and> fd \<noteq> 7), nReadFile = \<lambda>_. Inr ''3''\<rparr>"

lemma one_socket_calls: "socket_calls (one_socket bound) (\<lambda>k. if k then {7} else {})"
  by (auto simp: socket_calls_def one_socket_def)


text \<open>
  C24: The web server of the example serves on the port it was given: when the ring is set up, the
  address resolves to the port without a host, and the socket calls succeed, the socket is bound to
  the port on every interface with the port shared, and the server runs on a listener for it. The
  listener's ring is the new one, with an error handler, and in debug mode exactly when asked.
\<close>

theorem net_main_serves:
  assumes "Setup ksetup 8192 (zero_Params\<lparr>pFeatures := FeatNoDrop\<rparr>) = (Ok ringfd, p')"
    and "MmapRing mmap ringfd p' zero_SqLayout zero_CqLayout = (Ok (), sq, cq)"
    and "nResolveTCP N ''tcp'' ('':'' @ dec_int port) = Inr a" "naIP a = []" "naPort a = port"
    and "nSocket N AF_INET SOCK_STREAM 0 k = ((fd, None), k1)" "0 \<le> sint fd"
    and "nSetsockopt N fd SOL_SOCKET SOReuseport 1 k1 = (None, k2)"
    and "nBind N fd (SockaddrInet4 port [0, 0, 0, 0]) k2 = (None, k3)" "nListen N fd SOMAXCONN k3 = (None, k4)"
    and "\<And>h l w. \<exists>e l' w'. serve h l w = (Err e, l', w')"
  shows "\<exists>r l. net_main ksetup mmap mapped N serve port debug k = (fst (serve net_handler l k4), snd (snd (serve net_handler l k4)))
    \<and> lR l = r \<and> lF l = Some fd \<and> lA l = addr_of a \<and> lErrHandler l \<and> \<not> lStopped l \<and> lNewConn l = []
    \<and> ringFd r = ringfd \<and> ringErrHandler r \<and> (ringDebug r \<longleftrightarrow> debug) \<and> (lDebug l \<longleftrightarrow> debug)
    \<and> ringSq r = Some (view_sq mapped sq) \<and> ringCq r = Some (view_cq mapped cq)"
proof -
  define r where "r = (fresh_ring ringfd p' (view_sq mapped sq) (view_cq mapped cq))\<lparr>ringErrHandler := True, ringDebug := debug\<rparr>"
  define l where "l = \<lparr>lDebug = debug, lR = r, lF = Some fd, lA = addr_of a, lStopped = False, lErrHandler = True, lErrs = [], lNewConn = []\<rparr>"
  have new: "New ksetup mmap mapped 8192 (Some (zero_Params\<lparr>pFeatures := FeatNoDrop\<rparr>)) (net_options debug) k = (Ok r, k)"
    using assms(1,2) by (simp add: New_def net_options_def WithEnterErrHandler_def WithDebug_def r_def fresh_ring_def)
  have zeros: "copy_into 4 [] = [0, 0, 0, 0]" by (simp add: copy_into_def eval_nat_numeral)
  have dbg: "ringDebug r = debug" by (simp add: r_def)
  have "SockoptListener N ''tcp'' ('':'' @ dec_int port) True [SOReuseport] r k = (Ok l, k4)"
    using assms(3-10) by (simp add: SockoptListener_def listener_socket_def inet_socket_def zeros bind_listen_def NewFile_def
        l_def dbg)
  moreover obtain e l' w' where "serve net_handler l k4 = (Err e, l', w')" using assms(11) by blast
  ultimately show ?thesis
    using new by (intro exI [of _ r] exI [of _ l]) (simp add: net_main_def l_def r_def fresh_ring_def)
qed

theorem net_main_serves_witness:
  "net_main sample_setup sample_mmap sample_mem (one_socket None) (\<lambda>h l w. (Err (ErrorString ''http: Server closed''), l, w)) 9999 True False
     = (Err (ErrorString ''http: Server closed''), True)"
proof -
  obtain sq cq where run: "MmapRing sample_mmap 5 sample_params zero_SqLayout zero_CqLayout = (Ok (), sq, cq)"
    using sample_map by blast
  show ?thesis
    using net_main_serves [OF sample_Setup run, where N = "one_socket None" and port = 9999 and k = False and fd = 7
        and a = "\<lparr>naNetwork = ''tcp'', naString = '':9999'', naIP = [], naPort = 9999\<rparr>" and ?k1.0 = True and ?k2.0 = True
        and ?k3.0 = True and ?k4.0 = True and serve = "\<lambda>h l w. (Err (ErrorString ''http: Server closed''), l, w)"
        and mapped = sample_mem and debug = True]
    by (simp add: one_socket_def)
qed

end
