(* ===== verification/Spec2Isabelle.thy ===== *)
theory Spec2Isabelle
  imports Submitter Sq_Protocol Served Ring_Safety Request_Service Standalone Bulk_Send Copy_File Net_Server
begin

text \<open>
  This development verifies \<^emph>\<open>iouring-go\<close>, a Go library over Linux's io_uring: a ring shared
  with the kernel is created and mapped, callers take submission entries, fill them in and hand
  them to the kernel, and goroutines of the library collect the completions.

  \<^bold>\<open>Parts and theories.\<close>
    \<^item> \<open>Go_Prelude\<close>: machine integers as words, the outcomes of a Go call (\<open>Ok\<close>, \<open>Err\<close>,
      \<open>Panic\<close>), masked indices, list windows, \<open>reach\<close> and the locales
      \<open>invariant_system\<close> of transition systems with an invariant and \<open>refinement\<close> of a transition
      system by another.
    \<^item> \<open>Consts\<close> (\<open>consts.go\<close>): the constants, the opcodes as a datatype with their numbers.
    \<^item> \<open>Ring_Types\<close> (\<open>types.go\<close>): parameters, entries and queues, their methods, the well-formed
      geometries \<open>sq_wf\<close> and \<open>cq_wf\<close> and the locale \<open>ring_geometry\<close> the queue algorithms use.
      \<open>Entry_By\<close>: the search \<open>CompletionQueue.EntryBy\<close>.
    \<^item> \<open>Uring_Setup\<close> (\<open>uring_setup.go\<close>, \<open>uring_enter.go\<close>): \<open>Setup\<close>, the sizes and addresses of
      \<open>MmapRing\<close>, \<open>Enter\<close>.
    \<^item> \<open>Register\<close> (\<open>register.go\<close>): the register calls and the file registry.
    \<^item> \<open>Completer\<close> (\<open>completer.go\<close>): the goroutine that moves the completion head over
      acknowledged slots.
    \<^item> \<open>Ring_Core\<close> (\<open>ring.go\<close>): \<open>SubmitEntry\<close> and its callback, \<open>Enter\<close>, \<open>ID\<close>, the accessors,
      \<open>Stop\<close>. \<open>Completion\<close>: \<open>run\<close>, \<open>onEntry\<close>, \<open>getCqe\<close>. \<open>Ring_New\<close> (also
      \<open>ring_option.go\<close>): \<open>New\<close> and the options, with the locale \<open>ring_option\<close> of what an option
      may change.
    \<^item> \<open>Ops\<close> (\<open>ops.go\<close>, \<open>utils.go\<close>): every preparing method as \<open>prepare\<close> of the part that fills in
      the entry, every waiting method as \<open>complete_op\<close>; the locale \<open>preparing_methods\<close>.
    \<^item> \<open>Sq_Protocol\<close> (\<open>ring.go\<close>, \<open>types.go\<close>): the same \<open>SubmitEntry\<close>, callback and lock action by
      action, in any interleaving of fewer than \<open>2 ^ 32\<close> goroutines.
    \<^item> \<open>Submitter\<close> (\<open>submitter.go\<close>): the goroutine that submits by a timer.
    \<^item> \<open>Read_Writer\<close> (\<open>read_writer.go\<close>): files over the ring.
    \<^item> \<open>Ring_Conn\<close> (\<open>ring_conn.go\<close>) and \<open>Conn\<close> (\<open>conn.go\<close>): connections and listeners.
    \<^item> \<open>Served\<close>: what io_uring documents for the submission of one entry, as the contract \<open>executes\<close>
      of the kernel, and the drained rings it keeps. \<open>Ring_Safety\<close>: the operations of the library on
      one ring as a type, and the rings in use they keep. \<open>Request_Service\<close>: the service the
      completion goroutine gives its callers, and that it refines it.
    \<^item> \<open>File_Data\<close> (\<open>read_writer.go\<close>): the bytes of files and buffers under a kernel that executes reads
      and writes.
    \<^item> \<open>Standalone\<close> (\<open>examples/standalone/main.go\<close>): a program with a ring of its own. \<open>Copy_File\<close>
      (\<open>examples/cp\<close>): the copy program over the ring and over the operating system.
      \<open>Bulk_Send\<close> (\<open>examples/bulk-socket/main.go\<close>): one chunk written to many sockets in one submission.
      \<open>Net_Server\<close> (\<open>examples/net/main.go\<close>, \<open>conn.go\<close>): the web server, and the sockets that opening
      a listener opens and closes.
    \<^item> This theory: a request from the caller to the kernel and back, over \<open>Ops\<close>, \<open>Ring_Core\<close> and
      \<open>Completion\<close>.

  \<^bold>\<open>Correspondence.\<close> A struct is a record with the fields of the source, prefixed; a pointer into
  the mapped memory is the word it points to, and a queue that \<open>Stop\<close> clears is an option. A
  method is a function from the state to its outcome and the new state. An outer \<open>option\<close> is a
  call that may not return: \<open>None\<close> where the code spins or blocks when nothing else runs.
  Goroutines are inductive step relations, with the actions of the kernel and of other callers as
  steps of their own. Loops over a ring use naturals as counters, since a ring has fewer than
  \<open>2 ^ 32\<close> entries; values that wrap (heads, tails, ids, sizes, the writer count) are words.
  Channels are lists or counters with the capacity of the source.

  \<^bold>\<open>Parameters.\<close> The kernel is a function from the system call and its state to the new state, the
  result and the errno (\<open>syscall6\<close>, \<open>kernel6\<close>, \<open>setup_call\<close>); the socket calls, the resolver and
  the file system of the listener are the record \<open>netcalls\<close>, with the contract \<open>socket_calls\<close>. Where a property needs more of the
  kernel it says so: \<open>sq_geometry\<close> and \<open>cq_geometry\<close> (a power of two entries and the mask of one
  less), \<open>executes\<close> (one submitted entry is executed and gives one completion with its user data),
  \<open>keeps_shape\<close> (a call leaves the sizes of the rings and the library's words alone). Polling loops
  take the sequence of queues they observe. The files of the copy program are part of the kernel's
  state (\<open>exec_file\<close>), as is the temporary file of the standalone program (\<open>sa_reads_file\<close>).

  \<^bold>\<open>What is shown.\<close> A prepared request reaches the kernel and its result comes back to the caller
  (\<open>request_answered\<close>, \<open>prepare_quiescent_submits\<close>); no sequence of operations on a ring in use
  panics or damages it (\<open>ring_ops_type_safe\<close>); the completion goroutine loses no request and answers
  none twice (\<open>run_refines_service\<close>); what \<open>WriteAt\<close> stored \<open>ReadAt\<close>
  returns (\<open>ReadAt_after_WriteAt\<close>), a file is copied whole, as over the operating system
  (\<open>cp_copies_file\<close>), and the standalone program reads its file back
  (\<open>standalone_reads_content\<close>); the scan of the completions signals exactly
  the requests in flight among the visited entries, misses no published one as long as the ring is
  not full, and moves the head only over them while the completions do not wrap (\<open>Completion\<close>); \<open>EntryBy\<close> is the first match in ring order (\<open>Entry_By\<close>); the
  completer moves the head only over acknowledged slots and as far as it can (\<open>Completer\<close>); every
  slice lies inside its mapping and a new ring is well-formed (\<open>Uring_Setup\<close>, \<open>Ring_New\<close>); the lock
  and the writer count are exact in every interleaving (\<open>Sq_Protocol\<close>); \<open>Read\<close> refines a
  sequential file (\<open>Read_Writer\<close>); invariants of the submitter, the connection and the listener.
  The properties also fix where the code departs from its intent: batches submit copies of
  the first entry, a wrapped scan can skip a completion, the goroutine can block on its own
  channel, a failed \<open>Enter\<close> silences the submitter, a connection admits three calls, a listener
  handles one completion again and again and binds every interface.

  \<^bold>\<open>Bounds and fuel.\<close> No fuel is used: loops that end are functions with a termination proof, loops
  that may not are \<open>partial_function (option)\<close>, and where a property says that such a call returns
  it is proved to be \<open>Some\<close>. Capacities (retry 2, stop 2, work 128, newConn 1024, completer 512)
  are those of the source.

  \<^bold>\<open>Not modelled.\<close> The tests; of the programs under \<open>examples/\<close> the parsing of flags and the
  parts that are calls of other packages, and \<open>write\<close>, which does not compile; debugging output, except for
  the panics it can cause; finalizers and the garbage collector (whether a buffer stays reachable
  while the kernel uses it); the text of error messages of the kernel; unused channels and fields
  (\<open>connGet\<close>, \<open>sqeIds\<close>, \<open>poll\<close>). The memory model is sequentially consistent: the atomics of Go are.
\<close>

section \<open>A request from the caller to the kernel and back\<close>

text \<open>
  The parts of the library meet in a waiting method such as \<open>Fsync\<close>: it prepares an entry
  (theories \<open>Ring_Core\<close> and \<open>Ops\<close>) and waits in \<open>complete\<close> for the goroutine of the ring
  (theory \<open>Completion\<close>), which enters the kernel and scans the completions. In the theory \<open>Ops\<close>
  the goroutine's answer is a parameter of \<open>complete\<close>; here it is one turn of the goroutine that
  \<open>New\<close> starts, and \<open>None\<close> means that the request was not signalled in that turn.
\<close>

definition goroutine_reply :: "'k ring_mem kernel6 \<Rightarrow> 'k \<Rightarrow> reply" where
  "goroutine_reply sys w req r =
     (case run_receive sys req (started_run r w) of
        None \<Rightarrow> None
      | Some st \<Rightarrow>
          (let st = run_after st
           in case find (\<lambda>cr. crId cr = crId req) (rnDone st) of
                None \<Rightarrow> None
              | Some cr \<Rightarrow> Some (cr, rnRing st)))"

lemma goroutine_served:
  assumes "executes sys exec" "exec e w = (v, w')" "sqeUserData e = crId req"
    and "ringSq r = Some (prepared s e)" "sq_drained ks s" "ringCq r = Some c" "cq_drained kc c"
  shows "\<exists>r'. goroutine_reply sys w req r = Some (req\<lparr>crRes := fst v, crFlags := snd v\<rparr>, r') \<and> drained ks kc r'"
proof -
  have "fcard {|crId req|} = 1" by (simp add: fcard_finsert_if)
  then show ?thesis
    using enter_served [OF assms(1,2,4-6), of 0 EnterGetEvents 0] onEntry_served [OF assms(7) refl, of req v]
      sq_drained_served [OF assms(5), of e] cq_drained_served [OF assms(7), of "crId req" v] assms(3)
    by (simp add: goroutine_reply_def run_receive_def started_run_def run_after_def run_onEntry_def drained_def)
qed

text \<open>
  C1: A request is answered: on a ring whose queues are drained and whose lock is free, with a
  kernel that executes one entry at a time, every waiting method that prepares an entry gets, in
  one turn of the goroutine, the kernel's result for the very entry it prepared: the errno as an
  error when the result is negative, the method's result otherwise. The ring is drained again
  afterwards, so that the next request is answered as well.
\<close>

theorem request_answered:
  assumes "executes sys exec" "drained ks kc r" "call_ok cl"
  shows "\<exists>s r' errno flags w'. ringSq r = Some s
    \<and> exec (entry_of cl (ringIdx r + 1) (sqEntries s ! (unat (sqTail s) mod 2 ^ ks))) w = ((errno, flags), w')
    \<and> complete_op (goroutine_reply sys w) (dispatch cl) result r =
        Some (if sint errno < 0 then Err (Errno (scast (- errno))) else Ok (result errno flags), r')
    \<and> drained ks kc r'"
proof -
  from assms(2) obtain s c where ring: "ringSq r = Some s" "sq_drained ks s" "ringCq r = Some c" "cq_drained kc c"
    by (auto simp: drained_def)
  then have sq: "sq_wf ks s" "sqEntered s = 0" "sqWrites s + 1 \<noteq> 0" by (simp_all add: sq_drained_def)
  let ?e = "entry_of cl (ringIdx r + 1) (sqEntries s ! (unat (sqTail s) mod 2 ^ ks))"
  let ?r = "r\<lparr>ringIdx := ringIdx r + 1, ringSq := Some (prepared s ?e)\<rparr>"
  obtain errno flags w' where exec: "exec ?e w = ((errno, flags), w')" by (cases "exec ?e w") auto
  have prep: "dispatch cl r = Some (Ok (ringIdx r + 1), ?r)"
    using preps.call_prepared [OF ring(1) sq assms(3)] by (simp add: entry_of_def next_slot_mod [OF sq(1)])
  have "sqeUserData ?e = ringIdx r + 1" using entry_of_ok [OF assms(3)] by simp
  with goroutine_served [OF assms(1) exec, of "\<lparr>crId = ringIdx r + 1, crRes = 0, crFlags = 0\<rparr>" ?r s ks c kc] ring
  obtain r' where "goroutine_reply sys w \<lparr>crId = ringIdx r + 1, crRes = 0, crFlags = 0\<rparr> ?r =
      Some (\<lparr>crId = ringIdx r + 1, crRes = errno, crFlags = flags\<rparr>, r')" "drained ks kc r'"
    by auto
  with ring(1) exec prep show ?thesis by (simp add: complete_op_def complete_def)
qed

theorem request_answered_witness:
  "\<exists>r'. complete_op (goroutine_reply (serving_kernel (\<lambda>e w. ((ucast (sqeLen e), 0), w))) ())
     (dispatch (CallRead 4 \<lparr>sliceData = 512, sliceLen = 16\<rparr> 8 0)) (\<lambda>res flags. res) (sample_ring (sample_sq 2 6 2))
     = Some (Ok 16, r') \<and> drained 2 2 r'"
proof -
  let ?exec = "\<lambda>e (w :: unit). ((ucast (sqeLen e), 0), w)" and ?cl = "CallRead 4 \<lparr>sliceData = 512, sliceLen = 16\<rparr> 8 0"
  have "drained 2 2 (sample_ring (sample_sq 2 6 2))"
    by (simp add: drained_def sq_drained_def cq_drained_def sample_ring_def sample_sq_def sq_wf_def cq_wf_def
        sample_cq_def mask_eq_exp_minus_1)
  moreover have "call_ok ?cl" by (simp add: call_ok_def)
  ultimately show ?thesis
    using request_answered [OF serving_kernel_executes [of ?exec], of 2 2 "sample_ring (sample_sq 2 6 2)" ?cl "()" "\<lambda>res flags. res"]
    by (auto simp: entry_of_def fill_defs set_addr_def firstAddr_def)
qed

end
